(* ===== verification/Prelude.thy ===== *)
theory Prelude
  imports Main "HOL-Library.Word"
begin

text \<open>
  Shared vocabulary of the development: the machine integer types of
  \<^verbatim>\<open>core/rpcs3/util/types.hpp\<close>, the outcome of a (possibly blocking) HLE call, the
  interleaving of threads over a shared state with its reachability induction, and the
  word and list facts that several components use.
\<close>

unbundle bit_operations_syntax

section \<open>Types\<close>

type_synonym u8 = "8 word"
type_synonym u16 = "16 word"
type_synonym u32 = "32 word"
type_synonym u64 = "64 word"
type_synonym u128 = "128 word"

text \<open>\<open>error_code\<close> is a signed 32-bit value in the sources; every constant is given by its
  unsigned bit pattern, so the model keeps the bits.\<close>

type_synonym error_code = u32

abbreviation (input) CELL_OK :: error_code where "CELL_OK \<equiv> 0"

named_theorems mem_simps \<open>framing and read-after-write facts of guest memory\<close>
named_theorems op_defs \<open>definitions of the modelled operations\<close>

section \<open>Outcome of an HLE call\<close>

text \<open>
  A call either returns an error code, is inside one of its wait loops or between two of
  its atomic accesses (\<open>Waiting\<close>, with what it remembers), was told by
  \<open>ppu.test_stopped()\<close> that the thread is being stopped (the code then leaves the call with
  \<open>return 0\<close>), or raised a host exception (\<open>fmt::throw_exception\<close>, \<open>ensure\<close>).
\<close>

datatype 'w call_state = Returned error_code | Waiting 'w | Stopped | Thrown

text \<open>A thread between calls, inside a call, or gone after it was stopped inside a call.\<close>

datatype 'w thread_state = Idle | InCall 'w | Dead 'w

fun enter_call :: "'w call_state \<times> 's \<Rightarrow> 'w thread_state \<times> 's" where
  "enter_call (Waiting w, s) = (InCall w, s)"
| "enter_call (_, s) = (Idle, s)"

fun resume_call :: "'w \<Rightarrow> 'w call_state \<times> 's \<Rightarrow> 'w thread_state \<times> 's" where
  "resume_call w (Waiting w', s) = (InCall w', s)"
| "resume_call w (Returned r, s) = (Idle, s)"
| "resume_call w (_, s) = (Dead w, s)"

section \<open>Threads interleaved over a shared state\<close>

text \<open>
  \<open>step e pc s\<close> is one atomic step of one thread: the event \<open>e\<close> resolves what the code
  leaves open (which call is made, whether the thread has been stopped), and \<open>None\<close> means
  that the event does not apply at this program point.
\<close>

inductive sys_step ::
  "('t \<Rightarrow> 'e \<Rightarrow> 'pc \<Rightarrow> 's \<Rightarrow> ('pc \<times> 's) option) \<Rightarrow> ('t \<Rightarrow> 'pc) \<times> 's \<Rightarrow> ('t \<Rightarrow> 'pc) \<times> 's \<Rightarrow> bool"
  for step where
  sys_stepI: "step t e (ps t) s = Some (pc', s') \<Longrightarrow> sys_step step (ps, s) (ps(t := pc'), s')"

inductive_cases sys_stepE: "sys_step step (ps, s) c'"

inductive reachable ::
  "('t \<Rightarrow> 'e \<Rightarrow> 'pc \<Rightarrow> 's \<Rightarrow> ('pc \<times> 's) option) \<Rightarrow> ('t \<Rightarrow> 'pc) \<times> 's \<Rightarrow> ('t \<Rightarrow> 'pc) \<times> 's \<Rightarrow> bool"
  for step c0 where
  reachable_init: "reachable step c0 c0"
| reachable_step: "reachable step c0 c \<Longrightarrow> sys_step step c c' \<Longrightarrow> reachable step c0 c'"

text \<open>An executable schedule: a list of (thread, event) pairs.\<close>

fun run_schedule ::
  "('t \<Rightarrow> 'e \<Rightarrow> 'pc \<Rightarrow> 's \<Rightarrow> ('pc \<times> 's) option) \<Rightarrow> ('t \<times> 'e) list \<Rightarrow>
   ('t \<Rightarrow> 'pc) \<times> 's \<Rightarrow> (('t \<Rightarrow> 'pc) \<times> 's) option" where
  "run_schedule step [] c = Some c"
| "run_schedule step ((t, e) # es) c =
     (case step t e (fst c t) (snd c) of
        None \<Rightarrow> None
      | Some (pc', s') \<Rightarrow> run_schedule step es ((fst c)(t := pc'), s'))"

lemma run_schedule_reachable:
  "reachable step c0 c \<Longrightarrow> run_schedule step es c = Some c' \<Longrightarrow> reachable step c0 c'"
proof (induction es arbitrary: c)
  case Nil
  then show ?case by simp
next
  case (Cons x es)
  obtain t e where x: "x = (t, e)" by (cases x)
  obtain ps s where c: "c = (ps, s)" by (cases c)
  from Cons.prems(2) obtain pc' s' where st: "step t e (ps t) s = Some (pc', s')"
    and rest: "run_schedule step es (ps(t := pc'), s') = Some c'"
    by (auto simp: x c split: option.splits)
  from Cons.prems(1) sys_stepI [where step = step and ps = ps and t = t, OF st] have "reachable step c0 (ps(t := pc'), s')"
    by (auto simp: c intro: reachable_step)
  from Cons.IH [OF this rest] show ?case .
qed

text \<open>The contract of an invariant: it holds at the start and every atomic step keeps it.\<close>

locale thread_invariant =
  fixes step :: "'t \<Rightarrow> 'e \<Rightarrow> 'pc \<Rightarrow> 's \<Rightarrow> ('pc \<times> 's) option"
    and inv :: "('t \<Rightarrow> 'pc) \<Rightarrow> 's \<Rightarrow> bool"
  assumes step_inv: "inv ps s \<Longrightarrow> step t e (ps t) s = Some (pc', s') \<Longrightarrow> inv (ps(t := pc')) s'"
begin

lemma sys_step_inv: "sys_step step c c' \<Longrightarrow> inv (fst c) (snd c) \<Longrightarrow> inv (fst c') (snd c')"
  by (auto elim!: sys_step.cases dest: step_inv)

lemma reachable_inv: "reachable step c0 c \<Longrightarrow> inv (fst c0) (snd c0) \<Longrightarrow> inv (fst c) (snd c)"
  by (induction rule: reachable.induct) (auto dest: sys_step_inv)

end

section \<open>A flag held by at most one thread\<close>

definition flag :: "('p \<Rightarrow> bool) \<Rightarrow> ('t \<Rightarrow> 'p) \<Rightarrow> nat \<Rightarrow> bool" where
  "flag P ps v \<longleftrightarrow> (\<forall>t u. P (ps t) \<and> P (ps u) \<longrightarrow> t = u) \<and> v = (if \<exists>t. P (ps t) then 1 else 0)"

lemma flag_none: "flag P ps 0 \<longleftrightarrow> (\<forall>t. \<not> P (ps t))"
  by (auto simp: flag_def)

lemma flag_unique: "flag P ps v \<Longrightarrow> P (ps t) \<Longrightarrow> P (ps u) \<Longrightarrow> t = u"
  by (auto simp: flag_def)

lemma flag_value: "flag P ps v \<Longrightarrow> P (ps t) \<Longrightarrow> v = 1"
  by (auto simp: flag_def)

lemma flag_le: "flag P ps v \<Longrightarrow> v \<le> 1"
  by (auto simp: flag_def)

lemma flag_same: "P p = P (ps t) \<Longrightarrow> flag P (ps(t := p)) v = flag P ps v"
proof -
  assume "P p = P (ps t)"
  then have "P ((ps(t := p)) u) = P (ps u)" for u by simp
  then show ?thesis by (simp only: flag_def)
qed

lemma flag_set: "flag P ps 0 \<Longrightarrow> P p \<Longrightarrow> flag P (ps(t := p)) 1"
  by (auto simp: flag_def split: if_splits)

lemma flag_clear: "flag P ps v \<Longrightarrow> P (ps t) \<Longrightarrow> \<not> P p \<Longrightarrow> flag P (ps(t := p)) 0"
  by (auto simp: flag_def)

section \<open>Words and lists\<close>

lemma unat_of_nat_less [simp]: "n < 2 ^ LENGTH('a) \<Longrightarrow> unat (of_nat n :: 'a::len word) = n"
  by (simp add: unat_of_nat take_bit_nat_eq_self)

lemma unat_lt: "unat (w :: 'a::len word) < 2 ^ LENGTH('a)"
  by (rule unsigned_less)

lemma unat_add_split:
  fixes x y :: "'a::len word"
  shows "unat (x + y) =
    (if unat x + unat y < 2 ^ LENGTH('a) then unat x + unat y else unat x + unat y - 2 ^ LENGTH('a))"
proof (cases "unat x + unat y < 2 ^ LENGTH('a)")
  case True
  then show ?thesis by (simp add: unat_word_ariths)
next
  case False
  moreover have "unat x + unat y - 2 ^ LENGTH('a) < 2 ^ LENGTH('a)"
    using unat_lt [of x] unat_lt [of y] by linarith
  ultimately show ?thesis by (simp add: unat_word_ariths le_mod_geq)
qed

lemma unat_add_cases:
  fixes x y :: "'a::len word"
  obtains "unat (x + y) = unat x + unat y" "unat x + unat y < 2 ^ LENGTH('a)"
  | "unat (x + y) + 2 ^ LENGTH('a) = unat x + unat y"
  using unat_add_split [of x y] by (cases "unat x + unat y < 2 ^ LENGTH('a)") auto

lemma unat_diff_split:
  fixes x y :: "'a::len word"
  shows "unat (x - y) =
    (if unat y \<le> unat x then unat x - unat y else unat x + 2 ^ LENGTH('a) - unat y)"
proof (rule unat_add_cases [of "x - y" y])
  assume "unat (x - y + y) = unat (x - y) + unat y" "unat (x - y) + unat y < 2 ^ LENGTH('a)"
  then show ?thesis by simp
next
  assume "unat (x - y + y) + 2 ^ LENGTH('a) = unat (x - y) + unat y"
  then have "unat x + 2 ^ LENGTH('a) = unat (x - y) + unat y" by simp
  moreover have "unat (x - y) < 2 ^ LENGTH('a)" by (rule unat_lt)
  ultimately have "\<not> unat y \<le> unat x" "unat (x - y) = unat x + 2 ^ LENGTH('a) - unat y"
    by linarith+
  then show ?thesis by simp
qed

lemma unat_diff_add_of_nat:
  fixes x a :: "'a::len word"
  assumes "i \<le> unat (x - a)"
  shows "unat (x - (a + of_nat i)) = unat (x - a) - i"
proof -
  have lt: "i < 2 ^ LENGTH('a)"
    using assms unat_lt [of "x - a"] by linarith
  then have i: "unat (of_nat i :: 'a word) = i" by simp
  have "unat (x - (a + of_nat i)) = unat ((x - a) - of_nat i)" by (simp add: algebra_simps)
  also have "\<dots> = unat (x - a) - i" using assms i by (simp add: unat_diff_split [of "x - a"])
  finally show ?thesis .
qed
lemma word_ranges_apart:
  fixes x a b :: "'a::len word"
  assumes "n \<le> unat (b - a)" "k \<le> unat (a - b)" "unat (x - a) < n" "unat (x - b) < k"
  shows False
proof (rule unat_add_cases [of "x - b" "b - a"])
  assume "unat (x - b + (b - a)) = unat (x - b) + unat (b - a)"
  with assms show False by simp
next
  assume "unat (x - b + (b - a)) + 2 ^ LENGTH('a) = unat (x - b) + unat (b - a)"
  then have 1: "unat (x - a) + 2 ^ LENGTH('a) = unat (x - b) + unat (b - a)" by simp
  have "unat ((a - b) + (b - a)) = 0" by simp
  then have "unat (a - b) + unat (b - a) = 0 \<or> unat (a - b) + unat (b - a) = 2 ^ LENGTH('a)"
    using unat_add_split [of "a - b" "b - a"]
    by (cases "unat (a - b) + unat (b - a) < 2 ^ LENGTH('a)") simp_all
  with 1 assms show False by linarith
qed

lemma unat_inc:
  "unat (x :: 'a::len word) + 1 < 2 ^ LENGTH('a) \<Longrightarrow> unat (x + 1) = unat x + 1"
  by (simp add: unat_word_ariths)

lemma bit_iff_odd_unat: "bit x n \<longleftrightarrow> odd (unat (x::'a::len word) div 2 ^ n)"
proof -
  have "bit (unat x) n = bit x n" by (simp add: bit_simps)
  then show ?thesis by (simp add: bit_iff_odd)
qed
lemma msb_unat: "bit x (LENGTH('a) - 1) \<longleftrightarrow> 2 ^ (LENGTH('a) - 1) \<le> unat (x::'a::len word)"
proof -
  have L: "(2::nat) ^ LENGTH('a) = 2 * 2 ^ (LENGTH('a) - 1)"
    by (metis len_gt_0 power_eq_if less_not_refl)
  show ?thesis
  proof (cases "unat x < 2 ^ (LENGTH('a) - 1)")
    case False
    then have "unat x div 2 ^ (LENGTH('a) - 1) = 1"
      using unat_lt [of x] L by (intro div_nat_eqI) simp_all
    with False show ?thesis by (simp add: bit_iff_odd_unat)
  qed (simp add: bit_iff_odd_unat)
qed
lemma sint_unat:
  "sint (x::'a::len word) = (if unat x < 2 ^ (LENGTH('a) - 1) then int (unat x) else int (unat x) - 2 ^ LENGTH('a))"
proof -
  define h :: int where "h = 2 ^ (LENGTH('a) - 1)"
  have L: "(2::int) ^ LENGTH('a) = 2 * h"
    unfolding h_def by (metis len_gt_0 power_eq_if less_not_refl)
  have hpos: "0 < h" by (simp add: h_def)
  have h: "unat x < 2 ^ (LENGTH('a) - 1) \<longleftrightarrow> int (unat x) < h"
    unfolding h_def using of_nat_less_iff [of "unat x" "2 ^ (LENGTH('a) - 1)", where ?'a = int] by simp
  have u: "int (unat x) < 2 * h" using unat_lt [of x] unfolding L [symmetric] by simp
  have "sint x = (int (unat x) + h) mod (2 * h) - h"
    using int_word_sint [of "uint x", where ?'a = 'a] L by (simp add: h_def)
  moreover have "(int (unat x) + h) mod (2 * h) = (if int (unat x) < h then int (unat x) + h else int (unat x) - h)"
  proof (cases "int (unat x) < h")
    case True
    then have "(int (unat x) + h) mod (2 * h) = int (unat x) + h"
      using hpos by (intro mod_pos_pos_trivial) linarith+
    with True show ?thesis by simp
  next
    case False
    then have "(int (unat x) + h) mod (2 * h) = (int (unat x) + h - 2 * h) mod (2 * h)"
      using u by (intro mod_pos_geq) linarith+
    also have "\<dots> = int (unat x) - h" using False u by (simp add: mod_pos_pos_trivial)
    finally show ?thesis using False by simp
  qed
  ultimately show ?thesis unfolding h L by simp
qed

lemma sint_shift: "sint (signed_drop_bit n w) = sint w div 2 ^ n" for w :: "'a::len word"
  by (simp add: sint_signed_drop_bit_eq drop_bit_eq_div)

lemma sint_range: "- (2 ^ (LENGTH('a) - 1)) \<le> sint (w :: 'a::len word)" "sint w < 2 ^ (LENGTH('a) - 1)"
  using sint_greater_eq [of w] sint_less [of w] by simp_all

end
