(* ===== verification/Guest_Memory.thy ===== *)
theory Guest_Memory
  imports Prelude
begin

text \<open>
  The guest address space as the HLE modules see it: bytes addressed by 32-bit addresses
  (\<^verbatim>\<open>vm::base\<close>), big-endian scalars (\<^verbatim>\<open>be_t\<close>), typed objects at an address
  (\<^verbatim>\<open>vm::ptr\<close>), and the atomic read-modify-write of \<^verbatim>\<open>atomic_t\<close>. The interface a
  component relies on is the locale \<open>codec_laws\<close>; it is interpreted for every scalar and,
  in the component theories, for every control word.
\<close>

section \<open>Bytes\<close>

type_synonym addr = u32
type_synonym mem = "addr \<Rightarrow> u8"

definition region :: "addr \<Rightarrow> nat \<Rightarrow> addr set" where
  "region a n = {x. unat (x - a) < n}"

definition read_bytes :: "mem \<Rightarrow> addr \<Rightarrow> nat \<Rightarrow> u8 list" where
  "read_bytes m a n = map (\<lambda>i. m (a + of_nat i)) [0..<n]"

definition write_bytes :: "mem \<Rightarrow> addr \<Rightarrow> u8 list \<Rightarrow> mem" where
  "write_bytes m a bs = (\<lambda>x. let k = unat (x - a) in if k < length bs then bs ! k else m x)"

text \<open>\<open>std::memcpy\<close> between two guest buffers.\<close>

definition memcpy :: "mem \<Rightarrow> addr \<Rightarrow> addr \<Rightarrow> nat \<Rightarrow> mem" where
  "memcpy m dst src n = write_bytes m dst (read_bytes m src n)"

lemma length_read_bytes [simp]: "length (read_bytes m a n) = n"
  by (simp add: read_bytes_def)

lemma nth_read_bytes [simp]: "i < n \<Longrightarrow> read_bytes m a n ! i = m (a + of_nat i)"
  by (simp add: read_bytes_def)

lemma read_bytes_0 [simp]: "read_bytes m a 0 = []"
  by (simp add: read_bytes_def)

lemma read_bytes_cong: "(\<And>x. x \<in> region a n \<Longrightarrow> m x = m' x) \<Longrightarrow> n \<le> 2 ^ 32 \<Longrightarrow>
    read_bytes m a n = read_bytes m' a n"
  by (auto simp: read_bytes_def region_def)

lemma read_bytes_append:
  "read_bytes m a (i + j) = read_bytes m a i @ read_bytes m (a + of_nat i) j"
  by (rule nth_equalityI) (auto simp: nth_append add.assoc simp flip: of_nat_add)

lemma write_bytes_Nil [simp]: "write_bytes m a [] = m"
  by (simp add: write_bytes_def)

lemma write_bytes_outside: "x \<notin> region a (length bs) \<Longrightarrow> write_bytes m a bs x = m x"
  by (simp add: write_bytes_def region_def Let_def)

lemma write_bytes_inside:
  "i < length bs \<Longrightarrow> length bs \<le> 2 ^ 32 \<Longrightarrow> write_bytes m a bs (a + of_nat i) = bs ! i"
  by (simp add: write_bytes_def Let_def)

lemma read_write_same [mem_simps]:
  "length bs = n \<Longrightarrow> n \<le> 2 ^ 32 \<Longrightarrow> read_bytes (write_bytes m a bs) a n = bs"
  by (rule nth_equalityI) (auto simp: write_bytes_inside)

lemma write_read_same [mem_simps]:
  "n \<le> 2 ^ 32 \<Longrightarrow> write_bytes m a (read_bytes m a n) = m"
proof
  fix x
  assume n: "n \<le> 2 ^ 32"
  show "write_bytes m a (read_bytes m a n) x = m x"
  proof (cases "unat (x - a) < n")
    case True
    have "a + of_nat (unat (x - a)) = x" by simp
    with True show ?thesis by (simp add: write_bytes_def Let_def)
  qed (simp add: write_bytes_def Let_def)
qed

section \<open>Separation\<close>

definition apart :: "addr \<Rightarrow> nat \<Rightarrow> addr \<Rightarrow> nat \<Rightarrow> bool" where
  "apart a n b k \<longleftrightarrow> region a n \<inter> region b k = {}"

lemma apart_sym: "apart a n b k \<Longrightarrow> apart b k a n"
  by (auto simp: apart_def)

lemma apartI: "n \<le> unat (b - a) \<Longrightarrow> k \<le> unat (a - b) \<Longrightarrow> apart a n b k"
  by (auto simp: apart_def region_def dest: word_ranges_apart)

lemma apart_0 [simp]: "apart a 0 b k" "apart a n b 0"
  by (simp_all add: apart_def region_def)

lemma region_sub: "i + n \<le> k \<Longrightarrow> k \<le> 2 ^ 32 \<Longrightarrow> region (a + of_nat i) n \<subseteq> region a k"
proof
  fix x
  assume le: "i + n \<le> k" "k \<le> 2 ^ 32" and x: "x \<in> region (a + of_nat i) n"
  let ?d = "unat (x - (a + of_nat i))"
  have d: "?d < n" using x by (simp add: region_def)
  then have "?d + i < 2 ^ LENGTH(32)" using le by simp
  moreover have "x - a = of_nat (?d + i)" by simp
  ultimately have "unat (x - a) = ?d + i" by (metis unat_of_nat_less)
  with d le show "x \<in> region a k" by (simp add: region_def)
qed

lemma region_mono: "n \<le> k \<Longrightarrow> region a n \<subseteq> region a k"
  by (auto simp: region_def)

lemma in_region: "i < n \<Longrightarrow> n \<le> 2 ^ 32 \<Longrightarrow> a + of_nat i \<in> region a n"
  by (simp add: region_def)

lemma apart_mono: "apart a n b k \<Longrightarrow> region a' n' \<subseteq> region a n \<Longrightarrow> region b' k' \<subseteq> region b k \<Longrightarrow>
    apart a' n' b' k'"
  by (auto simp: apart_def)

lemma apart_offsets:
  assumes "i + n \<le> j" and "j + k \<le> 2 ^ 32"
  shows "apart (a + of_nat i) n (a + of_nat j) k"
proof (cases "k = 0 \<or> n = 0")
  case False
  have *: "unat ((a + of_nat j) - (a + of_nat i)) = j - i"
    using assms False by (simp add: unat_diff_split)
  moreover have "unat ((a + of_nat i) - (a + of_nat j)) = 2 ^ 32 - (j - i)"
    using assms False by (simp add: unat_diff_split)
  ultimately show ?thesis using assms False by (intro apartI) simp_all
qed auto

lemma read_write_apart [mem_simps]:
  assumes "apart a n b (length bs)" and "n \<le> 2 ^ 32"
  shows "read_bytes (write_bytes m b bs) a n = read_bytes m a n"
proof (rule nth_equalityI)
  fix i assume "i < length (read_bytes (write_bytes m b bs) a n)"
  then have i: "i < n" by simp
  then have "a + of_nat i \<notin> region b (length bs)"
    using assms in_region [of i n a] by (auto simp: apart_def)
  with i show "read_bytes (write_bytes m b bs) a n ! i = read_bytes m a n ! i"
    by (simp add: write_bytes_outside)
qed simp

section \<open>Copies\<close>

text \<open>The first \<open>i\<close> bytes of a copy from \<open>s\<close> to \<open>d\<close> are done.\<close>

definition copied :: "mem \<Rightarrow> addr \<Rightarrow> addr \<Rightarrow> nat \<Rightarrow> bool" where
  "copied m d s i \<longleftrightarrow> (\<forall>j<i. m (d + of_nat j) = m (s + of_nat j))"

lemma apart_outside: "apart b n a k \<Longrightarrow> x \<in> region b n \<Longrightarrow> x \<notin> region a k"
  by (auto simp: apart_def)

lemma copied_cong:
  assumes "\<And>x. x \<in> region d n \<Longrightarrow> m x = m' x" "\<And>x. x \<in> region s n \<Longrightarrow> m x = m' x" "i \<le> n" "n \<le> 2 ^ 32"
  shows "copied m d s i = copied m' d s i"
  using assms in_region [of _ n] by (simp add: copied_def)

lemma copied_0 [simp]: "copied m d s 0"
  by (simp add: copied_def)

lemma copied_Suc: "copied m d s i \<Longrightarrow> m (d + of_nat i) = m (s + of_nat i) \<Longrightarrow> copied m d s (Suc i)"
  by (auto simp: copied_def less_Suc_eq)

lemma copied_read_bytes: "copied m d s n \<longleftrightarrow> read_bytes m d n = read_bytes m s n"
  by (auto simp: copied_def read_bytes_def)

lemma copied_update:
  assumes i: "i < n" and n: "n \<le> 2 ^ 32" and c: "copied m d s i" and ap: "apart s n d n"
  shows "copied (m(d + of_nat i := m (s + of_nat i))) d s (Suc i)"
proof -
  have ne: "s + of_nat j \<noteq> d + of_nat i" if "j \<le> i" for j
    using that i n in_region [of i n d] in_region [of j n s] apart_outside [OF ap] by force
  have "d + of_nat j \<noteq> d + of_nat i" if "j < i" for j
  proof -
    have "unat (of_nat j :: u32) \<noteq> unat (of_nat i :: u32)" using that i n by simp
    then show ?thesis by auto
  qed
  with c ne have "copied (m(d + of_nat i := m (s + of_nat i))) d s i" by (simp add: copied_def)
  with ne show ?thesis by (intro copied_Suc) simp_all
qed

section \<open>Big-endian scalars and typed objects\<close>

primrec be_enc :: "nat \<Rightarrow> 'a::len word \<Rightarrow> u8 list" where
  "be_enc 0 w = []"
| "be_enc (Suc n) w = ucast (drop_bit (8 * n) w) # be_enc n w"

definition be_dec :: "u8 list \<Rightarrow> 'a::len word" where
  "be_dec bs = foldl (\<lambda>acc b. push_bit 8 acc OR ucast b) 0 bs"

record 'a codec =
  csize :: nat
  cenc :: "'a \<Rightarrow> u8 list"
  cdec :: "u8 list \<Rightarrow> 'a"

definition load :: "'a codec \<Rightarrow> mem \<Rightarrow> addr \<Rightarrow> 'a" where
  "load C m a = cdec C (read_bytes m a (csize C))"

definition store :: "'a codec \<Rightarrow> mem \<Rightarrow> addr \<Rightarrow> 'a \<Rightarrow> mem" where
  "store C m a v = write_bytes m a (cenc C v)"

text \<open>\<open>atomic_t::atomic_op\<close>: the functor's result and the new value, written in one step.\<close>

definition atomic_op :: "'a codec \<Rightarrow> ('a \<Rightarrow> 'r \<times> 'a) \<Rightarrow> mem \<Rightarrow> addr \<Rightarrow> 'r \<times> mem" where
  "atomic_op C f m a = (let (r, v) = f (load C m a) in (r, store C m a v))"

text \<open>\<open>atomic_t::compare_and_swap_test\<close>.\<close>

definition compare_and_swap_test :: "'a codec \<Rightarrow> mem \<Rightarrow> addr \<Rightarrow> 'a \<Rightarrow> 'a \<Rightarrow> bool \<times> mem" where
  "compare_and_swap_test C m a cmp exch =
     (if load C m a = cmp then (True, store C m a exch) else (False, m))"

locale codec_laws =
  fixes C :: "'a codec"
  assumes length_enc: "length (cenc C x) = csize C"
    and dec_enc: "cdec C (cenc C x) = x"
    and enc_dec: "length bs = csize C \<Longrightarrow> cenc C (cdec C bs) = bs"
    and size_bound: "csize C \<le> 2 ^ 32"
begin

lemma load_store [mem_simps]: "load C (store C m a v) a = v"
  using size_bound by (simp add: load_def store_def read_write_same length_enc dec_enc)

lemma load_cong: "(\<And>x. x \<in> region a (csize C) \<Longrightarrow> m x = m' x) \<Longrightarrow> load C m a = load C m' a"
  using size_bound read_bytes_cong [of a "csize C" m m'] by (simp add: load_def)

lemma store_outside: "x \<notin> region a (csize C) \<Longrightarrow> store C m a v x = m x"
  by (simp add: store_def write_bytes_outside length_enc)

lemma load_store_other:
  "apart a (csize C) b (length bs) \<Longrightarrow> load C (write_bytes m b bs) a = load C m a"
  using size_bound by (simp add: load_def read_write_apart)

lemma read_store_other:
  "apart b n a (csize C) \<Longrightarrow> n \<le> 2 ^ 32 \<Longrightarrow> read_bytes (store C m a v) b n = read_bytes m b n"
  by (simp add: store_def read_write_apart length_enc)

lemma load_other:
  "apart b (csize D) a (csize C) \<Longrightarrow> csize D \<le> 2 ^ 32 \<Longrightarrow> load D (store C m a v) b = load D m b"
  by (simp add: load_def read_store_other)

lemma store_load [mem_simps]: "store C m a (load C m a) = m"
  using size_bound by (simp add: load_def store_def enc_dec write_read_same)

lemma atomic_op_load: "atomic_op C f m a = (fst (f (load C m a)), store C m a (snd (f (load C m a))))"
  by (simp add: atomic_op_def split: prod.splits)

end

definition be_codec :: "nat \<Rightarrow> 'a::len word codec" where
  "be_codec n = \<lparr>csize = n, cenc = be_enc n, cdec = be_dec\<rparr>"

abbreviation be16 :: "u16 codec" where "be16 \<equiv> be_codec 2"
abbreviation be32 :: "u32 codec" where "be32 \<equiv> be_codec 4"
abbreviation be64 :: "u64 codec" where "be64 \<equiv> be_codec 8"

text \<open>Two consecutive fields, and a record laid out as nested pairs.\<close>

definition pair_codec :: "'a codec \<Rightarrow> 'b codec \<Rightarrow> ('a \<times> 'b) codec" where
  "pair_codec C D =
     \<lparr>csize = csize C + csize D,
      cenc = (\<lambda>(x, y). cenc C x @ cenc D y),
      cdec = (\<lambda>bs. (cdec C (take (csize C) bs), cdec D (drop (csize C) bs)))\<rparr>"

definition map_codec :: "('a \<Rightarrow> 'b) \<Rightarrow> ('b \<Rightarrow> 'a) \<Rightarrow> 'a codec \<Rightarrow> 'b codec" where
  "map_codec f g C = \<lparr>csize = csize C, cenc = cenc C \<circ> g, cdec = f \<circ> cdec C\<rparr>"

lemma foldl_be_enc:
  "foldl (\<lambda>acc b. push_bit 8 acc OR ucast b) acc (be_enc n w) =
     push_bit (8 * n) acc OR take_bit (8 * n) (w :: 'a::len word)"
proof (induction n arbitrary: acc)
  case 0
  then show ?case by simp
next
  case (Suc n)
  show ?case
    by (simp add: Suc.IH, rule bit_eqI) (auto simp: bit_simps ac_simps)
qed

lemma length_be_enc [simp]: "length (be_enc n w) = n"
  by (induction n) simp_all

lemma be_dec_enc: "LENGTH('a) = 8 * n \<Longrightarrow> be_dec (be_enc n w) = (w :: 'a::len word)"
  by (simp add: be_dec_def foldl_be_enc) (metis take_bit_length_eq)

lemma be_enc_snoc: "be_enc (Suc n) w = be_enc n (drop_bit 8 w) @ [ucast (w :: 'a::len word)]"
proof (induction n)
  case 0
  then show ?case by simp
next
  case (Suc n)
  have "be_enc (Suc (Suc n)) w = ucast (drop_bit (8 * Suc n) w) # be_enc (Suc n) w" by (simp only: be_enc.simps)
  also have "\<dots> = be_enc (Suc n) (drop_bit 8 w) @ [ucast w]"
    by (simp only: Suc.IH) (simp add: algebra_simps)
  finally show ?case .
qed

lemma be_enc_take_bit: "8 * n \<le> k \<Longrightarrow> be_enc n (take_bit k w) = be_enc n (w :: 'a::len word)"
  by (induction n) (auto simp: bit_eq_iff bit_simps)

lemma be_enc_dec: "length bs = n \<Longrightarrow> 8 * n \<le> LENGTH('a) \<Longrightarrow> be_enc n (be_dec bs :: 'a::len word) = bs"
proof (induction bs arbitrary: n rule: rev_induct)
  case Nil
  then show ?case by simp
next
  case (snoc b bs)
  then obtain k where n: "n = Suc k" and k: "length bs = k" "8 * k + 8 \<le> LENGTH('a)" by auto
  let ?x = "be_dec bs :: 'a word"
  have d: "be_dec (bs @ [b]) = push_bit 8 ?x OR ucast b" by (simp add: be_dec_def)
  have "drop_bit 8 (push_bit 8 ?x OR ucast b) = take_bit (LENGTH('a) - 8) ?x"
    by (rule bit_eqI) (auto simp: bit_simps dest: bit_imp_le_length)
  moreover have "ucast (push_bit 8 ?x OR ucast b :: 'a word) = b"
    using k by (intro bit_eqI) (auto simp: bit_simps)
  ultimately have "be_enc n (be_dec (bs @ [b]) :: 'a word) = be_enc k (take_bit (LENGTH('a) - 8) ?x) @ [b]"
    by (simp only: d n be_enc_snoc)
  also have "\<dots> = bs @ [b]" using snoc.IH [of k] k by (simp add: be_enc_take_bit)
  finally show ?case .
qed

lemma be_codec_laws: "LENGTH('a) = 8 * n \<Longrightarrow> n \<le> 2 ^ 32 \<Longrightarrow> codec_laws (be_codec n :: 'a::len word codec)"
  by unfold_locales (auto simp: be_codec_def be_dec_enc be_enc_dec)

lemma pair_codec_laws:
  assumes "codec_laws C" "codec_laws D" "csize C + csize D \<le> 2 ^ 32"
  shows "codec_laws (pair_codec C D)"
  using assms by (unfold_locales) (auto simp: pair_codec_def codec_laws_def split: prod.splits)

lemma map_codec_laws:
  assumes "codec_laws C" "\<And>x. f (g x) = x" "\<And>y. g (f y) = y"
  shows "codec_laws (map_codec f g C)"
  using assms by (unfold_locales) (auto simp: map_codec_def codec_laws_def)

interpretation be16: codec_laws be16 by (rule be_codec_laws) simp_all
interpretation be32: codec_laws be32 by (rule be_codec_laws) simp_all
interpretation be64: codec_laws be64 by (rule be_codec_laws) simp_all
lemma csize_codec [simp]:
  "csize (be_codec n) = n" "csize (pair_codec C D) = csize C + csize D" "csize (map_codec f g E) = csize E"
  by (simp_all add: be_codec_def pair_codec_def map_codec_def)

section \<open>Pointers\<close>

text \<open>\<open>vm::ptr::aligned\<close>.\<close>

definition aligned :: "addr \<Rightarrow> u32 \<Rightarrow> bool" where
  "aligned a align = (a AND (align - 1) = 0)"

text \<open>\<open>vm::cast\<close> of a 64-bit guest pointer: \<open>::narrow\<close> throws when the value does not fit.\<close>

definition vm_cast64 :: "u64 \<Rightarrow> addr option" where
  "vm_cast64 p = (if unat p < 2 ^ 32 then Some (ucast p) else None)"

lemma unat_ucast_64 [simp]: "unat (ucast (p :: addr) :: u64) = unat p"
  using unat_lt [of p] by (simp add: unsigned_ucast_eq take_bit_nat_eq_self)

lemma vm_cast64_ucast [simp]: "vm_cast64 (ucast p) = Some p"
proof -
  have "ucast (ucast p :: u64) = p" by (rule bit_eqI) (auto simp: bit_simps)
  then show ?thesis using unat_lt [of p] by (simp add: vm_cast64_def)
qed

end
