(* ===== verification/CellSync_Errors.thy ===== *)
theory CellSync_Errors
  imports Guest_Memory
begin

text \<open>
  The return codes of \<^verbatim>\<open>Emu/Cell/Modules/cellSync.h\<close>, shared by the \<^verbatim>\<open>cellSync\<close>
  component theories.
\<close>

datatype CellSyncError =
    CELL_SYNC_ERROR_AGAIN
  | CELL_SYNC_ERROR_INVAL
  | CELL_SYNC_ERROR_NOSYS
  | CELL_SYNC_ERROR_NOMEM
  | CELL_SYNC_ERROR_SRCH
  | CELL_SYNC_ERROR_NOENT
  | CELL_SYNC_ERROR_NOEXEC
  | CELL_SYNC_ERROR_DEADLK
  | CELL_SYNC_ERROR_PERM
  | CELL_SYNC_ERROR_BUSY
  | CELL_SYNC_ERROR_ABORT
  | CELL_SYNC_ERROR_FAULT
  | CELL_SYNC_ERROR_CHILD
  | CELL_SYNC_ERROR_STAT
  | CELL_SYNC_ERROR_ALIGN
  | CELL_SYNC_ERROR_NULL_POINTER
  | CELL_SYNC_ERROR_NOT_SUPPORTED_THREAD
  | CELL_SYNC_ERROR_NO_NOTIFIER
  | CELL_SYNC_ERROR_NO_SPU_CONTEXT_STORAGE

primrec sync_code :: "CellSyncError \<Rightarrow> error_code" where
  "sync_code CELL_SYNC_ERROR_AGAIN = 0x80410101"
| "sync_code CELL_SYNC_ERROR_INVAL = 0x80410102"
| "sync_code CELL_SYNC_ERROR_NOSYS = 0x80410103"
| "sync_code CELL_SYNC_ERROR_NOMEM = 0x80410104"
| "sync_code CELL_SYNC_ERROR_SRCH = 0x80410105"
| "sync_code CELL_SYNC_ERROR_NOENT = 0x80410106"
| "sync_code CELL_SYNC_ERROR_NOEXEC = 0x80410107"
| "sync_code CELL_SYNC_ERROR_DEADLK = 0x80410108"
| "sync_code CELL_SYNC_ERROR_PERM = 0x80410109"
| "sync_code CELL_SYNC_ERROR_BUSY = 0x8041010A"
| "sync_code CELL_SYNC_ERROR_ABORT = 0x8041010C"
| "sync_code CELL_SYNC_ERROR_FAULT = 0x8041010D"
| "sync_code CELL_SYNC_ERROR_CHILD = 0x8041010E"
| "sync_code CELL_SYNC_ERROR_STAT = 0x8041010F"
| "sync_code CELL_SYNC_ERROR_ALIGN = 0x80410110"
| "sync_code CELL_SYNC_ERROR_NULL_POINTER = 0x80410111"
| "sync_code CELL_SYNC_ERROR_NOT_SUPPORTED_THREAD = 0x80410112"
| "sync_code CELL_SYNC_ERROR_NO_NOTIFIER = 0x80410113"
| "sync_code CELL_SYNC_ERROR_NO_SPU_CONTEXT_STORAGE = 0x80410114"

lemma sync_code_not_OK [simp]: "sync_code e \<noteq> CELL_OK"
  by (cases e) simp_all

end
