(* ===== verification/CellSync_Mutex.thy ===== *)
theory CellSync_Mutex
  imports CellSync_Errors
begin

text \<open>
  \<^verbatim>\<open>cellSyncMutex*\<close> of \<^verbatim>\<open>Emu/Cell/Modules/cellSync.{h,cpp}\<close>: a ticket lock in one
  32-bit word of guest memory. The operations are modelled on guest memory; the client side
  is the interleaving of threads that lock, spin, are stopped and unlock. The invariant
  orders the outstanding tickets in a queue whose head owns the lock.
\<close>

section \<open>The control word\<close>

record mutex_counter =
  rel :: u16
  acq :: u16

definition CellSyncMutex_ctrl :: "mutex_counter codec" where
  "CellSyncMutex_ctrl = map_codec (\<lambda>(r, a). \<lparr>rel = r, acq = a\<rparr>) (\<lambda>c. (rel c, acq c)) (pair_codec be16 be16)"

interpretation mutex_ctrl: codec_laws CellSyncMutex_ctrl
  unfolding CellSyncMutex_ctrl_def
  by (intro map_codec_laws pair_codec_laws be16.codec_laws_axioms) auto

definition lock_begin :: "mutex_counter \<Rightarrow> u16 \<times> mutex_counter" where
  "lock_begin c = (acq c, c\<lparr>acq := acq c + 1\<rparr>)"

definition try_lock :: "mutex_counter \<Rightarrow> bool \<times> mutex_counter" where
  "try_lock c = (if rel c \<noteq> acq c then (False, c) else (True, c\<lparr>acq := acq c + 1\<rparr>))"

definition unlock :: "mutex_counter \<Rightarrow> unit \<times> mutex_counter" where
  "unlock c = ((), c\<lparr>rel := rel c + 1\<rparr>)"

section \<open>The calls\<close>

definition cellSyncMutexInitialize :: "addr \<Rightarrow> mem \<Rightarrow> error_code \<times> mem" where
  "cellSyncMutexInitialize mutex m =
     (if mutex = 0 then (sync_code CELL_SYNC_ERROR_NULL_POINTER, m)
      else if \<not> aligned mutex 4 then (sync_code CELL_SYNC_ERROR_ALIGN, m)
      else (CELL_OK, store CellSyncMutex_ctrl m mutex \<lparr>rel = 0, acq = 0\<rparr>))"

text \<open>Up to the wait loop; \<open>Waiting order\<close> carries the ticket that was drawn.\<close>

definition cellSyncMutexLock :: "addr \<Rightarrow> mem \<Rightarrow> u16 call_state \<times> mem" where
  "cellSyncMutexLock mutex m =
     (if mutex = 0 then (Returned (sync_code CELL_SYNC_ERROR_NULL_POINTER), m)
      else if \<not> aligned mutex 4 then (Returned (sync_code CELL_SYNC_ERROR_ALIGN), m)
      else let (order, m') = atomic_op CellSyncMutex_ctrl lock_begin m mutex
           in (Waiting order, m'))"

text \<open>One iteration of the wait loop; \<open>stopped\<close> is what \<open>ppu.test_stopped()\<close> answers.\<close>

definition cellSyncMutexLock_poll :: "bool \<Rightarrow> addr \<Rightarrow> u16 \<Rightarrow> mem \<Rightarrow> u16 call_state" where
  "cellSyncMutexLock_poll stopped mutex order m =
     (if rel (load CellSyncMutex_ctrl m mutex) \<noteq> order
      then (if stopped then Stopped else Waiting order)
      else Returned CELL_OK)"

definition cellSyncMutexTryLock :: "addr \<Rightarrow> mem \<Rightarrow> error_code \<times> mem" where
  "cellSyncMutexTryLock mutex m =
     (if mutex = 0 then (sync_code CELL_SYNC_ERROR_NULL_POINTER, m)
      else if \<not> aligned mutex 4 then (sync_code CELL_SYNC_ERROR_ALIGN, m)
      else let (ok, m') = atomic_op CellSyncMutex_ctrl try_lock m mutex
           in if \<not> ok then (sync_code CELL_SYNC_ERROR_BUSY, m') else (CELL_OK, m'))"

definition cellSyncMutexUnlock :: "addr \<Rightarrow> mem \<Rightarrow> error_code \<times> mem" where
  "cellSyncMutexUnlock mutex m =
     (if mutex = 0 then (sync_code CELL_SYNC_ERROR_NULL_POINTER, m)
      else if \<not> aligned mutex 4 then (sync_code CELL_SYNC_ERROR_ALIGN, m)
      else let (_, m') = atomic_op CellSyncMutex_ctrl unlock m mutex in (CELL_OK, m'))"

lemmas mutex_op_defs = cellSyncMutexInitialize_def cellSyncMutexLock_def
  cellSyncMutexLock_poll_def cellSyncMutexTryLock_def cellSyncMutexUnlock_def
  lock_begin_def try_lock_def unlock_def mutex_ctrl.atomic_op_load

section \<open>Threads sharing one mutex\<close>

datatype mutex_pc =
    MIdle
  | MSpin u16      \<comment> \<open>inside \<open>cellSyncMutexLock\<close> with this ticket\<close>
  | MOwner         \<comment> \<open>\<open>Lock\<close> or \<open>TryLock\<close> returned \<open>CELL_OK\<close>\<close>
  | MDead u16      \<comment> \<open>stopped while spinning: the ticket is never used\<close>

datatype mutex_event = MCallLock | MPoll bool | MCallTryLock | MCallUnlock

fun mutex_step :: "addr \<Rightarrow> 't \<Rightarrow> mutex_event \<Rightarrow> mutex_pc \<Rightarrow> mem \<Rightarrow> (mutex_pc \<times> mem) option" where
  "mutex_step a t MCallLock MIdle m =
     (case cellSyncMutexLock a m of
        (Waiting order, m') \<Rightarrow> Some (MSpin order, m')
      | (_, m') \<Rightarrow> Some (MIdle, m'))"
| "mutex_step a t (MPoll stopped) (MSpin order) m =
     (case cellSyncMutexLock_poll stopped a order m of
        Waiting order' \<Rightarrow> Some (MSpin order', m)
      | Stopped \<Rightarrow> Some (MDead order, m)
      | _ \<Rightarrow> Some (MOwner, m))"
| "mutex_step a t MCallTryLock MIdle m =
     (case cellSyncMutexTryLock a m of (r, m') \<Rightarrow> Some (if r = CELL_OK then MOwner else MIdle, m'))"
| "mutex_step a t MCallUnlock MOwner m =
     (case cellSyncMutexUnlock a m of (_, m') \<Rightarrow> Some (MIdle, m'))"
| "mutex_step a t _ _ m = None"

text \<open>The outstanding tickets, oldest first.\<close>

definition ticket_ok :: "u16 \<Rightarrow> nat \<Rightarrow> mutex_pc \<Rightarrow> bool" where
  "ticket_ok r i pc = (case pc of
       MSpin order \<Rightarrow> order = r + of_nat i
     | MDead order \<Rightarrow> order = r + of_nat i
     | _ \<Rightarrow> i = 0)"

definition ticket_queue :: "('t \<Rightarrow> mutex_pc) \<Rightarrow> mutex_counter \<Rightarrow> 't list \<Rightarrow> bool" where
  "ticket_queue ps c q \<longleftrightarrow>
     distinct q \<and> set q = {t. ps t \<noteq> MIdle} \<and> length q = unat (acq c - rel c) \<and>
     (\<forall>i < length q. ticket_ok (rel c) i (ps (q ! i)))"

text \<open>
  Fewer than \<open>2 ^ 16\<close> threads: the ticket counters are 16 bits wide and wrap.
\<close>

definition mutex_inv :: "addr \<Rightarrow> ('t::finite \<Rightarrow> mutex_pc) \<Rightarrow> mem \<Rightarrow> bool" where
  "mutex_inv a ps m \<longleftrightarrow> CARD('t) < 2 ^ 16 \<and> a \<noteq> 0 \<and> aligned a 4 \<and>
     (\<exists>q. ticket_queue ps (load CellSyncMutex_ctrl m a) q)"

lemma ticket_ok_simps [simp]:
  "ticket_ok r i (MSpin order) = (order = r + of_nat i)"
  "ticket_ok r i (MDead order) = (order = r + of_nat i)"
  "ticket_ok r i MOwner = (i = 0)"
  by (simp_all add: ticket_ok_def)

lemma ticket_ok_Suc: "pc \<noteq> MIdle \<Longrightarrow> ticket_ok r (Suc i) pc \<Longrightarrow> ticket_ok (r + 1) i pc"
  by (cases pc) (auto simp: ticket_ok_def)

lemma ticket_queueD:
  assumes "ticket_queue ps c q"
  shows "distinct q" "set q = {t. ps t \<noteq> MIdle}" "length q = unat (acq c - rel c)"
    "i < length q \<Longrightarrow> ticket_ok (rel c) i (ps (q ! i))"
  using assms by (simp_all add: ticket_queue_def)

lemma ticket_queue_bound:
  fixes ps :: "'t::finite \<Rightarrow> mutex_pc"
  assumes "ticket_queue ps c q" "ps t = MIdle"
  shows "Suc (length q) \<le> CARD('t)"
proof -
  have "distinct (t # q)" using assms by (auto simp: ticket_queue_def)
  then have "card (set (t # q)) = Suc (length q)" by (simp only: distinct_card) simp
  moreover have "card (set (t # q)) \<le> CARD('t)" by (rule card_mono) simp_all
  ultimately show ?thesis by simp
qed

lemma ticket_queue_enter:
  fixes ps :: "'t::finite \<Rightarrow> mutex_pc"
  assumes q: "ticket_queue ps c q" and t: "ps t = MIdle" and card: "CARD('t) < 2 ^ 16"
    and pc: "pc = MSpin (acq c) \<or> (pc = MOwner \<and> rel c = acq c)"
  shows "ticket_queue (ps(t := pc)) (c\<lparr>acq := acq c + 1\<rparr>) (q @ [t])"
proof -
  note len = ticket_queueD(3) [OF q]
  have "Suc (length q) < 2 ^ 16" using ticket_queue_bound [OF q t] card by linarith
  then have "unat (of_nat (Suc (length q)) :: u16) = Suc (length q)" by (intro unat_of_nat_less) simp
  moreover have "acq c + 1 - rel c = of_nat (Suc (length q))" by (simp add: len)
  ultimately have l: "length (q @ [t]) = unat (acq c + 1 - rel c)"
    by (simp only: length_append list.size One_nat_def add_Suc_right add_0_right)
  have tq: "t \<notin> set q" using q t by (simp add: ticket_queue_def)
  have new: "ticket_ok (rel c) (length q) pc" using pc len by auto
  have "ticket_ok (rel c) i ((ps(t := pc)) ((q @ [t]) ! i))" if "i < length (q @ [t])" for i
    using that tq new ticket_queueD(4) [OF q, of i] nth_mem [of i q]
    by (auto simp: nth_append less_Suc_eq)
  with l tq t pc ticket_queueD(1,2) [OF q] show ?thesis by (auto simp: ticket_queue_def)
qed

lemma ticket_queue_ticket:
  assumes q: "ticket_queue ps c q" and t: "ps t = MSpin order \<or> ps t = MDead order"
  shows "\<exists>i < length q. q ! i = t \<and> order = rel c + of_nat i \<and> unat (order - rel c) = i"
proof -
  have "t \<in> set q" using q t by (auto simp: ticket_queue_def)
  then obtain i where i: "i < length q" "q ! i = t" by (auto simp: in_set_conv_nth)
  then have o: "order = rel c + of_nat i" using ticket_queueD(4) [OF q i(1)] t by auto
  have "i < 2 ^ LENGTH(16)" using i q unat_lt [of "acq c - rel c"] by (simp add: ticket_queue_def)
  then have "unat (order - rel c) = i" using o by (simp only: add_diff_cancel_left' unat_of_nat_less)
  with i o show ?thesis by blast
qed

lemma ticket_queue_owner:
  assumes q: "ticket_queue ps c q" and t: "ps t = MOwner"
  shows "q = t # tl q"
proof -
  have "t \<in> set q" using q t by (auto simp: ticket_queue_def)
  then obtain i where i: "i < length q" "q ! i = t" by (auto simp: in_set_conv_nth)
  then have "i = 0" using ticket_queueD(4) [OF q i(1)] t by simp
  with i show ?thesis by (cases q) auto
qed

lemma ticket_queue_upd:
  assumes q: "ticket_queue ps c q" and t: "i < length q" "q ! i = t"
    and pc: "ticket_ok (rel c) i pc" "pc \<noteq> MIdle"
  shows "ticket_queue (ps(t := pc)) c q"
proof -
  have "ticket_ok (rel c) j ((ps(t := pc)) (q ! j))" if "j < length q" for j
    using that t pc ticket_queueD(1) [OF q] ticket_queueD(4) [OF q that]
    by (auto simp: nth_eq_iff_index_eq)
  moreover have "ps t \<noteq> MIdle" using q t nth_mem [of i q] by (auto simp: ticket_queue_def)
  ultimately show ?thesis using q pc by (auto simp: ticket_queue_def)
qed

lemma ticket_queue_release:
  assumes q: "ticket_queue ps c q" and t: "ps t = MOwner"
  shows "ticket_queue (ps(t := MIdle)) (c\<lparr>rel := rel c + 1\<rparr>) (tl q)"
proof -
  obtain q' where q': "q = t # q'" using ticket_queue_owner [OF q t] by blast
  note len = ticket_queueD(3) [OF q]
  have "unat (acq c - (rel c + of_nat 1)) = unat (acq c - rel c) - 1"
    by (rule unat_diff_add_of_nat) (use len q' in simp)
  then have l: "length q' = unat (acq c - (rel c + 1))" using len q' by simp
  have tq: "t \<notin> set q'" "distinct q'" "set q' = {u. ps u \<noteq> MIdle} - {t}"
    using q by (auto simp: ticket_queue_def q')
  have "ticket_ok (rel c + 1) i ((ps(t := MIdle)) (q' ! i))" if i: "i < length q'" for i
  proof -
    have "q' ! i \<noteq> t" "ps (q' ! i) \<noteq> MIdle" using i tq nth_mem [OF i] by auto
    with ticket_queueD(4) [OF q, of "Suc i"] i show ?thesis by (simp add: q' ticket_ok_Suc)
  qed
  with l tq show ?thesis by (auto simp: ticket_queue_def q')
qed

lemma mutex_step_inv:
  fixes ps :: "'t::finite \<Rightarrow> mutex_pc"
  assumes inv: "mutex_inv a ps m" and st: "mutex_step a t e (ps t) m = Some (pc', m')"
  shows "mutex_inv a (ps(t := pc')) m'"
proof -
  obtain q where q: "ticket_queue ps (load CellSyncMutex_ctrl m a) q"
    and card: "CARD('t) < 2 ^ 16" and a: "a \<noteq> 0" "aligned a 4"
    using inv by (auto simp: mutex_inv_def)
  have invI: "mutex_inv a ps' m" if "ticket_queue ps' (load CellSyncMutex_ctrl m a) q'"
    for ps' :: "'t \<Rightarrow> mutex_pc" and q'
    using that card a by (auto simp: mutex_inv_def)
  have inv_store: "mutex_inv a ps' (store CellSyncMutex_ctrl m a c)" if "ticket_queue ps' c q'"
    for ps' :: "'t \<Rightarrow> mutex_pc" and c q'
    using that card a by (auto simp: mutex_inv_def mem_simps)
  show ?thesis
  proof (cases e)
    case MCallLock
    with st have "ps t = MIdle" by (cases "ps t") auto
    with MCallLock st inv a show ?thesis
      by (auto simp: mutex_op_defs mem_simps fun_upd_idem split: if_splits
          intro: inv_store [OF ticket_queue_enter [OF q _ card]])
  next
    case (MPoll stopped)
    with st obtain order where pc: "ps t = MSpin order" by (cases "ps t") auto
    then obtain i where i: "i < length q" "q ! i = t"
        "order = rel (load CellSyncMutex_ctrl m a) + of_nat i"
        "unat (order - rel (load CellSyncMutex_ctrl m a)) = i"
      using ticket_queue_ticket [OF q, of t order] by auto
    note upd = ticket_queue_upd [OF q i(1,2), THEN invI]
    have dead: "mutex_inv a (ps(t := MDead order)) m" by (rule upd) (use i in simp_all)
    have own: "mutex_inv a (ps(t := MOwner)) m" if "order = rel (load CellSyncMutex_ctrl m a)"
      by (rule upd) (use i that in simp_all)
    have "m' = m" "pc' = MDead order \<or> pc' = MSpin order \<or>
        pc' = MOwner \<and> order = rel (load CellSyncMutex_ctrl m a)"
      using st by (auto simp: MPoll pc cellSyncMutexLock_poll_def split: if_splits)
    with dead own inv pc show ?thesis by (auto simp: fun_upd_idem)
  next
    case MCallTryLock
    with st have "ps t = MIdle" by (cases "ps t") auto
    with MCallTryLock st inv a show ?thesis
      by (auto simp: mutex_op_defs mem_simps fun_upd_idem split: if_splits
          intro: inv_store [OF ticket_queue_enter [OF q _ card]])
  next
    case MCallUnlock
    with st have "ps t = MOwner" by (cases "ps t") auto
    with MCallUnlock st inv a show ?thesis
      by (auto simp: mutex_op_defs mem_simps split: if_splits
          intro: inv_store [OF ticket_queue_release [OF q]])
  qed
qed

interpretation mutex_threads: thread_invariant "mutex_step a" "mutex_inv a" for a
  by unfold_locales (rule mutex_step_inv)

lemma mutex_start_inv:
  "CARD('t::finite) < 2 ^ 16 \<Longrightarrow> a \<noteq> 0 \<Longrightarrow> aligned a 4 \<Longrightarrow>
     mutex_inv a (\<lambda>_::'t. MIdle) (snd (cellSyncMutexInitialize a m))"
  by (auto simp: cellSyncMutexInitialize_def mutex_inv_def mem_simps ticket_queue_def)

lemma mutex_reachable_queue:
  fixes ps :: "'t::finite \<Rightarrow> mutex_pc"
  assumes "CARD('t) < 2 ^ 16" and "a \<noteq> 0" and "aligned a 4"
    and "reachable (mutex_step a) (\<lambda>_. MIdle, snd (cellSyncMutexInitialize a m)) (ps, m')"
  shows "\<exists>q. ticket_queue ps (load CellSyncMutex_ctrl m' a) q"
  using mutex_threads.reachable_inv [OF assms(4)] mutex_start_inv [OF assms(1-3)]
  by (simp add: mutex_inv_def)

section \<open>Properties\<close>

text \<open>C1: mutual exclusion. From an initialised mutex, whatever the interleaving of
  \<open>Lock\<close>, \<open>TryLock\<close>, \<open>Unlock\<close> and of threads being stopped while they spin, at most one thread
  has been granted the lock and not yet released it, for any number of threads below
  \<open>2 ^ 16\<close> (the ticket counters wrap).\<close>

theorem mutex_mutual_exclusion:
  fixes ps :: "'t::finite \<Rightarrow> mutex_pc"
  assumes "CARD('t) < 2 ^ 16" and "a \<noteq> 0" and "aligned a 4"
    and "reachable (mutex_step a) (\<lambda>_. MIdle, snd (cellSyncMutexInitialize a m)) (ps, m')"
    and "ps t = MOwner" and "ps u = MOwner"
  shows "t = u"
proof -
  obtain q where q: "ticket_queue ps (load CellSyncMutex_ctrl m' a) q"
    using mutex_reachable_queue [OF assms(1-4)] by blast
  show ?thesis using ticket_queue_owner [OF q assms(5)] ticket_queue_owner [OF q assms(6)]
    by (metis list.inject)
qed

theorem mutex_mutual_exclusion_witness:
  "\<exists>ps m'. reachable (mutex_step 16)
      (\<lambda>_::bool. MIdle, snd (cellSyncMutexInitialize 16 (\<lambda>_. 0))) (ps, m') \<and>
    {u. ps u = MOwner} = {True} \<and> ps False = MSpin 1"
proof -
  let ?c0 = "(\<lambda>_::bool. MIdle, snd (cellSyncMutexInitialize 16 (\<lambda>_. 0)))"
  obtain ps m' where
    run: "run_schedule (mutex_step 16) [(True, MCallLock), (False, MCallLock), (True, MPoll False)] ?c0
      = Some (ps, m')"
    and ps: "ps True = MOwner" "ps False = MSpin 1"
    by (simp add: mutex_op_defs mem_simps aligned_def)
  have reach: "reachable (mutex_step 16) ?c0 (ps, m')"
    by (rule run_schedule_reachable [OF reachable_init run])
  have "u = True" if "ps u = MOwner" for u
    by (rule mutex_mutual_exclusion [OF _ _ _ reach that ps(1)]) (simp_all add: aligned_def)
  with reach ps show ?thesis by blast
qed

text \<open>C2: bounded waiting in ticket order. In a reachable state a spinning thread with ticket
  \<open>order\<close> has \<open>order - rel\<close> tickets before it (fewer than there are threads), its next poll
  succeeds exactly when that distance is 0, and each \<open>Unlock\<close> by the owner takes exactly one
  off the distance.\<close>

theorem mutex_bounded_wait:
  fixes ps :: "'t::finite \<Rightarrow> mutex_pc"
  assumes "CARD('t) < 2 ^ 16" and "a \<noteq> 0" and "aligned a 4"
    and "reachable (mutex_step a) (\<lambda>_. MIdle, snd (cellSyncMutexInitialize a m)) (ps, m')"
    and "ps t = MSpin order"
  shows "unat (order - rel (load CellSyncMutex_ctrl m' a)) < CARD('t) \<and>
    (cellSyncMutexLock_poll b a order m' = Returned CELL_OK \<longleftrightarrow>
       unat (order - rel (load CellSyncMutex_ctrl m' a)) = 0) \<and>
    (ps u = MOwner \<longrightarrow>
       (\<exists>m''. cellSyncMutexUnlock a m' = (CELL_OK, m'') \<and>
        unat (order - rel (load CellSyncMutex_ctrl m'' a)) + 1 =
          unat (order - rel (load CellSyncMutex_ctrl m' a))))"
proof -
  let ?c = "load CellSyncMutex_ctrl m' a"
  obtain q where q: "ticket_queue ps ?c q" using mutex_reachable_queue [OF assms(1-4)] by blast
  obtain i where i: "i < length q" "q ! i = t" "unat (order - rel ?c) = i"
    using ticket_queue_ticket [OF q, of t order] assms(5) by auto
  have "length q \<le> CARD('t)"
    using card_mono [of "UNIV :: 't set" "set q"] distinct_card [OF ticket_queueD(1) [OF q]] by simp
  moreover have "i = 0 \<longleftrightarrow> rel ?c = order"
    using i(3) by (metis right_minus_eq unat_eq_zero)
  then have "cellSyncMutexLock_poll b a order m' = Returned 0 \<longleftrightarrow> i = 0"
    by (simp add: cellSyncMutexLock_poll_def)
  moreover have "\<exists>m''. cellSyncMutexUnlock a m' = (0, m'') \<and>
      unat (order - rel (load CellSyncMutex_ctrl m'' a)) + 1 = i" if u: "ps u = MOwner"
  proof -
    have "q = u # tl q" by (rule ticket_queue_owner [OF q u])
    then have "q ! 0 = u" by (metis nth_Cons_0)
    then have "i \<noteq> 0" using i(2) u assms(5) by (metis mutex_pc.distinct(7))
    then have "unat (order - (rel ?c + of_nat 1)) = i - 1"
      using i(3) unat_diff_add_of_nat [of 1 order "rel ?c"] by simp
    then show ?thesis using assms(2,3) \<open>i \<noteq> 0\<close> by (simp add: mutex_op_defs mem_simps)
  qed
  ultimately show ?thesis using i by auto
qed

theorem mutex_bounded_wait_witness:
  "\<exists>ps m' m''. reachable (mutex_step 16)
      (\<lambda>_::bool. MIdle, snd (cellSyncMutexInitialize 16 (\<lambda>_. 0))) (ps, m') \<and>
    ps True = MOwner \<and> ps False = MSpin 1 \<and>
    cellSyncMutexUnlock 16 m' = (CELL_OK, m'') \<and>
    unat (1 - rel (load CellSyncMutex_ctrl m'' 16)) + 1 = unat (1 - rel (load CellSyncMutex_ctrl m' 16))"
proof -
  let ?c0 = "(\<lambda>_::bool. MIdle, snd (cellSyncMutexInitialize 16 (\<lambda>_. 0)))"
  obtain ps m' where
    run: "run_schedule (mutex_step 16) [(True, MCallLock), (False, MCallLock), (True, MPoll False)] ?c0
      = Some (ps, m')"
    and ps: "ps True = MOwner" "ps False = MSpin 1"
    by (simp add: mutex_op_defs mem_simps aligned_def)
  have reach: "reachable (mutex_step 16) ?c0 (ps, m')"
    by (rule run_schedule_reachable [OF reachable_init run])
  show ?thesis
    using mutex_bounded_wait [OF _ _ _ reach ps(2), of False True] reach ps by (auto simp: aligned_def)
qed

end
