(* ===== verification/CellSync_Barrier.thy ===== *)
theory CellSync_Barrier
  imports CellSync_Errors
begin

text \<open>
  \<^verbatim>\<open>cellSyncBarrier*\<close> of \<^verbatim>\<open>Emu/Cell/Modules/cellSync.{h,cpp}\<close>: a reusable barrier in
  one 32-bit word. The top bit of the signed 16-bit \<open>value\<close> tells the two phases apart:
  collecting notifications, and releasing waiters. The abstract specification is a two-phase
  counter; the control word refines it.
\<close>

section \<open>The control word\<close>

record barrier_ctrl =
  bvalue :: u16   \<comment> \<open>the bits of the signed field \<open>value\<close>\<close>
  bcount :: u16

definition CellSyncBarrier_ctrl :: "barrier_ctrl codec" where
  "CellSyncBarrier_ctrl =
     map_codec (\<lambda>(v, n). \<lparr>bvalue = v, bcount = n\<rparr>) (\<lambda>c. (bvalue c, bcount c)) (pair_codec be16 be16)"

interpretation barrier_ctrl: codec_laws CellSyncBarrier_ctrl
  unfolding CellSyncBarrier_ctrl_def
  by (intro map_codec_laws pair_codec_laws be16.codec_laws_axioms) auto

definition try_notify :: "barrier_ctrl \<Rightarrow> bool \<times> barrier_ctrl" where
  "try_notify c =
     (if bvalue c AND 0x8000 \<noteq> 0 then (False, c)
      else let v = bvalue c + 1
           in (True, c\<lparr>bvalue := (if sint v = uint (bcount c) then v OR 0x8000 else v)\<rparr>))"

definition try_wait :: "barrier_ctrl \<Rightarrow> bool \<times> barrier_ctrl" where
  "try_wait c =
     (if bvalue c AND 0x8000 = 0 then (False, c)
      else let v = bvalue c - 1
           in (True, c\<lparr>bvalue := (if sint v = - 0x8000 then 0 else v)\<rparr>))"

section \<open>The calls\<close>

definition cellSyncBarrierInitialize :: "addr \<Rightarrow> u16 \<Rightarrow> mem \<Rightarrow> error_code \<times> mem" where
  "cellSyncBarrierInitialize barrier total_count m =
     (if barrier = 0 then (sync_code CELL_SYNC_ERROR_NULL_POINTER, m)
      else if \<not> aligned barrier 4 then (sync_code CELL_SYNC_ERROR_ALIGN, m)
      else if total_count = 0 \<or> total_count > 32767 then (sync_code CELL_SYNC_ERROR_INVAL, m)
      else (CELL_OK, store CellSyncBarrier_ctrl m barrier \<lparr>bvalue = 0, bcount = total_count\<rparr>))"

text \<open>The blocking calls: the checks and the first iteration of the loop; \<open>Waiting ()\<close> is the
  loop, each further iteration is \<open>_loop\<close>.\<close>

definition cellSyncBarrierNotify_loop :: "bool \<Rightarrow> addr \<Rightarrow> mem \<Rightarrow> unit call_state \<times> mem" where
  "cellSyncBarrierNotify_loop stopped barrier m =
     (let (ok, m') = atomic_op CellSyncBarrier_ctrl try_notify m barrier
      in (if ok then Returned CELL_OK else if stopped then Stopped else Waiting (), m'))"

definition cellSyncBarrierNotify :: "bool \<Rightarrow> addr \<Rightarrow> mem \<Rightarrow> unit call_state \<times> mem" where
  "cellSyncBarrierNotify stopped barrier m =
     (if barrier = 0 then (Returned (sync_code CELL_SYNC_ERROR_NULL_POINTER), m)
      else if \<not> aligned barrier 4 then (Returned (sync_code CELL_SYNC_ERROR_ALIGN), m)
      else cellSyncBarrierNotify_loop stopped barrier m)"

definition cellSyncBarrierTryNotify :: "addr \<Rightarrow> mem \<Rightarrow> error_code \<times> mem" where
  "cellSyncBarrierTryNotify barrier m =
     (if barrier = 0 then (sync_code CELL_SYNC_ERROR_NULL_POINTER, m)
      else if \<not> aligned barrier 4 then (sync_code CELL_SYNC_ERROR_ALIGN, m)
      else let (ok, m') = atomic_op CellSyncBarrier_ctrl try_notify m barrier
           in if \<not> ok then (sync_code CELL_SYNC_ERROR_BUSY, m') else (CELL_OK, m'))"

definition cellSyncBarrierWait_loop :: "bool \<Rightarrow> addr \<Rightarrow> mem \<Rightarrow> unit call_state \<times> mem" where
  "cellSyncBarrierWait_loop stopped barrier m =
     (let (ok, m') = atomic_op CellSyncBarrier_ctrl try_wait m barrier
      in (if ok then Returned CELL_OK else if stopped then Stopped else Waiting (), m'))"

definition cellSyncBarrierWait :: "bool \<Rightarrow> addr \<Rightarrow> mem \<Rightarrow> unit call_state \<times> mem" where
  "cellSyncBarrierWait stopped barrier m =
     (if barrier = 0 then (Returned (sync_code CELL_SYNC_ERROR_NULL_POINTER), m)
      else if \<not> aligned barrier 4 then (Returned (sync_code CELL_SYNC_ERROR_ALIGN), m)
      else cellSyncBarrierWait_loop stopped barrier m)"

definition cellSyncBarrierTryWait :: "addr \<Rightarrow> mem \<Rightarrow> error_code \<times> mem" where
  "cellSyncBarrierTryWait barrier m =
     (if barrier = 0 then (sync_code CELL_SYNC_ERROR_NULL_POINTER, m)
      else if \<not> aligned barrier 4 then (sync_code CELL_SYNC_ERROR_ALIGN, m)
      else let (ok, m') = atomic_op CellSyncBarrier_ctrl try_wait m barrier
           in if \<not> ok then (sync_code CELL_SYNC_ERROR_BUSY, m') else (CELL_OK, m'))"

lemmas barrier_op_defs = cellSyncBarrierInitialize_def cellSyncBarrierNotify_def
  cellSyncBarrierNotify_loop_def cellSyncBarrierTryNotify_def cellSyncBarrierWait_def
  cellSyncBarrierWait_loop_def cellSyncBarrierTryWait_def barrier_ctrl.atomic_op_load

section \<open>Abstract specification: a two-phase counter\<close>

datatype phase = Collect nat | Release nat

fun notify_spec :: "nat \<Rightarrow> phase \<Rightarrow> phase option" where
  "notify_spec n (Collect k) = Some (if k + 1 = n then Release n else Collect (k + 1))"
| "notify_spec n (Release k) = None"

fun wait_spec :: "nat \<Rightarrow> phase \<Rightarrow> phase option" where
  "wait_spec n (Collect k) = None"
| "wait_spec n (Release k) = Some (if k = 1 then Collect 0 else Release (k - 1))"

definition phase_of :: "barrier_ctrl \<Rightarrow> phase" where
  "phase_of c = (if unat (bvalue c) < 0x8000 then Collect (unat (bvalue c))
     else Release (unat (bvalue c) - 0x8000))"

definition barrier_wf :: "nat \<Rightarrow> barrier_ctrl \<Rightarrow> bool" where
  "barrier_wf n c \<longleftrightarrow> unat (bcount c) = n \<and> 0 < n \<and> n \<le> 32767 \<and>
     (case phase_of c of Collect k \<Rightarrow> k < n | Release k \<Rightarrow> 0 < k \<and> k \<le> n)"

lemma and_8000: "(x :: u16) AND 0x8000 = 0 \<longleftrightarrow> unat x < 0x8000"
proof -
  have "(x AND 2 ^ 15 = 0) = (\<not> bit x 15)" by (rule and_exp_eq_0_iff_not_bit)
  with msb_unat [of x] show ?thesis by (simp add: linorder_not_le)
qed

lemma unat_or_8000: "unat (x :: u16) < 0x8000 \<Longrightarrow> unat (x OR 0x8000) = unat x + 0x8000"
proof -
  assume x: "unat x < 0x8000"
  then have "x AND 0x8000 = 0" by (simp add: and_8000)
  then have "x + 0x8000 = x OR 0x8000" by (rule disjunctive_add_eq_or)
  then have "x OR 0x8000 = x + 0x8000" by (rule sym)
  then show ?thesis using x by (simp only:) (simp add: unat_word_ariths)
qed

lemma try_notify_refines:
  assumes wf: "barrier_wf n c"
  shows "case notify_spec n (phase_of c) of
      None \<Rightarrow> try_notify c = (False, c)
    | Some p \<Rightarrow> \<exists>c'. try_notify c = (True, c') \<and> phase_of c' = p \<and> barrier_wf n c'"
proof (cases "unat (bvalue c) < 0x8000")
  case True
  with wf have k: "unat (bvalue c) < n" "n \<le> 32767" "unat (bcount c) = n"
    by (simp_all add: barrier_wf_def phase_of_def)
  have v: "unat (bvalue c + 1) = unat (bvalue c) + 1" using k by (intro unat_inc) simp
  have "uint (bcount c) = int n" using k(3) by (metis uint_nat)
  then have s: "sint (bvalue c + 1) = uint (bcount c) \<longleftrightarrow> unat (bvalue c) + 1 = n"
    using k v by (simp add: sint_unat del: of_nat_unat) linarith
  show ?thesis using True k v s
    by (auto simp: try_notify_def and_8000 Let_def phase_of_def barrier_wf_def unat_or_8000)
next
  case False
  then show ?thesis by (simp add: try_notify_def and_8000 phase_of_def)
qed

lemma try_wait_refines:
  assumes wf: "barrier_wf n c"
  shows "case wait_spec n (phase_of c) of
      None \<Rightarrow> try_wait c = (False, c)
    | Some p \<Rightarrow> \<exists>c'. try_wait c = (True, c') \<and> phase_of c' = p \<and> barrier_wf n c'"
proof (cases "unat (bvalue c) < 0x8000")
  case True
  then show ?thesis by (simp add: try_wait_def and_8000 phase_of_def)
next
  case False
  with wf have k: "0x8000 < unat (bvalue c)" "unat (bvalue c) - 0x8000 \<le> n" "0 < n" "n \<le> 32767" "unat (bcount c) = n"
    by (auto simp: barrier_wf_def phase_of_def)
  have v: "unat (bvalue c - 1) = unat (bvalue c) - 1" using k by (simp add: unat_diff_split)
  have s: "sint (bvalue c - 1) = - 0x8000 \<longleftrightarrow> unat (bvalue c) = 0x8001"
    using k v unat_lt [of "bvalue c"] by (simp add: sint_unat del: of_nat_unat) linarith
  show ?thesis using False k v s
    by (auto simp: try_wait_def and_8000 Let_def phase_of_def barrier_wf_def)
qed

section \<open>Rounds\<close>

datatype barrier_op = BNotify bool | BTryNotify | BWait bool | BTryWait

text \<open>One attempt by some thread: what it returned and the memory after it.\<close>

fun barrier_attempt :: "addr \<Rightarrow> barrier_op \<Rightarrow> mem \<Rightarrow> bool \<times> mem" where
  "barrier_attempt a (BNotify stopped) m =
     (case cellSyncBarrierNotify stopped a m of (r, m') \<Rightarrow> (r = Returned CELL_OK, m'))"
| "barrier_attempt a BTryNotify m = (case cellSyncBarrierTryNotify a m of (r, m') \<Rightarrow> (r = CELL_OK, m'))"
| "barrier_attempt a (BWait stopped) m =
     (case cellSyncBarrierWait stopped a m of (r, m') \<Rightarrow> (r = Returned CELL_OK, m'))"
| "barrier_attempt a BTryWait m = (case cellSyncBarrierTryWait a m of (r, m') \<Rightarrow> (r = CELL_OK, m'))"

definition is_notify :: "barrier_op \<Rightarrow> bool" where
  "is_notify op = (case op of BNotify _ \<Rightarrow> True | BTryNotify \<Rightarrow> True | _ \<Rightarrow> False)"

text \<open>Successful notifications, successful waits and the memory after a sequence of attempts.\<close>

fun barrier_run :: "addr \<Rightarrow> barrier_op list \<Rightarrow> nat \<times> nat \<times> mem \<Rightarrow> nat \<times> nat \<times> mem" where
  "barrier_run a [] (N, W, m) = (N, W, m)"
| "barrier_run a (op # ops) (N, W, m) =
     (case barrier_attempt a op m of
        (False, m') \<Rightarrow> barrier_run a ops (N, W, m')
      | (True, m') \<Rightarrow> barrier_run a ops (if is_notify op then (N + 1, W, m') else (N, W + 1, m')))"

definition barrier_rounds_inv :: "nat \<Rightarrow> barrier_ctrl \<Rightarrow> nat \<Rightarrow> nat \<Rightarrow> bool" where
  "barrier_rounds_inv n c N W \<longleftrightarrow> barrier_wf n c \<and>
     (case phase_of c of
        Collect k \<Rightarrow> (\<exists>q. W = q * n \<and> N = q * n + k)
      | Release k \<Rightarrow> (\<exists>q. N = q * n \<and> W + k = q * n))"

lemma attempt_notify:
  assumes "barrier_wf n (load CellSyncBarrier_ctrl m a)" "is_notify op" "a \<noteq> 0" "aligned a 4"
  shows "barrier_attempt a op m = (let (ok, c') = try_notify (load CellSyncBarrier_ctrl m a) in (ok, store CellSyncBarrier_ctrl m a c'))"
  using assms by (cases op) (auto simp: is_notify_def barrier_op_defs split: prod.splits)

lemma attempt_wait:
  assumes "barrier_wf n (load CellSyncBarrier_ctrl m a)" "\<not> is_notify op" "a \<noteq> 0" "aligned a 4"
  shows "barrier_attempt a op m = (let (ok, c') = try_wait (load CellSyncBarrier_ctrl m a) in (ok, store CellSyncBarrier_ctrl m a c'))"
  using assms by (cases op) (auto simp: is_notify_def barrier_op_defs split: prod.splits)

lemma rounds_notify:
  assumes inv: "barrier_rounds_inv n c N W" and st: "try_notify c = (ok, c')"
  shows "barrier_rounds_inv n c' (if ok then N + 1 else N) W"
proof -
  have wf: "barrier_wf n c" using inv by (simp add: barrier_rounds_inv_def)
  show ?thesis
  proof (cases "phase_of c")
    case (Collect k)
    with try_notify_refines [OF wf] st have ok: "ok" "barrier_wf n c'"
       "phase_of c' = (if k + 1 = n then Release n else Collect (k + 1))"
      by (auto split: if_splits)
    from inv Collect obtain q where "W = q * n" "N = q * n + k" by (auto simp: barrier_rounds_inv_def)
    then show ?thesis using ok
      by (auto simp: barrier_rounds_inv_def intro!: exI [of _ "Suc q"])
  next
    case (Release k)
    with try_notify_refines [OF wf] st inv show ?thesis by auto
  qed
qed

lemma rounds_wait:
  assumes inv: "barrier_rounds_inv n c N W" and st: "try_wait c = (ok, c')"
  shows "barrier_rounds_inv n c' N (if ok then W + 1 else W)"
proof -
  have wf: "barrier_wf n c" using inv by (simp add: barrier_rounds_inv_def)
  show ?thesis
  proof (cases "phase_of c")
    case (Release k)
    with try_wait_refines [OF wf] st have ok: "ok" "barrier_wf n c'"
       "phase_of c' = (if k = 1 then Collect 0 else Release (k - 1))"
      by (auto split: if_splits)
    from inv Release obtain q where "N = q * n" "W + k = q * n" by (auto simp: barrier_rounds_inv_def)
    moreover have "0 < k" using wf Release by (simp add: barrier_wf_def)
    ultimately show ?thesis using ok
      by (auto simp: barrier_rounds_inv_def intro!: exI [of _ q])
  next
    case (Collect k)
    with try_wait_refines [OF wf] st inv show ?thesis by auto
  qed
qed

lemma barrier_run_inv:
  assumes "a \<noteq> 0" "aligned a 4"
    and "barrier_rounds_inv n (load CellSyncBarrier_ctrl m a) N W"
    and "barrier_run a ops (N, W, m) = (N', W', m')"
  shows "barrier_rounds_inv n (load CellSyncBarrier_ctrl m' a) N' W'"
  using assms(3,4)
proof (induction ops arbitrary: N W m)
  case Nil
  then show ?case by simp
next
  case (Cons op ops)
  let ?c = "load CellSyncBarrier_ctrl m a"
  have wf: "barrier_wf n ?c" using Cons.prems(1) by (simp add: barrier_rounds_inv_def)
  show ?case
  proof (cases "is_notify op")
    case True
    obtain ok c' where s: "try_notify ?c = (ok, c')" by (cases "try_notify ?c")
    have "barrier_attempt a op m = (ok, store CellSyncBarrier_ctrl m a c')"
      using attempt_notify [OF wf True assms(1,2)] s by simp
    moreover have "barrier_rounds_inv n (load CellSyncBarrier_ctrl (store CellSyncBarrier_ctrl m a c') a) (if ok then N + 1 else N) W"
      using rounds_notify [OF Cons.prems(1) s] by (simp only: mem_simps)
    ultimately show ?thesis using Cons.prems(2) True by (auto split: bool.splits if_splits intro: Cons.IH)
  next
    case False
    obtain ok c' where s: "try_wait ?c = (ok, c')" by (cases "try_wait ?c")
    have "barrier_attempt a op m = (ok, store CellSyncBarrier_ctrl m a c')"
      using attempt_wait [OF wf False assms(1,2)] s by simp
    moreover have "barrier_rounds_inv n (load CellSyncBarrier_ctrl (store CellSyncBarrier_ctrl m a c') a) N (if ok then W + 1 else W)"
      using rounds_wait [OF Cons.prems(1) s] by (simp only: mem_simps)
    ultimately show ?thesis using Cons.prems(2) False by (auto split: bool.splits if_splits intro: Cons.IH)
  qed
qed

lemma barrier_init_inv:
  assumes "a \<noteq> 0" "aligned a 4" "0 < n" "n \<le> 32767"
  shows "cellSyncBarrierInitialize a n m = (CELL_OK, snd (cellSyncBarrierInitialize a n m)) \<and>
    barrier_rounds_inv (unat n) (load CellSyncBarrier_ctrl (snd (cellSyncBarrierInitialize a n m)) a) 0 0"
proof -
  have "n \<noteq> 0" "\<not> n > 32767" "unat n \<le> 32767"
    using assms(3,4) by (auto simp: word_le_nat_alt word_less_nat_alt)
  with assms show ?thesis
    by (simp add: cellSyncBarrierInitialize_def mem_simps barrier_rounds_inv_def barrier_wf_def
        phase_of_def unat_gt_0)
qed

section \<open>Properties\<close>

text \<open>C3: the control word refines the two-phase counter. On a well-formed barrier a
  notification succeeds exactly while notifications are collected, a wait exactly while waiters
  are released, each moves the abstract phase as specified, and a refused attempt leaves the
  control word as it is.\<close>

theorem barrier_refines_two_phase:
  assumes "barrier_wf n c"
  shows "(case notify_spec n (phase_of c) of
      None \<Rightarrow> try_notify c = (False, c)
    | Some p \<Rightarrow> \<exists>c'. try_notify c = (True, c') \<and> phase_of c' = p \<and> barrier_wf n c') \<and>
    (case wait_spec n (phase_of c) of
      None \<Rightarrow> try_wait c = (False, c)
    | Some p \<Rightarrow> \<exists>c'. try_wait c = (True, c') \<and> phase_of c' = p \<and> barrier_wf n c')"
  using try_notify_refines [OF assms] try_wait_refines [OF assms] by blast

theorem barrier_refines_two_phase_witness:
  "barrier_wf 2 \<lparr>bvalue = 1, bcount = 2\<rparr> \<and>
   phase_of \<lparr>bvalue = 1, bcount = 2\<rparr> = Collect 1 \<and>
   (\<exists>c'. try_notify \<lparr>bvalue = 1, bcount = 2\<rparr> = (True, c') \<and> phase_of c' = Release 2 \<and> barrier_wf 2 c')"
proof -
  have wf: "barrier_wf 2 \<lparr>bvalue = 1, bcount = 2\<rparr>" by (simp add: barrier_wf_def phase_of_def)
  show ?thesis using barrier_refines_two_phase [OF wf] wf by (simp add: phase_of_def)
qed

text \<open>C4: rounds. After \<open>cellSyncBarrierInitialize\<close> with \<open>n\<close> participants, in any sequence of
  attempts by any threads (blocking or not), with \<open>N\<close> successful notifications and \<open>W\<close>
  successful waits so far: no wait of a round succeeds before all \<open>n\<close> notifications of the
  round, and no notification of the next round before all \<open>n\<close> waiters have left.\<close>

theorem barrier_rounds:
  assumes "a \<noteq> 0" and "aligned a 4" and "0 < n" and "n \<le> 32767"
    and "barrier_run a ops (0, 0, snd (cellSyncBarrierInitialize a n m)) = (N, W, m')"
  shows "W \<le> unat n * (N div unat n) \<and> N \<le> unat n * (W div unat n) + unat n"
proof -
  let ?n = "unat n" and ?c = "load CellSyncBarrier_ctrl m' a"
  have inv: "barrier_rounds_inv ?n ?c N W"
    using barrier_init_inv [OF assms(1-4)] barrier_run_inv [OF assms(1,2) _ assms(5)] by blast
  then have n: "0 < ?n" by (simp add: barrier_rounds_inv_def barrier_wf_def)
  show ?thesis
  proof (cases "phase_of ?c")
    case (Collect k)
    with inv obtain q where "W = q * ?n" "N = q * ?n + k" "k < ?n"
      by (auto simp: barrier_rounds_inv_def barrier_wf_def)
    with n show ?thesis by (simp add: mult.commute)
  next
    case (Release k)
    with inv obtain q where q: "N = q * ?n" "W + k = q * ?n" "0 < k" "k \<le> ?n"
      by (auto simp: barrier_rounds_inv_def barrier_wf_def)
    then have "q \<noteq> 0" by (metis add_is_0 less_not_refl mult_0)
    then obtain p where p: "q = Suc p" by (cases q) auto
    have "p \<le> W div ?n" using q n p by (simp add: less_eq_div_iff_mult_less_eq mult.commute)
    then have "?n * p \<le> ?n * (W div ?n)" by simp
    then show ?thesis using q n p by (simp add: algebra_simps)
  qed
qed

theorem barrier_rounds_witness:
  "\<exists>m'. barrier_run 16 [BTryWait, BTryNotify, BWait False, BNotify False, BTryNotify, BTryWait]
      (0, 0, snd (cellSyncBarrierInitialize 16 2 (\<lambda>_. 0))) = (2, 1, m') \<and>
    1 \<le> unat (2 :: u16) * (2 div unat (2 :: u16))"
proof -
  obtain m' where r: "barrier_run 16 [BTryWait, BTryNotify, BWait False, BNotify False, BTryNotify, BTryWait]
      (0, 0, snd (cellSyncBarrierInitialize 16 2 (\<lambda>_. 0))) = (2, 1, m')"
    by (simp add: barrier_op_defs mem_simps aligned_def try_notify_def try_wait_def is_notify_def)
  show ?thesis using barrier_rounds [OF _ _ _ _ r] r by (auto simp: aligned_def)
qed

end
