(* ===== verification/CellSync_Rwm.thy ===== *)
theory CellSync_Rwm
  imports CellSync_Errors
begin

text \<open>
  \<^verbatim>\<open>cellSyncRwm*\<close> of \<^verbatim>\<open>Emu/Cell/Modules/cellSync.{h,cpp}\<close>: a buffer in guest memory
  behind a reader/writer count. A call is a sequence of atomic steps: the read-modify-writes
  of the control word, and the copy, byte by byte, between the shared buffer and the caller's.
  The theorems are about any interleaving of such steps.
\<close>

section \<open>The object\<close>

record rwm_ctrl =
  readers :: u16
  writers :: u16

definition CellSyncRwm_ctrl :: "rwm_ctrl codec" where
  "CellSyncRwm_ctrl =
     map_codec (\<lambda>(r, w). \<lparr>readers = r, writers = w\<rparr>) (\<lambda>c. (readers c, writers c)) (pair_codec be16 be16)"

interpretation rwm_ctrl: codec_laws CellSyncRwm_ctrl
  unfolding CellSyncRwm_ctrl_def
  by (intro map_codec_laws pair_codec_laws be16.codec_laws_axioms) auto

lemma csize_rwm_ctrl [simp]: "csize CellSyncRwm_ctrl = 4"
  by (simp add: CellSyncRwm_ctrl_def)

text \<open>Field offsets of the 16-byte structure: \<open>ctrl\<close> 0, \<open>size\<close> 4, \<open>buffer\<close> 8.\<close>

definition rwm_size :: "mem \<Rightarrow> addr \<Rightarrow> u32" where
  "rwm_size m rwm = load be32 m (rwm + 4)"

definition rwm_buffer :: "mem \<Rightarrow> addr \<Rightarrow> u64" where
  "rwm_buffer m rwm = load be64 m (rwm + 8)"

definition try_read_begin :: "rwm_ctrl \<Rightarrow> bool \<times> rwm_ctrl" where
  "try_read_begin c = (if writers c \<noteq> 0 then (False, c) else (True, c\<lparr>readers := readers c + 1\<rparr>))"

definition try_read_end :: "rwm_ctrl \<Rightarrow> bool \<times> rwm_ctrl" where
  "try_read_end c = (if readers c = 0 then (False, c) else (True, c\<lparr>readers := readers c - 1\<rparr>))"

definition try_write_begin :: "rwm_ctrl \<Rightarrow> bool \<times> rwm_ctrl" where
  "try_write_begin c = (if writers c \<noteq> 0 then (False, c) else (True, c\<lparr>writers := 1\<rparr>))"

section \<open>The calls\<close>

definition cellSyncRwmInitialize :: "addr \<Rightarrow> addr \<Rightarrow> u32 \<Rightarrow> mem \<Rightarrow> error_code \<times> mem" where
  "cellSyncRwmInitialize rwm buffer buffer_size m =
     (if rwm = 0 \<or> buffer = 0 then (sync_code CELL_SYNC_ERROR_NULL_POINTER, m)
      else if \<not> aligned rwm 16 \<or> \<not> aligned buffer 128 then (sync_code CELL_SYNC_ERROR_ALIGN, m)
      else if buffer_size mod 128 \<noteq> 0 \<or> buffer_size > 0x4000 then (sync_code CELL_SYNC_ERROR_INVAL, m)
      else
        let m1 = store CellSyncRwm_ctrl m rwm \<lparr>readers = 0, writers = 0\<rparr>;
            m2 = store be32 m1 (rwm + 4) buffer_size;
            m3 = store be64 m2 (rwm + 8) (ucast buffer)
        in (CELL_OK, m3))"

text \<open>Program points of a read or a write. \<open>ReadCopy dst src n i\<close> and \<open>WriteCopy dst src n i\<close>
  are inside \<open>std::memcpy(dst, src, n)\<close> with \<open>i\<close> bytes copied.\<close>

datatype rwm_pc =
    ReadLoop addr
  | ReadBegun addr
  | ReadCopy addr addr nat nat
  | ReadDone
  | WriteLoop addr
  | WriteDrain addr
  | WriteBegun addr
  | WriteCopy addr addr nat nat
  | WriteDone

definition cellSyncRwmRead :: "addr \<Rightarrow> addr \<Rightarrow> mem \<Rightarrow> rwm_pc call_state \<times> mem" where
  "cellSyncRwmRead rwm buffer m =
     (if rwm = 0 \<or> buffer = 0 then (Returned (sync_code CELL_SYNC_ERROR_NULL_POINTER), m)
      else if \<not> aligned rwm 16 then (Returned (sync_code CELL_SYNC_ERROR_ALIGN), m)
      else (Waiting (ReadLoop buffer), m))"

definition cellSyncRwmTryRead :: "addr \<Rightarrow> addr \<Rightarrow> mem \<Rightarrow> rwm_pc call_state \<times> mem" where
  "cellSyncRwmTryRead rwm buffer m =
     (if rwm = 0 \<or> buffer = 0 then (Returned (sync_code CELL_SYNC_ERROR_NULL_POINTER), m)
      else if \<not> aligned rwm 16 then (Returned (sync_code CELL_SYNC_ERROR_ALIGN), m)
      else let (ok, m') = atomic_op CellSyncRwm_ctrl try_read_begin m rwm
           in (if \<not> ok then Returned (sync_code CELL_SYNC_ERROR_BUSY) else Waiting (ReadBegun buffer), m'))"

definition cellSyncRwmWrite :: "addr \<Rightarrow> addr \<Rightarrow> mem \<Rightarrow> rwm_pc call_state \<times> mem" where
  "cellSyncRwmWrite rwm buffer m =
     (if rwm = 0 \<or> buffer = 0 then (Returned (sync_code CELL_SYNC_ERROR_NULL_POINTER), m)
      else if \<not> aligned rwm 16 then (Returned (sync_code CELL_SYNC_ERROR_ALIGN), m)
      else (Waiting (WriteLoop buffer), m))"

definition cellSyncRwmTryWrite :: "addr \<Rightarrow> addr \<Rightarrow> mem \<Rightarrow> rwm_pc call_state \<times> mem" where
  "cellSyncRwmTryWrite rwm buffer m =
     (if rwm = 0 \<or> buffer = 0 then (Returned (sync_code CELL_SYNC_ERROR_NULL_POINTER), m)
      else if \<not> aligned rwm 16 then (Returned (sync_code CELL_SYNC_ERROR_ALIGN), m)
      else let (ok, m') = compare_and_swap_test CellSyncRwm_ctrl m rwm
             \<lparr>readers = 0, writers = 0\<rparr> \<lparr>readers = 0, writers = 1\<rparr>
           in (if \<not> ok then Returned (sync_code CELL_SYNC_ERROR_BUSY) else Waiting (WriteBegun buffer), m'))"

text \<open>The next atomic step of a call that has started; \<open>stopped\<close> answers \<open>ppu.test_stopped()\<close>.\<close>

fun rwm_continue :: "bool \<Rightarrow> addr \<Rightarrow> rwm_pc \<Rightarrow> mem \<Rightarrow> rwm_pc call_state \<times> mem" where
  "rwm_continue stopped rwm (ReadLoop buffer) m =
     (let (ok, m') = atomic_op CellSyncRwm_ctrl try_read_begin m rwm
      in (if ok then Waiting (ReadBegun buffer)
          else if stopped then Stopped else Waiting (ReadLoop buffer), m'))"
| "rwm_continue stopped rwm (ReadBegun buffer) m =
     (case vm_cast64 (rwm_buffer m rwm) of
        None \<Rightarrow> (Thrown, m)
      | Some src \<Rightarrow> (Waiting (ReadCopy buffer src (unat (rwm_size m rwm)) 0), m))"
| "rwm_continue stopped rwm (ReadCopy dst src n i) m =
     (if i < n then (Waiting (ReadCopy dst src n (i + 1)), m(dst + of_nat i := m (src + of_nat i)))
      else (Waiting ReadDone, m))"
| "rwm_continue stopped rwm ReadDone m =
     (let (ok, m') = atomic_op CellSyncRwm_ctrl try_read_end m rwm
      in (Returned (if \<not> ok then sync_code CELL_SYNC_ERROR_ABORT else CELL_OK), m'))"
| "rwm_continue stopped rwm (WriteLoop buffer) m =
     (let (ok, m') = atomic_op CellSyncRwm_ctrl try_write_begin m rwm
      in (if ok then Waiting (WriteDrain buffer)
          else if stopped then Stopped else Waiting (WriteLoop buffer), m'))"
| "rwm_continue stopped rwm (WriteDrain buffer) m =
     (if readers (load CellSyncRwm_ctrl m rwm) \<noteq> 0
      then (if stopped then Stopped else Waiting (WriteDrain buffer), m)
      else (Waiting (WriteBegun buffer), m))"
| "rwm_continue stopped rwm (WriteBegun buffer) m =
     (case vm_cast64 (rwm_buffer m rwm) of
        None \<Rightarrow> (Thrown, m)
      | Some dst \<Rightarrow> (Waiting (WriteCopy dst buffer (unat (rwm_size m rwm)) 0), m))"
| "rwm_continue stopped rwm (WriteCopy dst src n i) m =
     (if i < n then (Waiting (WriteCopy dst src n (i + 1)), m(dst + of_nat i := m (src + of_nat i)))
      else (Waiting WriteDone, m))"
| "rwm_continue stopped rwm WriteDone m =
     (Returned CELL_OK, store CellSyncRwm_ctrl m rwm \<lparr>readers = 0, writers = 0\<rparr>)"

section \<open>Threads sharing one object\<close>

text \<open>Thread \<open>t\<close> passes its own buffer \<open>buf t\<close> to every call and fills it between calls.\<close>

datatype rwm_event = RwmFill "u8 list" | RwmRead | RwmTryRead | RwmWrite | RwmTryWrite | RwmStep bool

fun rwm_step :: "addr \<Rightarrow> nat \<Rightarrow> ('t \<Rightarrow> addr) \<Rightarrow> 't \<Rightarrow> rwm_event \<Rightarrow> rwm_pc thread_state \<Rightarrow> mem \<Rightarrow>
    (rwm_pc thread_state \<times> mem) option" where
  "rwm_step a n buf t (RwmFill bs) Idle m =
     (if length bs = n then Some (Idle, write_bytes m (buf t) bs) else None)"
| "rwm_step a n buf t RwmRead Idle m = Some (enter_call (cellSyncRwmRead a (buf t) m))"
| "rwm_step a n buf t RwmTryRead Idle m = Some (enter_call (cellSyncRwmTryRead a (buf t) m))"
| "rwm_step a n buf t RwmWrite Idle m = Some (enter_call (cellSyncRwmWrite a (buf t) m))"
| "rwm_step a n buf t RwmTryWrite Idle m = Some (enter_call (cellSyncRwmTryWrite a (buf t) m))"
| "rwm_step a n buf t (RwmStep stopped) (InCall w) m = Some (resume_call w (rwm_continue stopped a w m))"
| "rwm_step a n buf t _ _ m = None"

section \<open>The invariant\<close>

text \<open>The object, the shared buffer \<open>B\<close> and the threads' buffers do not overlap.\<close>

definition rwm_layout :: "addr \<Rightarrow> addr \<Rightarrow> nat \<Rightarrow> ('t \<Rightarrow> addr) \<Rightarrow> bool" where
  "rwm_layout a B n buf \<longleftrightarrow>
     a \<noteq> 0 \<and> aligned a 16 \<and> B \<noteq> 0 \<and> aligned B 128 \<and> n mod 128 = 0 \<and> n \<le> 0x4000 \<and> apart B n a 16 \<and>
     (\<forall>t. buf t \<noteq> 0 \<and> apart (buf t) n a 16 \<and> apart (buf t) n B n) \<and>
     (\<forall>t u. t \<noteq> u \<longrightarrow> apart (buf t) n (buf u) n)"

fun reading :: "rwm_pc thread_state \<Rightarrow> bool" where
  "reading (InCall (ReadBegun b)) = True"
| "reading (InCall (ReadCopy d s k i)) = True"
| "reading (InCall ReadDone) = True"
| "reading _ = False"

fun exclusive :: "rwm_pc thread_state \<Rightarrow> bool" where
  "exclusive (InCall (WriteBegun b)) = True"
| "exclusive (InCall (WriteCopy d s k i)) = True"
| "exclusive (InCall WriteDone) = True"
| "exclusive _ = False"

text \<open>A writer that was stopped while it waited for the readers leaves \<open>writers\<close> set.\<close>

fun writing :: "rwm_pc thread_state \<Rightarrow> bool" where
  "writing (InCall (WriteDrain b)) = True"
| "writing (Dead (WriteDrain b)) = True"
| "writing p = exclusive p"

definition ctrl_ok :: "('t \<Rightarrow> rwm_pc thread_state) \<Rightarrow> rwm_ctrl \<Rightarrow> bool" where
  "ctrl_ok ps c \<longleftrightarrow>
     unat (readers c) = card {t. reading (ps t)} \<and>
     writers c = (if \<exists>t. writing (ps t) then 1 else 0) \<and>
     (\<forall>t u. writing (ps t) \<and> writing (ps u) \<longrightarrow> t = u) \<and>
     (\<forall>t u. exclusive (ps t) \<longrightarrow> \<not> reading (ps u))"

fun data_ok :: "addr \<Rightarrow> nat \<Rightarrow> addr \<Rightarrow> mem \<Rightarrow> rwm_pc thread_state \<Rightarrow> bool" where
  "data_ok B n b m (InCall (ReadLoop x)) = (x = b)"
| "data_ok B n b m (InCall (ReadBegun x)) = (x = b)"
| "data_ok B n b m (InCall (ReadCopy d s k i)) = (d = b \<and> s = B \<and> k = n \<and> i \<le> n \<and> copied m b B i)"
| "data_ok B n b m (InCall ReadDone) = copied m b B n"
| "data_ok B n b m (InCall (WriteLoop x)) = (x = b)"
| "data_ok B n b m (InCall (WriteDrain x)) = (x = b)"
| "data_ok B n b m (InCall (WriteBegun x)) = (x = b)"
| "data_ok B n b m (InCall (WriteCopy d s k i)) = (d = B \<and> s = b \<and> k = n \<and> i \<le> n \<and> copied m B b i)"
| "data_ok B n b m (InCall WriteDone) = copied m B b n"
| "data_ok B n b m _ = True"

definition fields_ok :: "addr \<Rightarrow> addr \<Rightarrow> nat \<Rightarrow> mem \<Rightarrow> bool" where
  "fields_ok a B n m \<longleftrightarrow> rwm_size m a = of_nat n \<and> rwm_buffer m a = ucast B"

definition rwm_inv :: "addr \<Rightarrow> addr \<Rightarrow> nat \<Rightarrow> ('t::finite \<Rightarrow> addr) \<Rightarrow> ('t \<Rightarrow> rwm_pc thread_state) \<Rightarrow> mem \<Rightarrow> bool" where
  "rwm_inv a B n buf ps m \<longleftrightarrow>
     rwm_layout a B n buf \<and> CARD('t) < 2 ^ 16 \<and> ctrl_ok ps (load CellSyncRwm_ctrl m a) \<and>
     fields_ok a B n m \<and> (\<forall>t. data_ok B n (buf t) m (ps t))"

subsection \<open>The control word\<close>

lemma exclusive_writing: "exclusive p \<Longrightarrow> writing p"
  by (induction p rule: exclusive.induct) simp_all

lemma writing_not_reading: "writing p \<Longrightarrow> \<not> reading p"
  by (induction p rule: reading.induct) simp_all

lemma card_reading_insert:
  fixes ps :: "'t::finite \<Rightarrow> rwm_pc thread_state"
  assumes "\<not> reading (ps t)" "reading p"
  shows "card {u. reading ((ps(t := p)) u)} = Suc (card {u. reading (ps u)})"
proof -
  have "{u. reading ((ps(t := p)) u)} = insert t {u. reading (ps u)}" using assms by auto
  then show ?thesis using assms by simp
qed

lemma card_reading_remove:
  fixes ps :: "'t::finite \<Rightarrow> rwm_pc thread_state"
  assumes "reading (ps t)" "\<not> reading p"
  shows "card {u. reading (ps u)} = Suc (card {u. reading ((ps(t := p)) u)})"
  using card_reading_insert [of "ps(t := p)" t "ps t"] assms by simp

lemma ctrl_ok_same:
  fixes ps :: "'t::finite \<Rightarrow> rwm_pc thread_state"
  assumes "ctrl_ok ps c" and "reading p = reading (ps t)" "writing p = writing (ps t)"
    and "exclusive p \<Longrightarrow> exclusive (ps t) \<or> readers c = 0"
  shows "ctrl_ok (ps(t := p)) c"
proof -
  have r: "{u. reading ((ps(t := p)) u)} = {u. reading (ps u)}" using assms(2) by auto
  have w: "writing ((ps(t := p)) u) = writing (ps u)" for u using assms(3) by simp
  have "\<not> reading (ps u)" if "exclusive ((ps(t := p)) v)" for u v
  proof (cases "exclusive (ps v)")
    case False
    with that assms(4) have "readers c = 0" by (auto split: if_splits)
    then show ?thesis using assms(1) by (simp add: ctrl_ok_def)
  qed (use assms(1) in \<open>auto simp: ctrl_ok_def\<close>)
  then have "\<not> reading ((ps(t := p)) u)" if "exclusive ((ps(t := p)) v)" for u v
    using that assms(2) by auto
  with assms(1) r w show ?thesis unfolding ctrl_ok_def by metis
qed

lemma ctrl_ok_read_begin:
  fixes ps :: "'t::finite \<Rightarrow> rwm_pc thread_state"
  assumes c: "ctrl_ok ps c" and card: "CARD('t) < 2 ^ 16" and w: "writers c = 0"
    and t: "\<not> reading (ps t)" and p: "reading p"
  shows "ctrl_ok (ps(t := p)) (c\<lparr>readers := readers c + 1\<rparr>)"
proof -
  have nw: "\<not> writing (ps u)" for u using c w by (auto simp: ctrl_ok_def split: if_splits)
  then have nw': "\<not> writing ((ps(t := p)) u)" for u using p writing_not_reading by auto
  then have ne: "\<not> exclusive ((ps(t := p)) u)" for u using exclusive_writing by blast
  have "card {u. reading (ps u)} \<le> CARD('t)" by (rule card_mono) auto
  then have "unat (readers c) + 1 < 2 ^ LENGTH(16)"
    using c card t p card_reading_insert [of ps t p] card_mono [of UNIV "{u. reading ((ps(t := p)) u)}"]
    by (simp add: ctrl_ok_def)
  then have "unat (readers c + 1) = Suc (unat (readers c))" using unat_add_split [of "readers c" 1] by simp
  with c w nw nw' ne t p card_reading_insert [of ps t p] show ?thesis by (simp add: ctrl_ok_def)
qed

lemma ctrl_ok_read_end:
  fixes ps :: "'t::finite \<Rightarrow> rwm_pc thread_state"
  assumes c: "ctrl_ok ps c" and t: "reading (ps t)"
  shows "readers c \<noteq> 0 \<and> ctrl_ok (ps(t := Idle)) (c\<lparr>readers := readers c - 1\<rparr>)"
proof -
  have card: "unat (readers c) = Suc (card {u. reading ((ps(t := Idle)) u)})"
    using c t card_reading_remove [of ps t Idle] by (simp add: ctrl_ok_def)
  then have nz: "readers c \<noteq> 0" by auto
  have w: "writing ((ps(t := Idle)) u) = writing (ps u)" for u
    using t writing_not_reading by auto
  have "unat (readers c - 1) = card {u. reading ((ps(t := Idle)) u)}"
    using card unat_diff_split [of "readers c" 1] by simp
  with c w nz show ?thesis by (auto simp: ctrl_ok_def)
qed

lemma ctrl_ok_write_begin:
  fixes ps :: "'t::finite \<Rightarrow> rwm_pc thread_state"
  assumes c: "ctrl_ok ps c" and w: "writers c = 0" and t: "\<not> reading (ps t)"
    and p: "writing p" "exclusive p \<Longrightarrow> readers c = 0"
  shows "ctrl_ok (ps(t := p)) (c\<lparr>writers := 1\<rparr>)"
proof -
  have nw: "\<not> writing (ps u)" for u using c w by (auto simp: ctrl_ok_def split: if_splits)
  then have ne: "\<not> exclusive (ps u)" for u using exclusive_writing by blast
  have r: "{u. reading ((ps(t := p)) u)} = {u. reading (ps u)}"
    using t p writing_not_reading by auto
  have "\<not> reading (ps u)" if "exclusive p" for u
    using c p(2) [OF that] by (simp add: ctrl_ok_def)
  with c nw ne r p writing_not_reading show ?thesis by (auto simp: ctrl_ok_def)
qed

lemma ctrl_ok_write_end:
  fixes ps :: "'t::finite \<Rightarrow> rwm_pc thread_state"
  assumes c: "ctrl_ok ps c" and t: "exclusive (ps t)"
  shows "ctrl_ok (ps(t := Idle)) \<lparr>readers = 0, writers = 0\<rparr>"
proof -
  have "\<not> reading ((ps(t := Idle)) u)" for u using c t by (auto simp: ctrl_ok_def)
  moreover have "\<not> writing ((ps(t := Idle)) u)" for u
    using c exclusive_writing [OF t] by (auto simp: ctrl_ok_def)
  moreover have "\<not> exclusive ((ps(t := Idle)) u)" for u
    using calculation(2) exclusive_writing by blast
  ultimately show ?thesis by (simp add: ctrl_ok_def)
qed

subsection \<open>Memory\<close>

lemma rwm_object_frame:
  assumes "\<And>x. x \<in> region a 16 \<Longrightarrow> m x = m' x"
  shows "load CellSyncRwm_ctrl m a = load CellSyncRwm_ctrl m' a" "fields_ok a B n m = fields_ok a B n m'"
proof -
  have sub: "region a 4 \<subseteq> region a 16" "region (a + 4) 4 \<subseteq> region a 16" "region (a + 8) 8 \<subseteq> region a 16"
    using region_sub [of 4 4 16 a] region_sub [of 8 8 16 a] by (auto simp: region_def)
  show "load CellSyncRwm_ctrl m a = load CellSyncRwm_ctrl m' a"
    using sub assms by (intro rwm_ctrl.load_cong) auto
  have "load be32 m (a + 4) = load be32 m' (a + 4)" "load be64 m (a + 8) = load be64 m' (a + 8)"
    using sub assms by (auto intro!: be32.load_cong be64.load_cong)
  then show "fields_ok a B n m = fields_ok a B n m'"
    by (simp add: fields_ok_def rwm_size_def rwm_buffer_def)
qed

lemma fields_ok_ctrl: "fields_ok a B n (store CellSyncRwm_ctrl m a c) = fields_ok a B n m"
proof -
  have "apart (a + 4) 4 a 4" "apart (a + 8) 8 a 4"
    using apart_offsets [of 0 4 4 4 a] apart_offsets [of 0 4 8 8 a] by (simp_all add: apart_sym)
  then show ?thesis
    by (auto simp: fields_ok_def rwm_size_def rwm_buffer_def rwm_ctrl.load_other)
qed

lemma data_ok_frame:
  assumes "\<And>x. x \<in> region B n \<Longrightarrow> m x = m' x" "\<And>x. x \<in> region b n \<Longrightarrow> m x = m' x" "n \<le> 0x4000"
  shows "data_ok B n b m p = data_ok B n b m' p"
  using assms copied_cong [of B n m m' b] copied_cong [of b n m m' B]
  by (induction p rule: reading.induct) (auto elim!: data_ok.elims)

lemma data_ok_passive: "\<not> reading p \<Longrightarrow> \<not> exclusive p \<Longrightarrow> data_ok B n b m p = data_ok B n b m' p"
  by (cases p; cases "case p of InCall w \<Rightarrow> w | Dead w \<Rightarrow> w | Idle \<Rightarrow> ReadDone") auto

subsection \<open>Steps\<close>

lemma rwm_inv_ctrl:
  assumes inv: "rwm_inv a B n buf ps m" and c: "ctrl_ok (ps(t := p)) c" and p: "data_ok B n (buf t) m p"
  shows "rwm_inv a B n buf (ps(t := p)) (store CellSyncRwm_ctrl m a c)"
proof -
  have lay: "n \<le> 0x4000" "apart B n a 16" "apart (buf u) n a 16" for u
    using inv by (auto simp: rwm_inv_def rwm_layout_def)
  have eq: "store CellSyncRwm_ctrl m a c x = m x" if "x \<notin> region a 16" for x
    using that region_mono [of 4 16 a] by (intro rwm_ctrl.store_outside) auto
  have "data_ok B n (buf u) (store CellSyncRwm_ctrl m a c) q = data_ok B n (buf u) m q" for u q
    using lay by (intro data_ok_frame eq) (auto dest: apart_outside)
  with inv c p show ?thesis by (auto simp: rwm_inv_def mem_simps fields_ok_ctrl)
qed

lemma rwm_inv_pc:
  "rwm_inv a B n buf ps m \<Longrightarrow> ctrl_ok (ps(t := p)) (load CellSyncRwm_ctrl m a) \<Longrightarrow>
     data_ok B n (buf t) m p \<Longrightarrow> rwm_inv a B n buf (ps(t := p)) m"
  using rwm_inv_ctrl [of a B n buf ps m t p "load CellSyncRwm_ctrl m a"] by (simp add: mem_simps)

lemma rwm_inv_same:
  assumes inv: "rwm_inv a B n buf ps m" and p: "data_ok B n (buf t) m p"
    and "reading p = reading (ps t)" "writing p = writing (ps t)" "exclusive p = exclusive (ps t)"
  shows "rwm_inv a B n buf (ps(t := p)) m"
proof (rule rwm_inv_pc [OF inv _ p])
  show "ctrl_ok (ps(t := p)) (load CellSyncRwm_ctrl m a)"
    using inv assms(3-5) by (intro ctrl_ok_same) (auto simp: rwm_inv_def)
qed

text \<open>A thread writes into its own buffer, or, while it excludes everyone else, into the shared one.\<close>

lemma rwm_inv_own:
  assumes inv: "rwm_inv a B n buf ps m" and eq: "\<And>x. x \<notin> region (buf t) n \<Longrightarrow> m' x = m x"
    and p: "data_ok B n (buf t) m' p"
    and cls: "reading p = reading (ps t)" "writing p = writing (ps t)" "exclusive p = exclusive (ps t)"
  shows "rwm_inv a B n buf (ps(t := p)) m'"
proof -
  have lay: "n \<le> 0x4000" "apart a 16 (buf t) n" "apart B n (buf t) n"
      "\<And>u. u \<noteq> t \<Longrightarrow> apart (buf u) n (buf t) n"
    using inv by (auto simp: rwm_inv_def rwm_layout_def intro: apart_sym)
  have obj: "load CellSyncRwm_ctrl m' a = load CellSyncRwm_ctrl m a" "fields_ok a B n m' = fields_ok a B n m"
    using lay eq by (auto intro!: rwm_object_frame dest: apart_outside)
  have "data_ok B n (buf u) m' (ps u) = data_ok B n (buf u) m (ps u)" if "u \<noteq> t" for u
    using lay that by (intro data_ok_frame eq) (auto dest: apart_outside)
  moreover have "ctrl_ok (ps(t := p)) (load CellSyncRwm_ctrl m a)"
    using inv cls by (intro ctrl_ok_same) (auto simp: rwm_inv_def)
  ultimately show ?thesis using inv p obj by (auto simp: rwm_inv_def)
qed

lemma rwm_inv_shared:
  assumes inv: "rwm_inv a B n buf ps m" and eq: "\<And>x. x \<notin> region B n \<Longrightarrow> m' x = m x"
    and p: "data_ok B n (buf t) m' p" and ex: "exclusive (ps t)" "exclusive p"
  shows "rwm_inv a B n buf (ps(t := p)) m'"
proof -
  have lay: "apart a 16 B n" using inv by (auto simp: rwm_inv_def rwm_layout_def intro: apart_sym)
  have obj: "load CellSyncRwm_ctrl m' a = load CellSyncRwm_ctrl m a" "fields_ok a B n m' = fields_ok a B n m"
    using lay eq by (auto intro!: rwm_object_frame dest: apart_outside)
  have c: "ctrl_ok ps (load CellSyncRwm_ctrl m a)" using inv by (simp add: rwm_inv_def)
  have w: "writing (ps t)" "writing p" using ex exclusive_writing by auto
  have "\<not> reading (ps u) \<and> (u \<noteq> t \<longrightarrow> \<not> exclusive (ps u))" for u
    using c ex(1) w(1) exclusive_writing [of "ps u"] unfolding ctrl_ok_def by metis
  then have "data_ok B n (buf u) m' (ps u) = data_ok B n (buf u) m (ps u)" if "u \<noteq> t" for u
    using that by (intro data_ok_passive) auto
  moreover have "ctrl_ok (ps(t := p)) (load CellSyncRwm_ctrl m a)"
    using c ex w by (intro ctrl_ok_same) (auto dest: writing_not_reading)
  ultimately show ?thesis using inv p obj by (auto simp: rwm_inv_def)
qed

lemma rwm_fields:
  assumes "rwm_inv a B n buf ps m"
  shows "vm_cast64 (rwm_buffer m a) = Some B" "unat (rwm_size m a) = n"
proof -
  have f: "rwm_buffer m a = ucast B" "rwm_size m a = of_nat n" "n \<le> 0x4000"
    using assms by (auto simp: rwm_inv_def rwm_layout_def fields_ok_def)
  then show "vm_cast64 (rwm_buffer m a) = Some B" "unat (rwm_size m a) = n" by simp_all
qed

lemma rwm_copy_own:
  assumes inv: "rwm_inv a B n buf ps m" and pc: "ps t = InCall (ReadCopy d s k i)" and i: "i < k"
  shows "rwm_inv a B n buf (ps(t := InCall (ReadCopy d s k (i + 1)))) (m(d + of_nat i := m (s + of_nat i)))"
proof -
  let ?m = "m(d + of_nat i := m (s + of_nat i))"
  have lay: "n \<le> 0x4000" "apart B n (buf t) n"
    using inv by (auto simp: rwm_inv_def rwm_layout_def intro: apart_sym)
  have "data_ok B n (buf t) m (ps t)" using inv by (simp add: rwm_inv_def)
  then have d: "d = buf t" "s = B" "k = n" "copied m d s i" using pc by auto
  have cp: "copied ?m d s (Suc i)" by (rule copied_update [OF _ _ d(4)]) (use lay d i in auto)
  show ?thesis
    using in_region [of i n d] i d lay cp pc by (intro rwm_inv_own [OF inv]) auto
qed

lemma rwm_copy_shared:
  assumes inv: "rwm_inv a B n buf ps m" and pc: "ps t = InCall (WriteCopy d s k i)" and i: "i < k"
  shows "rwm_inv a B n buf (ps(t := InCall (WriteCopy d s k (i + 1)))) (m(d + of_nat i := m (s + of_nat i)))"
proof -
  let ?m = "m(d + of_nat i := m (s + of_nat i))"
  have lay: "n \<le> 0x4000" "apart (buf t) n B n"
    using inv by (auto simp: rwm_inv_def rwm_layout_def)
  have "data_ok B n (buf t) m (ps t)" using inv by (simp add: rwm_inv_def)
  then have d: "d = B" "s = buf t" "k = n" "copied m d s i" using pc by auto
  have cp: "copied ?m d s (Suc i)" by (rule copied_update [OF _ _ d(4)]) (use lay d i in auto)
  show ?thesis
    using in_region [of i n d] i d lay cp pc by (intro rwm_inv_shared [OF inv]) auto
qed

lemmas rwm_ctrl_defs = try_read_begin_def try_read_end_def try_write_begin_def
  rwm_ctrl.atomic_op_load compare_and_swap_test_def

lemma rwm_resume_read:
  fixes ps :: "'t::finite \<Rightarrow> rwm_pc thread_state"
  assumes inv: "rwm_inv a B n buf ps m" and pc: "ps t = InCall w"
    and w: "w = ReadLoop b \<or> w = ReadBegun b \<or> w = ReadCopy d s k i \<or> w = ReadDone"
    and st: "resume_call w (rwm_continue stopped a w m) = (p, m')"
  shows "rwm_inv a B n buf (ps(t := p)) m'"
proof -
  have c: "ctrl_ok ps (load CellSyncRwm_ctrl m a)" and card: "CARD('t) < 2 ^ 16"
    and d: "data_ok B n (buf t) m (InCall w)"
    using inv pc by (auto simp: rwm_inv_def dest: spec [of _ t])
  consider "w = ReadLoop b" | "w = ReadBegun b" | "w = ReadCopy d s k i" | "w = ReadDone" using w by blast
  then show ?thesis
  proof cases
    case 1
    have "rwm_inv a B n buf (ps(t := InCall (ReadBegun b)))
        (store CellSyncRwm_ctrl m a ((load CellSyncRwm_ctrl m a)\<lparr>readers := readers (load CellSyncRwm_ctrl m a) + 1\<rparr>))"
      if "writers (load CellSyncRwm_ctrl m a) = 0"
      using d pc 1 that by (intro rwm_inv_ctrl [OF inv] ctrl_ok_read_begin [OF c card]) auto
    moreover have "rwm_inv a B n buf (ps(t := Dead w)) m"
      using pc 1 by (intro rwm_inv_same [OF inv]) auto
    ultimately show ?thesis
      using st inv pc 1 by (auto simp: rwm_ctrl_defs mem_simps fun_upd_idem split: if_splits)
  next
    case 2
    then have "p = InCall (ReadCopy b B n 0)" "m' = m" using st by (simp_all add: rwm_fields [OF inv])
    then show ?thesis using d pc 2 by (auto simp: copied_def intro!: rwm_inv_same [OF inv])
  next
    case 3
    have "rwm_inv a B n buf (ps(t := InCall ReadDone)) m" if "\<not> i < k"
      using pc d 3 that by (intro rwm_inv_same [OF inv]) auto
    then show ?thesis using st pc 3 rwm_copy_own [OF inv, of t d s k i] by (auto split: if_splits)
  next
    case 4
    have "reading (ps t)" using pc 4 by simp
    from ctrl_ok_read_end [OF c this] show ?thesis
      using st 4 by (auto simp: rwm_ctrl_defs intro!: rwm_inv_ctrl [OF inv])
  qed
qed

lemma rwm_resume_write:
  fixes ps :: "'t::finite \<Rightarrow> rwm_pc thread_state"
  assumes inv: "rwm_inv a B n buf ps m" and pc: "ps t = InCall w"
    and w: "w = WriteLoop b \<or> w = WriteDrain b \<or> w = WriteBegun b \<or> w = WriteCopy d s k i \<or> w = WriteDone"
    and st: "resume_call w (rwm_continue stopped a w m) = (p, m')"
  shows "rwm_inv a B n buf (ps(t := p)) m'"
proof -
  have c: "ctrl_ok ps (load CellSyncRwm_ctrl m a)" and d: "data_ok B n (buf t) m (InCall w)"
    using inv pc by (auto simp: rwm_inv_def dest: spec [of _ t])
  consider "w = WriteLoop b" | "w = WriteDrain b" | "w = WriteBegun b" | "w = WriteCopy d s k i" | "w = WriteDone"
    using w by blast
  then show ?thesis
  proof cases
    case 1
    have "rwm_inv a B n buf (ps(t := InCall (WriteDrain b)))
        (store CellSyncRwm_ctrl m a ((load CellSyncRwm_ctrl m a)\<lparr>writers := 1\<rparr>))"
      if "writers (load CellSyncRwm_ctrl m a) = 0"
      using d pc 1 that by (intro rwm_inv_ctrl [OF inv] ctrl_ok_write_begin [OF c]) auto
    moreover have "rwm_inv a B n buf (ps(t := Dead w)) m"
      using pc 1 by (intro rwm_inv_same [OF inv]) auto
    ultimately show ?thesis
      using st inv pc 1 by (auto simp: rwm_ctrl_defs mem_simps fun_upd_idem split: if_splits)
  next
    case 2
    have "rwm_inv a B n buf (ps(t := Dead w)) m"
      using pc 2 by (intro rwm_inv_same [OF inv]) auto
    moreover have "rwm_inv a B n buf (ps(t := InCall (WriteBegun b))) m"
      if "readers (load CellSyncRwm_ctrl m a) = 0"
      using pc d 2 that by (intro rwm_inv_pc [OF inv] ctrl_ok_same [OF c]) auto
    ultimately show ?thesis using st inv pc 2 by (auto simp: fun_upd_idem split: if_splits)
  next
    case 3
    then have "p = InCall (WriteCopy B b n 0)" "m' = m" using st by (simp_all add: rwm_fields [OF inv])
    then show ?thesis using d pc 3 by (auto simp: copied_def intro!: rwm_inv_same [OF inv])
  next
    case 4
    have "rwm_inv a B n buf (ps(t := InCall WriteDone)) m" if "\<not> i < k"
      using pc d 4 that by (intro rwm_inv_same [OF inv]) auto
    then show ?thesis using st pc 4 rwm_copy_shared [OF inv, of t d s k i] by (auto split: if_splits)
  next
    case 5
    then show ?thesis
      using st pc by (auto intro!: rwm_inv_ctrl [OF inv] ctrl_ok_write_end [OF c])
  qed
qed

lemma rwm_enter_inv:
  fixes ps :: "'t::finite \<Rightarrow> rwm_pc thread_state"
  assumes inv: "rwm_inv a B n buf ps m" and pc: "ps t = Idle"
    and st: "f \<in> {cellSyncRwmRead, cellSyncRwmTryRead, cellSyncRwmWrite, cellSyncRwmTryWrite}"
      "enter_call (f a (buf t) m) = (p, m')"
  shows "rwm_inv a B n buf (ps(t := p)) m'"
proof -
  let ?c = "load CellSyncRwm_ctrl m a"
  have c: "ctrl_ok ps ?c" and card: "CARD('t) < 2 ^ 16" and a: "a \<noteq> 0" "aligned a 16" "buf t \<noteq> 0"
    using inv by (auto simp: rwm_inv_def rwm_layout_def)
  have w: "rwm_inv a B n buf (ps(t := InCall (ReadLoop (buf t)))) m"
    "rwm_inv a B n buf (ps(t := InCall (WriteLoop (buf t)))) m" "rwm_inv a B n buf (ps(t := Idle)) m"
    using pc by (auto intro!: rwm_inv_same [OF inv])
  have tr: "rwm_inv a B n buf (ps(t := InCall (ReadBegun (buf t))))
      (store CellSyncRwm_ctrl m a (?c\<lparr>readers := readers ?c + 1\<rparr>))" if "writers ?c = 0"
    using pc that by (intro rwm_inv_ctrl [OF inv] ctrl_ok_read_begin [OF c card]) auto
  have tw: "rwm_inv a B n buf (ps(t := InCall (WriteBegun (buf t))))
      (store CellSyncRwm_ctrl m a (?c\<lparr>writers := 1\<rparr>))" if "?c = \<lparr>readers = 0, writers = 0\<rparr>"
    using pc that by (intro rwm_inv_ctrl [OF inv] ctrl_ok_write_begin [OF c]) auto
  show ?thesis
    using st w tr tw a
    by (auto simp: cellSyncRwmRead_def cellSyncRwmTryRead_def cellSyncRwmWrite_def cellSyncRwmTryWrite_def
        rwm_ctrl_defs mem_simps split: if_splits)
qed

lemma rwm_step_inv:
  fixes ps :: "'t::finite \<Rightarrow> rwm_pc thread_state"
  assumes inv: "rwm_inv a B n buf ps m" and st: "rwm_step a n buf t e (ps t) m = Some (p, m')"
  shows "rwm_inv a B n buf (ps(t := p)) m'"
proof (cases e)
  case (RwmFill bs)
  with st have pc: "ps t = Idle" by (cases "ps t") auto
  with st RwmFill have "p = Idle" "m' = write_bytes m (buf t) bs" "length bs = n"
    by (auto split: if_splits)
  then show ?thesis using pc by (intro rwm_inv_own [OF inv]) (auto intro: write_bytes_outside)
next
  case (RwmStep stopped)
  with st obtain w where pc: "ps t = InCall w" by (cases "ps t") auto
  with st RwmStep have "resume_call w (rwm_continue stopped a w m) = (p, m')" by simp
  then show ?thesis
    using rwm_resume_read [OF inv pc] rwm_resume_write [OF inv pc] by (cases w) blast+
qed (use st rwm_enter_inv [OF inv] in \<open>cases "ps t"; auto\<close>)+

interpretation rwm_threads: thread_invariant "rwm_step a n buf" "rwm_inv a B n buf" for a B n buf
  by unfold_locales (rule rwm_step_inv)

lemma rwm_initialize:
  assumes "rwm_layout a B (unat sz) buf"
  shows "\<exists>m1. cellSyncRwmInitialize a B sz m = (CELL_OK, m1) \<and>
    load CellSyncRwm_ctrl m1 a = \<lparr>readers = 0, writers = 0\<rparr> \<and> fields_ok a B (unat sz) m1"
proof -
  have lay: "a \<noteq> 0" "aligned a 16" "B \<noteq> 0" "aligned B 128" "unat sz mod 128 = 0" "unat sz \<le> 0x4000"
    using assms by (auto simp: rwm_layout_def)
  have "unat (sz mod 128) = 0" using lay by (simp add: unat_mod)
  then have szv: "sz mod 128 = 0" "\<not> sz > 0x4000" using lay by (simp_all add: word_less_nat_alt unat_eq_zero)
  have ap: "apart a 4 (a + 4) 4" "apart a 4 (a + 8) 8" "apart (a + 4) 4 (a + 8) 8"
    using apart_offsets [of 0 4 4 4 a] apart_offsets [of 0 4 8 8 a] apart_offsets [of 4 4 8 8 a] by simp_all
  let ?m1 = "store be32 (store CellSyncRwm_ctrl m a \<lparr>readers = 0, writers = 0\<rparr>) (a + 4) sz"
  have "load CellSyncRwm_ctrl (store be64 ?m1 (a + 8) (ucast B)) a = \<lparr>readers = 0, writers = 0\<rparr>"
    using ap by (simp add: be32.load_other be64.load_other mem_simps)
  moreover have "fields_ok a B (unat sz) (store be64 ?m1 (a + 8) (ucast B))"
    using ap by (simp add: fields_ok_def rwm_size_def rwm_buffer_def be64.load_other mem_simps)
  ultimately show ?thesis using lay szv by (simp add: cellSyncRwmInitialize_def Let_def)
qed

lemma rwm_reachable_inv:
  fixes ps :: "'t::finite \<Rightarrow> rwm_pc thread_state"
  assumes card: "CARD('t) < 2 ^ 16" and lay: "rwm_layout a B (unat sz) buf"
    and reach: "reachable (rwm_step a (unat sz) buf) (\<lambda>_. Idle, snd (cellSyncRwmInitialize a B sz m0)) (ps, m)"
  shows "rwm_inv a B (unat sz) buf ps m"
proof -
  obtain m1 where m1: "cellSyncRwmInitialize a B sz m0 = (0, m1)"
      "load CellSyncRwm_ctrl m1 a = \<lparr>readers = 0, writers = 0\<rparr>" "fields_ok a B (unat sz) m1"
    using rwm_initialize [OF lay] by blast
  then have "rwm_inv a B (unat sz) buf (\<lambda>_::'t. Idle) m1"
    using card lay by (simp add: rwm_inv_def ctrl_ok_def)
  then show ?thesis using rwm_threads.reachable_inv [OF reach, of B] m1 by simp
qed

text \<open>Only a thread with exclusive access changes the shared buffer.\<close>

lemma rwm_shared_frame:
  assumes inv: "rwm_inv a B n buf ps m" and ex: "\<not> exclusive (ps t)"
    and st: "rwm_step a n buf t e (ps t) m = Some (p, m')"
  shows "read_bytes m' B n = read_bytes m B n"
proof -
  have lay: "n \<le> 0x4000" "apart B n a 4" "apart B n (buf t) n"
    using inv region_mono [of 4 16 a] unfolding rwm_inv_def rwm_layout_def by (auto simp: apart_def)
  have d: "data_ok B n (buf t) m (ps t)" using inv by (simp add: rwm_inv_def)
  have ctrl: "read_bytes (store CellSyncRwm_ctrl m a c) B n = read_bytes m B n" for c
    using lay by (intro rwm_ctrl.read_store_other) auto
  have own: "read_bytes (m(buf t + of_nat i := v)) B n = read_bytes m B n" if "i < n" for i v
    using that lay in_region [of i n "buf t"] by (intro read_bytes_cong) (auto dest: apart_outside)
  show ?thesis
  proof (cases "ps t")
    case Idle
    with st lay ctrl show ?thesis
      by (cases e) (auto simp: cellSyncRwmRead_def cellSyncRwmTryRead_def cellSyncRwmWrite_def
          cellSyncRwmTryWrite_def rwm_ctrl_defs read_write_apart split: if_splits)
  next
    case (InCall w)
    then obtain stopped where e: "e = RwmStep stopped" using st by (cases e) auto
    have "resume_call w (rwm_continue stopped a w m) = (p, m')" using st InCall e by simp
    then show ?thesis
      using d ex ctrl own InCall
      by (cases w) (auto simp: rwm_ctrl_defs mem_simps split: if_splits option.splits)
  qed (use st in \<open>cases e; auto\<close>)
qed

text \<open>A copy loop ends: it takes one step per byte and one to leave.\<close>

lemma rwm_read_copy_ends:
  "ps t = InCall (ReadCopy d s (i + k) i) \<Longrightarrow>
   \<exists>m'. run_schedule (rwm_step a n buf) (replicate (Suc k) (t, RwmStep False)) (ps, m) =
     Some (ps(t := InCall ReadDone), m')"
proof (induction k arbitrary: ps i m)
  case 0
  then show ?case by (intro exI [of _ m]) (simp add: fun_eq_iff)
next
  case (Suc k)
  let ?ps = "ps(t := InCall (ReadCopy d s (Suc i + k) (Suc i)))"
    and ?m = "m(d + of_nat i := m (s + of_nat i))"
  have "rwm_step a n buf t (RwmStep False) (ps t) m = Some (InCall (ReadCopy d s (Suc i + k) (Suc i)), ?m)"
    using Suc.prems by simp
  then have "run_schedule (rwm_step a n buf) (replicate (Suc (Suc k)) (t, RwmStep False)) (ps, m) =
      run_schedule (rwm_step a n buf) (replicate (Suc k) (t, RwmStep False)) (?ps, ?m)"
    by (simp only: replicate_Suc [of "Suc k"] run_schedule.simps fst_conv snd_conv option.case prod.case)
  moreover obtain m' where "run_schedule (rwm_step a n buf) (replicate (Suc k) (t, RwmStep False)) (?ps, ?m) =
      Some (?ps(t := InCall ReadDone), m')"
    using Suc.IH [of ?ps "Suc i" ?m] by (auto simp only: fun_upd_same)
  ultimately show ?case by (simp only: fun_upd_upd) blast
qed

section \<open>Properties\<close>

text \<open>C5: readers and writers exclude each other. From an initialised object, whatever the
  interleaving of \<open>Read\<close>, \<open>TryRead\<close>, \<open>Write\<close> and \<open>TryWrite\<close> and of threads stopped in their wait
  loops, while one thread is between the end of a writer's wait and the release of the object,
  no other thread is there and no thread is between \<open>try_read_begin\<close> and \<open>try_read_end\<close>.\<close>

theorem rwm_exclusion:
  fixes ps :: "'t::finite \<Rightarrow> rwm_pc thread_state"
  assumes "CARD('t) < 2 ^ 16" and "rwm_layout a B (unat sz) buf"
    and "reachable (rwm_step a (unat sz) buf) (\<lambda>_. Idle, snd (cellSyncRwmInitialize a B sz m0)) (ps, m)"
    and "exclusive (ps t)"
  shows "\<not> reading (ps u) \<and> (u \<noteq> t \<longrightarrow> \<not> exclusive (ps u))"
proof -
  have "ctrl_ok ps (load CellSyncRwm_ctrl m a)"
    using rwm_reachable_inv [OF assms(1-3)] by (simp add: rwm_inv_def)
  then show ?thesis using assms(4) exclusive_writing unfolding ctrl_ok_def by metis
qed

theorem rwm_exclusion_witness:
  "\<exists>ps m. reachable (rwm_step 0x1000 128 (\<lambda>t::bool. if t then 0x3000 else 0x4000))
      (\<lambda>_. Idle, snd (cellSyncRwmInitialize 0x1000 0x2000 128 (\<lambda>x. ucast x))) (ps, m) \<and>
    ps True = InCall (WriteBegun 0x3000) \<and> ps False = InCall (ReadLoop 0x4000) \<and> \<not> reading (ps False)"
proof -
  let ?buf = "\<lambda>t::bool. if t then 0x3000 else 0x4000 :: addr"
  let ?c0 = "(\<lambda>_::bool. Idle, snd (cellSyncRwmInitialize 0x1000 0x2000 128 (\<lambda>x. ucast x)))"
  have lay: "rwm_layout 0x1000 0x2000 (unat (128 :: u32)) ?buf"
    by (auto simp: rwm_layout_def aligned_def intro!: apartI)
  obtain m1 where m1: "snd ?c0 = m1" "load CellSyncRwm_ctrl m1 0x1000 = \<lparr>readers = 0, writers = 0\<rparr>"
    using rwm_initialize [OF lay, of "\<lambda>x. ucast x"] by auto
  obtain ps m where run: "run_schedule (rwm_step 0x1000 128 ?buf)
      [(True, RwmWrite), (True, RwmStep False), (False, RwmRead), (False, RwmStep False), (True, RwmStep False)]
      ?c0 = Some (ps, m)"
    and ps: "ps True = InCall (WriteBegun 0x3000)" "ps False = InCall (ReadLoop 0x4000)"
    using m1 by (simp add: cellSyncRwmRead_def cellSyncRwmWrite_def aligned_def rwm_ctrl_defs mem_simps)
  have reach: "reachable (rwm_step 0x1000 128 ?buf) ?c0 (ps, m)"
    by (rule run_schedule_reachable [OF reachable_init run])
  have "\<not> reading (ps False)"
    using rwm_exclusion [OF _ lay, of "\<lambda>x. ucast x" ps m True False] reach ps by simp
  with reach ps show ?thesis by blast
qed

text \<open>C6: reads and writes are whole. A thread that has left the copy of a read holds exactly
  the bytes of the shared buffer, although the copy is byte by byte and interleaved with the
  other threads; a writer about to release the object has put exactly its own bytes there; and
  only a thread with exclusive access ever changes the shared buffer, so a reader sees the bytes
  of one finished write.\<close>

theorem rwm_whole_copies:
  fixes ps :: "'t::finite \<Rightarrow> rwm_pc thread_state"
  assumes "CARD('t) < 2 ^ 16" and "rwm_layout a B (unat sz) buf"
    and "reachable (rwm_step a (unat sz) buf) (\<lambda>_. Idle, snd (cellSyncRwmInitialize a B sz m0)) (ps, m)"
  shows "(ps t = InCall ReadDone \<longrightarrow> read_bytes m (buf t) (unat sz) = read_bytes m B (unat sz)) \<and>
    (ps t = InCall WriteDone \<longrightarrow> read_bytes m B (unat sz) = read_bytes m (buf t) (unat sz)) \<and>
    (\<not> exclusive (ps t) \<and> rwm_step a (unat sz) buf t e (ps t) m = Some (p, m') \<longrightarrow>
       read_bytes m' B (unat sz) = read_bytes m B (unat sz))"
proof -
  note inv = rwm_reachable_inv [OF assms]
  then have "data_ok B (unat sz) (buf t) m (ps t)" by (simp add: rwm_inv_def)
  then show ?thesis using rwm_shared_frame [OF inv] by (auto simp: copied_read_bytes)
qed

theorem rwm_whole_copies_witness:
  "\<exists>ps m. reachable (rwm_step 0x1000 128 (\<lambda>t::bool. if t then 0x3000 else 0x4000))
      (\<lambda>_. Idle, snd (cellSyncRwmInitialize 0x1000 0x2000 128 (\<lambda>x. ucast x))) (ps, m) \<and>
    ps True = InCall ReadDone \<and> read_bytes m 0x3000 128 = read_bytes m 0x2000 128"
proof -
  let ?buf = "\<lambda>t::bool. if t then 0x3000 else 0x4000 :: addr"
  let ?c0 = "(\<lambda>_::bool. Idle, snd (cellSyncRwmInitialize 0x1000 0x2000 128 (\<lambda>x. ucast x)))"
  have lay: "rwm_layout 0x1000 0x2000 (unat (128 :: u32)) ?buf"
    by (auto simp: rwm_layout_def aligned_def intro!: apartI)
  obtain m1 where m1: "snd ?c0 = m1" "load CellSyncRwm_ctrl m1 0x1000 = \<lparr>readers = 0, writers = 0\<rparr>"
      "fields_ok 0x1000 0x2000 128 m1"
    using rwm_initialize [OF lay, of "\<lambda>x. ucast x"] by auto
  obtain ps m where run: "run_schedule (rwm_step 0x1000 128 ?buf)
      [(True, RwmRead), (True, RwmStep False), (True, RwmStep False)] ?c0 = Some (ps, m)"
    and ps: "ps True = InCall (ReadCopy 0x3000 0x2000 128 0)"
    using m1 fields_ok_ctrl [of "0x1000" "0x2000" 128 m1 "\<lparr>readers = 1, writers = 0\<rparr>"]
      vm_cast64_ucast [where p = "0x2000"]
    by (simp add: cellSyncRwmRead_def aligned_def rwm_ctrl_defs fields_ok_def)
  have "ps True = InCall (ReadCopy 0x3000 0x2000 (0 + 128) 0)" by (simp add: ps)
  from rwm_read_copy_ends [of ps True, OF this] obtain m' where
    run': "run_schedule (rwm_step 0x1000 128 ?buf) (replicate (Suc 128) (True, RwmStep False)) (ps, m) =
      Some (ps(True := InCall ReadDone), m')"
    by blast
  have reach: "reachable (rwm_step 0x1000 128 ?buf) ?c0 (ps(True := InCall ReadDone), m')"
    by (rule run_schedule_reachable [OF run_schedule_reachable [OF reachable_init run] run'])
  have sz: "unat (128 :: u32) = 128" by simp
  have "read_bytes m' 0x3000 128 = read_bytes m' 0x2000 128"
    using rwm_whole_copies [OF _ lay, unfolded sz, OF _ reach, where t = True] by simp
  with reach show ?thesis by (intro exI [of _ "ps(True := InCall ReadDone)"]) auto
qed

end
