(* ===== verification/Bit_Field.thy ===== *)
theory Bit_Field
  imports Prelude
begin

text \<open>
  \<^verbatim>\<open>bf_t<T, I, N>\<close> of \<^verbatim>\<open>Utilities/BitField.h\<close> for unsigned \<open>T\<close>: \<open>N\<close> bits of a
  machine word from position \<open>I\<close>. A field is a lens on the word; fields that do not overlap
  are independent. Clients use the locale \<open>field_laws\<close>.
\<close>

definition vmask :: "nat \<Rightarrow> 'a::len word" where
  "vmask n = drop_bit (LENGTH('a) - n) (- 1)"

definition data_mask :: "nat \<Rightarrow> nat \<Rightarrow> 'a::len word" where
  "data_mask i n = push_bit i (vmask n)"

definition bf_extract :: "nat \<Rightarrow> nat \<Rightarrow> 'a::len word \<Rightarrow> 'a word" where
  "bf_extract i n x = drop_bit i x AND vmask n"

definition bf_insert :: "nat \<Rightarrow> nat \<Rightarrow> 'a::len word \<Rightarrow> 'a word" where
  "bf_insert i n v = push_bit i (v AND vmask n)"

text \<open>The assignment operator, and the conversion to \<open>bool\<close>.\<close>

definition bf_assign :: "nat \<Rightarrow> nat \<Rightarrow> 'a::len word \<Rightarrow> 'a word \<Rightarrow> 'a word" where
  "bf_assign i n x v = (x AND NOT (data_mask i n)) OR bf_insert i n v"

definition bf_bool :: "nat \<Rightarrow> nat \<Rightarrow> 'a::len word \<Rightarrow> bool" where
  "bf_bool i n x \<longleftrightarrow> x AND data_mask i n \<noteq> 0"

lemma bit_vmask [bit_simps]:
  "n \<le> LENGTH('a) \<Longrightarrow> bit (vmask n :: 'a::len word) j \<longleftrightarrow> j < n"
  by (auto simp: vmask_def bit_simps)

lemmas bf_defs = bf_extract_def bf_insert_def bf_assign_def bf_bool_def data_mask_def

locale field_laws =
  fixes get :: "'s \<Rightarrow> 'a::len word" and put :: "'s \<Rightarrow> 'a word \<Rightarrow> 's" and width :: nat
  assumes get_put: "get (put s v) = take_bit width v"
    and put_get: "put s (get s) = s"
    and put_put: "put (put s v) w = put s w"
begin

lemma get_put_small: "unat v < 2 ^ width \<Longrightarrow> get (put s v) = v"
  by (simp add: get_put take_bit_word_eq_self unsigned_take_bit_eq word_unat_eq_iff take_bit_nat_eq_self)

lemma get_bound: "unat (get s) < 2 ^ width"
proof -
  have "get s = take_bit width (get s)" using get_put [of s "get s"] by (simp add: put_get)
  then have "unat (get s) = take_bit width (unat (get s))" by (metis unsigned_take_bit_eq)
  then show ?thesis by (metis take_bit_nat_less_exp)
qed

end

lemma bf_laws:
  "i + n \<le> LENGTH('a) \<Longrightarrow> field_laws (bf_extract i n) (bf_assign i n :: 'a::len word \<Rightarrow> _) n"
  by unfold_locales (auto simp: bf_defs bit_simps intro!: bit_eqI)

lemma bf_other:
  fixes x :: "'a::len word"
  assumes "i + n \<le> LENGTH('a)" "j + k \<le> LENGTH('a)" "j + k \<le> i \<or> i + n \<le> j"
  shows "bf_extract j k (bf_assign i n x v) = bf_extract j k x"
  using assms by (intro bit_eqI) (auto simp: bf_defs bit_simps)

lemma bf_bool_extract: "i + n \<le> LENGTH('a) \<Longrightarrow> bf_bool i n (x :: 'a::len word) \<longleftrightarrow> bf_extract i n x \<noteq> 0"
proof -
  assume *: "i + n \<le> LENGTH('a)"
  have "bit (x AND data_mask i n) j \<longleftrightarrow> i \<le> j \<and> bit (bf_extract i n x) (j - i)" for j
    using * by (auto simp: bf_defs bit_simps dest: bit_imp_le_length)
  moreover have "bit (bf_extract i n x) j \<longleftrightarrow> bit (x AND data_mask i n) (i + j)" for j
    using * by (auto simp: bf_defs bit_simps dest: bit_imp_le_length)
  ultimately show ?thesis unfolding bf_bool_def by (metis bit_0_eq bot_apply bot_bool_def bit_eq_iff)
qed

text \<open>C7: bit fields are independent lenses. For any word width, a field that fits the word
  reads back the low \<open>n\<close> bits of what was assigned, assigning what was read changes nothing, a
  second assignment replaces the first, a disjoint field keeps its value, and the conversion to
  \<open>bool\<close> tells whether the value is nonzero.\<close>

theorem bf_independent_lenses:
  fixes x v :: "'a::len word"
  assumes "i + n \<le> LENGTH('a)" "j + k \<le> LENGTH('a)" "j + k \<le> i \<or> i + n \<le> j"
  shows "bf_extract i n (bf_assign i n x v) = take_bit n v \<and>
    bf_assign i n x (bf_extract i n x) = x \<and>
    bf_assign i n (bf_assign i n x v) w = bf_assign i n x w \<and>
    bf_extract j k (bf_assign i n x v) = bf_extract j k x \<and>
    (bf_bool i n x \<longleftrightarrow> bf_extract i n x \<noteq> 0)"
proof -
  note l = bf_laws [OF assms(1)]
  show ?thesis
    using field_laws.get_put [OF l] field_laws.put_get [OF l] field_laws.put_put [OF l]
      bf_other [OF assms] bf_bool_extract [OF assms(1)] by simp
qed

theorem bf_independent_lenses_witness:
  "bf_extract 24 8 (bf_assign 0 24 (0x01000005 :: u32) 7) = 1 \<and>
   bf_extract 0 24 (bf_assign 0 24 (0x01000005 :: u32) 7) = 7"
proof -
  have "bf_extract 24 8 (0x01000005 :: u32) = 1" by code_simp
  then show ?thesis
    using bf_independent_lenses [of 0 24 24 8 "0x01000005 :: u32" 7] by simp
qed

section \<open>Signed fields and field packs\<close>

text \<open>The signed branch of \<open>extract\<close>: shift the field to the top and back arithmetically.\<close>

definition bf_sextract :: "nat \<Rightarrow> nat \<Rightarrow> 'a::len word \<Rightarrow> 'a word" where
  "bf_sextract i n x = signed_drop_bit (LENGTH('a) - n) (push_bit (LENGTH('a) - i - n) x)"

lemma bit_bf_sextract [bit_simps]:
  assumes "0 < n" "i + n \<le> LENGTH('a)"
  shows "bit (bf_sextract i n (x :: 'a::len word)) j \<longleftrightarrow>
    j < LENGTH('a) \<and> bit x (i + (if j < n then j else n - 1))"
  using assms by (auto simp: bf_sextract_def bit_simps min_def not_less) (auto simp: algebra_simps)

lemma bf_sextract_eq:
  assumes "0 < n" "i + n \<le> LENGTH('a)"
  shows "bf_sextract i n (x :: 'a::len word) = signed_take_bit (n - 1) (bf_extract i n x)"
proof (rule bit_word_eqI)
  fix j
  assume "j < LENGTH('a)"
  with assms show "bit (bf_sextract i n x) j \<longleftrightarrow> bit (signed_take_bit (n - 1) (bf_extract i n x)) j"
    by (cases "j < n - 1"; cases "j = n - 1") (auto simp: bit_simps bf_extract_def min_def add.commute)
qed

text \<open>\<open>cf_t\<close> concatenates fields from left to right; an \<open>ff_t\<close> member contributes constant
  bits (packs that have one are only read).\<close>

datatype cf_field = Unsigned nat nat | Signed nat nat | Fixed nat nat

fun cf_bits :: "cf_field \<Rightarrow> nat" where
  "cf_bits (Unsigned i n) = n"
| "cf_bits (Signed i n) = n"
| "cf_bits (Fixed v n) = n"

fun cf_bitsize :: "cf_field list \<Rightarrow> nat" where
  "cf_bitsize [] = 0"
| "cf_bitsize (f # fs) = cf_bits f + cf_bitsize fs"

fun cf_get :: "cf_field \<Rightarrow> 'a::len word \<Rightarrow> 'a word" where
  "cf_get (Unsigned i n) x = bf_extract i n x"
| "cf_get (Signed i n) x = bf_sextract i n x"
| "cf_get (Fixed v n) x = of_nat v"

fun cf_extract :: "cf_field list \<Rightarrow> 'a::len word \<Rightarrow> 'a word" where
  "cf_extract [] x = 0"
| "cf_extract (f # fs) x = push_bit (cf_bitsize fs) (cf_get f x) OR cf_extract fs x"

fun cf_data_mask :: "cf_field list \<Rightarrow> 'a::len word" where
  "cf_data_mask [] = 0"
| "cf_data_mask (Unsigned i n # fs) = data_mask i n OR cf_data_mask fs"
| "cf_data_mask (Signed i n # fs) = data_mask i n OR cf_data_mask fs"
| "cf_data_mask (Fixed v n # fs) = cf_data_mask fs"

fun cf_insert :: "cf_field list \<Rightarrow> 'a::len word \<Rightarrow> 'a word" where
  "cf_insert [] v = 0"
| "cf_insert (Unsigned i n # fs) v = bf_insert i n (drop_bit (cf_bitsize fs) v) OR cf_insert fs v"
| "cf_insert (Signed i n # fs) v = bf_insert i n (drop_bit (cf_bitsize fs) v) OR cf_insert fs v"
| "cf_insert (Fixed w n # fs) v = cf_insert fs v"

definition cf_assign :: "cf_field list \<Rightarrow> 'a::len word \<Rightarrow> 'a word \<Rightarrow> 'a word" where
  "cf_assign fs x v = (x AND NOT (cf_data_mask fs)) OR cf_insert fs v"

text \<open>The packs of unsigned fields the code assigns: every member fits, no two overlap.\<close>

fun cf_ok :: "nat \<Rightarrow> (nat \<times> nat) list \<Rightarrow> bool" where
  "cf_ok L [] = True"
| "cf_ok L ((i, n) # ps) \<longleftrightarrow>
     i + n \<le> L \<and> list_all (\<lambda>(j, k). j + k \<le> i \<or> i + n \<le> j) ps \<and> cf_ok L ps"

abbreviation pack :: "(nat \<times> nat) list \<Rightarrow> cf_field list" where
  "pack ps \<equiv> map (\<lambda>(i, n). Unsigned i n) ps"

lemma bit_cf_data_mask:
  "cf_ok LENGTH('a) ps \<Longrightarrow>
    bit (cf_data_mask (pack ps) :: 'a::len word) j \<longleftrightarrow> list_ex (\<lambda>(i, n). i \<le> j \<and> j < i + n) ps"
  by (induction ps) (auto simp: data_mask_def bit_simps dest: bit_imp_le_length)

lemma cf_insert_mask:
  "cf_ok LENGTH('a) ps \<Longrightarrow> bit (cf_insert (pack ps) (v :: 'a::len word)) j \<Longrightarrow>
    bit (cf_data_mask (pack ps) :: 'a word) j"
  by (induction ps) (auto simp: data_mask_def bf_insert_def bit_simps)

lemma cf_extract_agree:
  assumes "cf_ok LENGTH('a) ps"
    and "\<And>j. bit (cf_data_mask (pack ps) :: 'a word) j \<Longrightarrow> bit y j = bit (cf_insert (pack ps) v) j"
    and "cf_bitsize (pack ps) \<le> LENGTH('a)"
  shows "cf_extract (pack ps) y = take_bit (cf_bitsize (pack ps)) (v :: 'a::len word)"
  using assms
proof (induction ps)
  case Nil
  then show ?case by simp
next
  case (Cons p ps)
  obtain i n where p: "p = (i, n)" by (cases p)
  let ?m = "cf_data_mask (pack ps) :: 'a word" and ?k = "cf_bitsize (pack ps)"
  have ok: "cf_ok LENGTH('a) ps" "i + n \<le> LENGTH('a)" and apart: "list_all (\<lambda>(j, k). j + k \<le> i \<or> i + n \<le> j) ps"
    using Cons.prems(1) by (auto simp: p)
  have out: "\<not> bit ?m j" if "i \<le> j" "j < i + n" for j
    using that apart ok by (fastforce simp: bit_cf_data_mask list_all_iff list_ex_iff)
  have in_tail: "\<not> (i \<le> j \<and> j < i + n)" if "bit ?m j" for j using that out by blast
  have "cf_extract (pack ps) y = take_bit ?k v"
  proof (rule Cons.IH [OF ok(1)])
    fix j assume j: "bit ?m j"
    then show "bit y j = bit (cf_insert (pack ps) v) j"
      using Cons.prems(2) [of j] in_tail [OF j] ok by (auto simp: p bf_insert_def bit_simps)
  qed (use Cons.prems(3) in \<open>simp add: p\<close>)
  moreover have "bit y (j + i - ?k) = bit v j" if "?k \<le> j" "j < ?k + n" for j
  proof -
    have r: "i \<le> j + i - ?k" "j + i - ?k < i + n" "j + i - ?k < LENGTH('a)" "j - ?k < n"
      using that ok(2) by auto
    then have "\<not> bit (cf_insert (pack ps) v) (j + i - ?k)" using out cf_insert_mask [OF ok(1)] by blast
    with Cons.prems(2) [of "j + i - ?k"] r that Cons.prems(3) ok(2) show ?thesis
      by (auto simp: p bf_insert_def data_mask_def bit_simps)
  qed
  ultimately show ?case
    using Cons.prems(3) ok
    by (intro bit_eqI) (auto simp: p bf_extract_def bit_simps add.commute not_less dest: bit_imp_le_length)
qed

lemma cf_extract_assign:
  fixes x v :: "'a::len word"
  assumes "cf_ok LENGTH('a) ps" "cf_bitsize (pack ps) \<le> LENGTH('a)"
  shows "cf_extract (pack ps) (cf_assign (pack ps) x v) = take_bit (cf_bitsize (pack ps)) v"
  by (rule cf_extract_agree [OF assms(1) _ assms(2)]) (auto simp: cf_assign_def bit_simps)

lemma bf_extract_cf_assign:
  fixes x v :: "'a::len word"
  assumes "cf_ok LENGTH('a) ps" "j + k \<le> LENGTH('a)" "list_all (\<lambda>(i, n). i + n \<le> j \<or> j + k \<le> i) ps"
  shows "bf_extract j k (cf_assign (pack ps) x v) = bf_extract j k x"
proof -
  have "\<not> bit (cf_data_mask (pack ps) :: 'a word) (j + l)" if "l < k" for l
    using that assms by (fastforce simp: bit_cf_data_mask list_all_iff list_ex_iff)
  with cf_insert_mask [OF assms(1), of v] assms(2) show ?thesis
    by (intro bit_eqI) (auto simp: bf_extract_def cf_assign_def bit_simps)
qed

end
