(* ===== verification/CellSync_Queue.thy ===== *)
theory CellSync_Queue
  imports CellSync_Errors Bit_Field
begin

text \<open>
  \<^verbatim>\<open>cellSyncQueue*\<close> of \<^verbatim>\<open>Emu/Cell/Modules/cellSync.{h,cpp}\<close>: a bounded queue of
  fixed-size entries in a ring buffer of guest memory, with one pusher and one popper at a time.
  The calls are sequences of atomic steps, the entry copies byte by byte; the check of the depth,
  which never changes after initialisation, is taken together with the access that follows it. The concrete queue
  refines an abstract one whose items are a list and whose poppers hold the entry they took.
\<close>

section \<open>The object\<close>

record queue_ctrl =
  x0 :: u32
  x4 :: u32

definition CellSyncQueue_ctrl :: "queue_ctrl codec" where
  "CellSyncQueue_ctrl =
     map_codec (\<lambda>(a, b). \<lparr>x0 = a, x4 = b\<rparr>) (\<lambda>c. (x0 c, x4 c)) (pair_codec be32 be32)"

interpretation queue_ctrl: codec_laws CellSyncQueue_ctrl
  unfolding CellSyncQueue_ctrl_def
  by (intro map_codec_laws pair_codec_laws be32.codec_laws_axioms) auto

lemma csize_queue_ctrl [simp]: "csize CellSyncQueue_ctrl = 8"
  by (simp add: CellSyncQueue_ctrl_def)

text \<open>The bit fields of the two words.\<close>

definition ctrl_next :: "queue_ctrl \<Rightarrow> u32" where "ctrl_next c = bf_extract 0 24 (x0 c)"
definition ctrl_pop :: "queue_ctrl \<Rightarrow> u32" where "ctrl_pop c = bf_extract 24 8 (x0 c)"
definition ctrl_count :: "queue_ctrl \<Rightarrow> u32" where "ctrl_count c = bf_extract 0 24 (x4 c)"
definition ctrl_push :: "queue_ctrl \<Rightarrow> u32" where "ctrl_push c = bf_extract 24 8 (x4 c)"

definition put_next :: "queue_ctrl \<Rightarrow> u32 \<Rightarrow> queue_ctrl" where
  "put_next c v = c\<lparr>x0 := bf_assign 0 24 (x0 c) v\<rparr>"
definition put_pop :: "queue_ctrl \<Rightarrow> u32 \<Rightarrow> queue_ctrl" where
  "put_pop c v = c\<lparr>x0 := bf_assign 24 8 (x0 c) v\<rparr>"
definition put_count :: "queue_ctrl \<Rightarrow> u32 \<Rightarrow> queue_ctrl" where
  "put_count c v = c\<lparr>x4 := bf_assign 0 24 (x4 c) v\<rparr>"
definition put_push :: "queue_ctrl \<Rightarrow> u32 \<Rightarrow> queue_ctrl" where
  "put_push c v = c\<lparr>x4 := bf_assign 24 8 (x4 c) v\<rparr>"

lemmas ctrl_field_defs = ctrl_next_def ctrl_pop_def ctrl_count_def ctrl_push_def
  put_next_def put_pop_def put_count_def put_push_def

text \<open>Field offsets of the 32-byte structure: \<open>ctrl\<close> 0, \<open>size\<close> 8, \<open>depth\<close> 12, \<open>buffer\<close> 16.\<close>

definition queue_size :: "mem \<Rightarrow> addr \<Rightarrow> u32" where "queue_size m queue = load be32 m (queue + 8)"
definition queue_depth :: "mem \<Rightarrow> addr \<Rightarrow> u32" where "queue_depth m queue = load be32 m (queue + 12)"
definition queue_buffer :: "mem \<Rightarrow> addr \<Rightarrow> u64" where "queue_buffer m queue = load be64 m (queue + 16)"

definition check_depth :: "mem \<Rightarrow> addr \<Rightarrow> u32 option" where
  "check_depth m queue =
     (let data = load CellSyncQueue_ctrl m queue; depth = queue_depth m queue
      in if ctrl_next data > depth \<or> ctrl_count data > depth then None else Some depth)"

text \<open>The attempts; \<open>Some position\<close> stands for the result \<open>true\<close> with \<open>*position\<close> set.\<close>

definition try_push_begin :: "u32 \<Rightarrow> queue_ctrl \<Rightarrow> u32 option \<times> queue_ctrl" where
  "try_push_begin depth c =
     (let count = ctrl_count c in
      if ctrl_push c \<noteq> 0 \<or> count + ctrl_pop c \<ge> depth then (None, c)
      else
        let position = ctrl_next c;
            c1 = put_next c (if position + 1 \<noteq> depth then position + 1 else 0);
            c2 = put_count c1 (count + 1)
        in (Some position, put_push c2 1))"

definition push_end :: "queue_ctrl \<Rightarrow> unit \<times> queue_ctrl" where
  "push_end c = ((), put_push c 0)"

definition try_pop_begin :: "u32 \<Rightarrow> queue_ctrl \<Rightarrow> u32 option \<times> queue_ctrl" where
  "try_pop_begin depth c =
     (let count = ctrl_count c in
      if ctrl_pop c \<noteq> 0 \<or> count \<le> ctrl_push c then (None, c)
      else
        let c1 = put_pop c 1;
            position = ctrl_next c1 + depth - count
        in (Some position, put_count c1 (count - 1)))"

definition try_peek_begin :: "u32 \<Rightarrow> queue_ctrl \<Rightarrow> u32 option \<times> queue_ctrl" where
  "try_peek_begin depth c =
     (let count = ctrl_count c in
      if ctrl_pop c \<noteq> 0 \<or> count \<le> ctrl_push c then (None, c)
      else
        let c1 = put_pop c 1
        in (Some (ctrl_next c1 + depth - count), c1))"

definition pop_end :: "queue_ctrl \<Rightarrow> unit \<times> queue_ctrl" where
  "pop_end c = ((), put_pop c 0)"

definition try_clear_begin_1 :: "queue_ctrl \<Rightarrow> bool \<times> queue_ctrl" where
  "try_clear_begin_1 c = (if ctrl_pop c \<noteq> 0 then (False, c) else (True, put_pop c 1))"

definition try_clear_begin_2 :: "queue_ctrl \<Rightarrow> bool \<times> queue_ctrl" where
  "try_clear_begin_2 c = (if ctrl_push c \<noteq> 0 then (False, c) else (True, put_push c 1))"

section \<open>The calls\<close>

definition cellSyncQueueInitialize :: "addr \<Rightarrow> addr \<Rightarrow> u32 \<Rightarrow> u32 \<Rightarrow> mem \<Rightarrow> error_code \<times> mem" where
  "cellSyncQueueInitialize queue buffer sz depth m =
     (if queue = 0 then (sync_code CELL_SYNC_ERROR_NULL_POINTER, m)
      else if sz \<noteq> 0 \<and> buffer = 0 then (sync_code CELL_SYNC_ERROR_NULL_POINTER, m)
      else if \<not> aligned queue 32 \<or> \<not> aligned buffer 16 then (sync_code CELL_SYNC_ERROR_ALIGN, m)
      else if depth = 0 \<or> sz mod 16 \<noteq> 0 then (sync_code CELL_SYNC_ERROR_INVAL, m)
      else
        let m1 = store CellSyncQueue_ctrl m queue \<lparr>x0 = 0, x4 = 0\<rparr>;
            m2 = store be32 m1 (queue + 8) sz;
            m3 = store be32 m2 (queue + 12) depth;
            m4 = store be64 m3 (queue + 16) (ucast buffer)
        in (CELL_OK, m4))"

text \<open>Program points with the locals that are live there: \<open>buffer\<close>, \<open>depth\<close>, \<open>position\<close>, and in
  \<open>std::memcpy(dst, src, n)\<close> the number \<open>i\<close> of bytes copied.\<close>

datatype queue_pc =
    PushLoop addr u32
  | PushBegun addr u32
  | PushCopy u32 addr addr nat nat
  | PushDone u32
  | PopLoop addr u32
  | PeekLoop addr u32
  | PopBegun addr u32 u32
  | PopCopy u32 u32 addr addr nat nat
  | PopDone u32 u32
  | ClearLoop1
  | ClearLoop2
  | ClearDone

text \<open>The checks shared by the six transfer calls, and where each call goes on.\<close>

definition queue_checks :: "addr \<Rightarrow> addr \<Rightarrow> mem \<Rightarrow> (u32 \<Rightarrow> queue_pc call_state \<times> mem) \<Rightarrow> queue_pc call_state \<times> mem" where
  "queue_checks queue buffer m k =
     (if queue = 0 \<or> buffer = 0 then (Returned (sync_code CELL_SYNC_ERROR_NULL_POINTER), m)
      else if \<not> aligned queue 32 then (Returned (sync_code CELL_SYNC_ERROR_ALIGN), m)
      else case check_depth m queue of None \<Rightarrow> (Thrown, m) | Some depth \<Rightarrow> k depth)"

definition cellSyncQueuePush :: "addr \<Rightarrow> addr \<Rightarrow> mem \<Rightarrow> queue_pc call_state \<times> mem" where
  "cellSyncQueuePush queue buffer m = queue_checks queue buffer m (\<lambda>depth. (Waiting (PushLoop buffer depth), m))"

definition cellSyncQueueTryPush :: "addr \<Rightarrow> addr \<Rightarrow> mem \<Rightarrow> queue_pc call_state \<times> mem" where
  "cellSyncQueueTryPush queue buffer m = queue_checks queue buffer m (\<lambda>depth.
     let (r, m') = atomic_op CellSyncQueue_ctrl (try_push_begin depth) m queue
     in (case r of None \<Rightarrow> Returned (sync_code CELL_SYNC_ERROR_BUSY)
         | Some position \<Rightarrow> Waiting (PushBegun buffer position), m'))"

definition cellSyncQueuePop :: "addr \<Rightarrow> addr \<Rightarrow> mem \<Rightarrow> queue_pc call_state \<times> mem" where
  "cellSyncQueuePop queue buffer m = queue_checks queue buffer m (\<lambda>depth. (Waiting (PopLoop buffer depth), m))"

definition cellSyncQueueTryPop :: "addr \<Rightarrow> addr \<Rightarrow> mem \<Rightarrow> queue_pc call_state \<times> mem" where
  "cellSyncQueueTryPop queue buffer m = queue_checks queue buffer m (\<lambda>depth.
     let (r, m') = atomic_op CellSyncQueue_ctrl (try_pop_begin depth) m queue
     in (case r of None \<Rightarrow> Returned (sync_code CELL_SYNC_ERROR_BUSY)
         | Some position \<Rightarrow> Waiting (PopBegun buffer depth position), m'))"

definition cellSyncQueuePeek :: "addr \<Rightarrow> addr \<Rightarrow> mem \<Rightarrow> queue_pc call_state \<times> mem" where
  "cellSyncQueuePeek queue buffer m = queue_checks queue buffer m (\<lambda>depth. (Waiting (PeekLoop buffer depth), m))"

definition cellSyncQueueTryPeek :: "addr \<Rightarrow> addr \<Rightarrow> mem \<Rightarrow> queue_pc call_state \<times> mem" where
  "cellSyncQueueTryPeek queue buffer m = queue_checks queue buffer m (\<lambda>depth.
     let (r, m') = atomic_op CellSyncQueue_ctrl (try_peek_begin depth) m queue
     in (case r of None \<Rightarrow> Returned (sync_code CELL_SYNC_ERROR_BUSY)
         | Some position \<Rightarrow> Waiting (PopBegun buffer depth position), m'))"

definition cellSyncQueueSize :: "addr \<Rightarrow> mem \<Rightarrow> queue_pc call_state" where
  "cellSyncQueueSize queue m =
     (if queue = 0 then Returned (sync_code CELL_SYNC_ERROR_NULL_POINTER)
      else if \<not> aligned queue 32 then Returned (sync_code CELL_SYNC_ERROR_ALIGN)
      else case check_depth m queue of None \<Rightarrow> Thrown
        | Some _ \<Rightarrow> Returned (ctrl_count (load CellSyncQueue_ctrl m queue) AND 0xffffff))"

definition cellSyncQueueClear :: "addr \<Rightarrow> mem \<Rightarrow> queue_pc call_state \<times> mem" where
  "cellSyncQueueClear queue m =
     (if queue = 0 then (Returned (sync_code CELL_SYNC_ERROR_NULL_POINTER), m)
      else if \<not> aligned queue 32 then (Returned (sync_code CELL_SYNC_ERROR_ALIGN), m)
      else case check_depth m queue of None \<Rightarrow> (Thrown, m) | Some _ \<Rightarrow> (Waiting ClearLoop1, m))"

text \<open>One more round of a wait loop that failed: it ends when the thread is being stopped.\<close>

definition again :: "bool \<Rightarrow> queue_pc \<Rightarrow> queue_pc call_state" where
  "again stopped w = (if stopped then Stopped else Waiting w)"

text \<open>The next atomic step of a call that has started.\<close>

fun queue_continue :: "bool \<Rightarrow> addr \<Rightarrow> queue_pc \<Rightarrow> mem \<Rightarrow> queue_pc call_state \<times> mem" where
  "queue_continue stopped queue (PushLoop buffer depth) m =
     (let (r, m') = atomic_op CellSyncQueue_ctrl (try_push_begin depth) m queue
      in (case r of None \<Rightarrow> again stopped (PushLoop buffer depth)
          | Some position \<Rightarrow> Waiting (PushBegun buffer position), m'))"
| "queue_continue stopped queue (PushBegun buffer position) m =
     (case vm_cast64 (queue_buffer m queue) of
        None \<Rightarrow> (Thrown, m)
      | Some p \<Rightarrow> (Waiting (PushCopy position (p + position * queue_size m queue) buffer
                     (unat (queue_size m queue)) 0), m))"
| "queue_continue stopped queue (PushCopy position dst src n i) m =
     (if i < n then (Waiting (PushCopy position dst src n (i + 1)), m(dst + of_nat i := m (src + of_nat i)))
      else (Waiting (PushDone position), m))"
| "queue_continue stopped queue (PushDone position) m =
     (Returned CELL_OK, snd (atomic_op CellSyncQueue_ctrl push_end m queue))"
| "queue_continue stopped queue (PopLoop buffer depth) m =
     (let (r, m') = atomic_op CellSyncQueue_ctrl (try_pop_begin depth) m queue
      in (case r of None \<Rightarrow> again stopped (PopLoop buffer depth)
          | Some position \<Rightarrow> Waiting (PopBegun buffer depth position), m'))"
| "queue_continue stopped queue (PeekLoop buffer depth) m =
     (let (r, m') = atomic_op CellSyncQueue_ctrl (try_peek_begin depth) m queue
      in (case r of None \<Rightarrow> again stopped (PeekLoop buffer depth)
          | Some position \<Rightarrow> Waiting (PopBegun buffer depth position), m'))"
| "queue_continue stopped queue (PopBegun buffer depth position) m =
     (case vm_cast64 (queue_buffer m queue) of
        None \<Rightarrow> (Thrown, m)
      | Some p \<Rightarrow> (Waiting (PopCopy depth position buffer (p + position mod depth * queue_size m queue)
                     (unat (queue_size m queue)) 0), m))"
| "queue_continue stopped queue (PopCopy depth position dst src n i) m =
     (if i < n then (Waiting (PopCopy depth position dst src n (i + 1)), m(dst + of_nat i := m (src + of_nat i)))
      else (Waiting (PopDone depth position), m))"
| "queue_continue stopped queue (PopDone depth position) m =
     (Returned CELL_OK, snd (atomic_op CellSyncQueue_ctrl pop_end m queue))"
| "queue_continue stopped queue ClearLoop1 m =
     (let (ok, m') = atomic_op CellSyncQueue_ctrl try_clear_begin_1 m queue
      in (if ok then Waiting ClearLoop2 else again stopped ClearLoop1, m'))"
| "queue_continue stopped queue ClearLoop2 m =
     (let (ok, m') = atomic_op CellSyncQueue_ctrl try_clear_begin_2 m queue
      in (if ok then Waiting ClearDone else again stopped ClearLoop2, m'))"
| "queue_continue stopped queue ClearDone m =
     (Returned CELL_OK, store CellSyncQueue_ctrl m queue \<lparr>x0 = 0, x4 = 0\<rparr>)"

section \<open>Threads sharing one queue\<close>

text \<open>Thread \<open>t\<close> passes its own buffer \<open>buf t\<close> to every call and fills it between calls.\<close>

datatype queue_event = QFill "u8 list" | QPush | QTryPush | QPop | QTryPop | QPeek | QTryPeek | QClear | QStep bool

fun queue_step :: "addr \<Rightarrow> nat \<Rightarrow> ('t \<Rightarrow> addr) \<Rightarrow> 't \<Rightarrow> queue_event \<Rightarrow> queue_pc thread_state \<Rightarrow> mem \<Rightarrow>
    (queue_pc thread_state \<times> mem) option" where
  "queue_step a sz buf t (QFill bs) Idle m =
     (if length bs = sz then Some (Idle, write_bytes m (buf t) bs) else None)"
| "queue_step a sz buf t QPush Idle m = Some (enter_call (cellSyncQueuePush a (buf t) m))"
| "queue_step a sz buf t QTryPush Idle m = Some (enter_call (cellSyncQueueTryPush a (buf t) m))"
| "queue_step a sz buf t QPop Idle m = Some (enter_call (cellSyncQueuePop a (buf t) m))"
| "queue_step a sz buf t QTryPop Idle m = Some (enter_call (cellSyncQueueTryPop a (buf t) m))"
| "queue_step a sz buf t QPeek Idle m = Some (enter_call (cellSyncQueuePeek a (buf t) m))"
| "queue_step a sz buf t QTryPeek Idle m = Some (enter_call (cellSyncQueueTryPeek a (buf t) m))"
| "queue_step a sz buf t QClear Idle m = Some (enter_call (cellSyncQueueClear a m))"
| "queue_step a sz buf t (QStep stopped) (InCall w) m = Some (resume_call w (queue_continue stopped a w m))"
| "queue_step a sz buf t _ _ m = None"

section \<open>The control words as counters\<close>

lemma ctrl_field_laws:
  "field_laws ctrl_next put_next 24" "field_laws ctrl_pop put_pop 8"
  "field_laws ctrl_count put_count 24" "field_laws ctrl_push put_push 8"
  using bf_laws [of 0 24, where 'a = 32] bf_laws [of 24 8, where 'a = 32]
  by (simp_all add: field_laws_def ctrl_field_defs)

interpretation f_next: field_laws ctrl_next put_next 24 by (rule ctrl_field_laws)
interpretation f_pop: field_laws ctrl_pop put_pop 8 by (rule ctrl_field_laws)
interpretation f_count: field_laws ctrl_count put_count 24 by (rule ctrl_field_laws)
interpretation f_push: field_laws ctrl_push put_push 8 by (rule ctrl_field_laws)

lemma ctrl_other [simp]:
  "ctrl_next (put_pop c v) = ctrl_next c" "ctrl_next (put_count c v) = ctrl_next c"
  "ctrl_next (put_push c v) = ctrl_next c" "ctrl_pop (put_next c v) = ctrl_pop c"
  "ctrl_pop (put_count c v) = ctrl_pop c" "ctrl_pop (put_push c v) = ctrl_pop c"
  "ctrl_count (put_next c v) = ctrl_count c" "ctrl_count (put_pop c v) = ctrl_count c"
  "ctrl_count (put_push c v) = ctrl_count c" "ctrl_push (put_next c v) = ctrl_push c"
  "ctrl_push (put_pop c v) = ctrl_push c" "ctrl_push (put_count c v) = ctrl_push c"
  by (simp_all add: ctrl_field_defs bf_other)

lemma ctrl_zero [simp]:
  "ctrl_next \<lparr>x0 = 0, x4 = 0\<rparr> = 0" "ctrl_pop \<lparr>x0 = 0, x4 = 0\<rparr> = 0"
  "ctrl_count \<lparr>x0 = 0, x4 = 0\<rparr> = 0" "ctrl_push \<lparr>x0 = 0, x4 = 0\<rparr> = 0"
  by (simp_all add: ctrl_field_defs bf_extract_def)

text \<open>A control word whose counters are in range for a queue of \<open>d\<close> entries.\<close>

definition ctrl_range :: "nat \<Rightarrow> queue_ctrl \<Rightarrow> bool" where
  "ctrl_range d c \<longleftrightarrow> 0 < d \<and> d < 2 ^ 24 \<and> unat (ctrl_next c) < d \<and> unat (ctrl_count c) \<le> d \<and>
     unat (ctrl_pop c) \<le> 1 \<and> unat (ctrl_push c) \<le> 1"

lemma unat_plus_1: "Suc (unat x) < 2 ^ 32 \<Longrightarrow> unat (x + 1 :: u32) = Suc (unat x)"
  using unat_add_split [of x 1] by simp

lemma try_push_begin_view:
  assumes r: "ctrl_range d c"
  shows "if ctrl_push c \<noteq> 0 \<or> unat (ctrl_count c) + unat (ctrl_pop c) \<ge> d
    then try_push_begin (of_nat d) c = (None, c)
    else \<exists>c'. try_push_begin (of_nat d) c = (Some (ctrl_next c), c') \<and>
      unat (ctrl_next c') = Suc (unat (ctrl_next c)) mod d \<and> unat (ctrl_count c') = Suc (unat (ctrl_count c)) \<and>
      ctrl_push c' = 1 \<and> ctrl_pop c' = ctrl_pop c"
proof -
  have d: "unat (of_nat d :: u32) = d" using r by (simp add: ctrl_range_def)
  have sum: "unat (ctrl_count c + ctrl_pop c) = unat (ctrl_count c) + unat (ctrl_pop c)"
    using r unat_add_split [of "ctrl_count c" "ctrl_pop c"] by (simp add: ctrl_range_def)
  then have guard: "ctrl_count c + ctrl_pop c \<ge> of_nat d \<longleftrightarrow> unat (ctrl_count c) + unat (ctrl_pop c) \<ge> d"
    by (simp add: word_le_nat_alt d)
  have nx: "unat (ctrl_next c + 1) = Suc (unat (ctrl_next c))"
    using r by (intro unat_plus_1) (simp add: ctrl_range_def)
  let ?n = "if ctrl_next c + 1 \<noteq> of_nat d then ctrl_next c + 1 else 0"
  have "ctrl_next c + 1 = of_nat d \<longleftrightarrow> Suc (unat (ctrl_next c)) = d"
    by (simp add: word_unat_eq_iff d nx)
  then have nm: "unat ?n = Suc (unat (ctrl_next c)) mod d" using r nx by (auto simp: ctrl_range_def)
  have "unat ?n < 2 ^ 24" using r unfolding nm by (simp add: ctrl_range_def) (meson mod_less_divisor less_trans)
  then have 1: "ctrl_next (put_next c ?n) = ?n" by (rule f_next.get_put_small)
  have 2: "ctrl_count (put_count c' (ctrl_count c + 1)) = ctrl_count c + 1 \<and>
      unat (ctrl_count c + 1) = Suc (unat (ctrl_count c))"
    if "unat (ctrl_count c) + unat (ctrl_pop c) < d" for c'
  proof -
    have u: "unat (ctrl_count c + 1) = Suc (unat (ctrl_count c))"
      using that r by (intro unat_plus_1) (simp add: ctrl_range_def)
    then show ?thesis using that r by (simp add: f_count.get_put_small ctrl_range_def)
  qed
  show ?thesis using guard 1 2 nm by (auto simp: try_push_begin_def f_push.get_put_small Let_def)
qed

lemma try_pop_begin_view:
  assumes r: "ctrl_range d c"
  shows "if ctrl_pop c \<noteq> 0 \<or> unat (ctrl_count c) \<le> unat (ctrl_push c)
    then try_pop_begin (of_nat d) c = (None, c) \<and> try_peek_begin (of_nat d) c = (None, c)
    else \<exists>pos c' c''. try_pop_begin (of_nat d) c = (Some pos, c') \<and> try_peek_begin (of_nat d) c = (Some pos, c'') \<and>
      unat pos = unat (ctrl_next c) + d - unat (ctrl_count c) \<and>
      ctrl_next c' = ctrl_next c \<and> Suc (unat (ctrl_count c')) = unat (ctrl_count c) \<and>
      ctrl_push c' = ctrl_push c \<and> ctrl_pop c' = 1 \<and>
      ctrl_next c'' = ctrl_next c \<and> ctrl_count c'' = ctrl_count c \<and>
      ctrl_push c'' = ctrl_push c \<and> ctrl_pop c'' = 1"
proof -
  have d: "unat (of_nat d :: u32) = d" using r by (simp add: ctrl_range_def)
  have guard: "ctrl_count c \<le> ctrl_push c \<longleftrightarrow> unat (ctrl_count c) \<le> unat (ctrl_push c)"
    by (simp add: word_le_nat_alt)
  have "unat (ctrl_next c + of_nat d) = unat (ctrl_next c) + d"
    using r d unat_add_split [of "ctrl_next c" "of_nat d"] by (simp add: ctrl_range_def)
  then have pos: "unat (ctrl_next c + of_nat d - ctrl_count c) = unat (ctrl_next c) + d - unat (ctrl_count c)"
    using r unat_diff_split [of "ctrl_next c + of_nat d" "ctrl_count c"] by (simp add: ctrl_range_def)
  have cnt: "Suc (unat (ctrl_count (put_count c' (ctrl_count c - 1)))) = unat (ctrl_count c)"
    if "unat (ctrl_push c) < unat (ctrl_count c)" for c'
  proof -
    have u: "Suc (unat (ctrl_count c - 1)) = unat (ctrl_count c)"
      using that unat_diff_split [of "ctrl_count c" 1] by simp
    then have "unat (ctrl_count c - 1) < 2 ^ 24" using r by (simp add: ctrl_range_def)
    then show ?thesis using u by (simp add: f_count.get_put_small)
  qed
  show ?thesis
    using guard pos cnt
    by (auto simp: try_pop_begin_def try_peek_begin_def f_pop.get_put_small Let_def not_le)
qed

section \<open>The abstract queue\<close>

text \<open>The items, and per thread the entry it has taken (or peeked) and not yet delivered.\<close>

type_synonym 't aqueue = "u8 list list \<times> ('t \<Rightarrow> u8 list option)"

datatype queue_action = APush "u8 list" | APop "u8 list" | APeek "u8 list" | ADeliver "u8 list" | AClear | ASkip

fun queue_spec :: "nat \<Rightarrow> 't \<Rightarrow> queue_action \<Rightarrow> 't aqueue \<Rightarrow> 't aqueue option" where
  "queue_spec d t (APush x) (L, H) = (if length L < d then Some (L @ [x], H) else None)"
| "queue_spec d t (APop x) (L, H) =
     (case L of [] \<Rightarrow> None | y # L' \<Rightarrow> if x = y \<and> H t = None then Some (L', H(t := Some x)) else None)"
| "queue_spec d t (APeek x) (L, H) =
     (case L of [] \<Rightarrow> None | y # L' \<Rightarrow> if x = y \<and> H t = None then Some (L, H(t := Some x)) else None)"
| "queue_spec d t (ADeliver x) (L, H) = (if H t = Some x then Some (L, H(t := None)) else None)"
| "queue_spec d t AClear (L, H) = Some ([], H)"
| "queue_spec d t ASkip (L, H) = Some (L, H)"

fun ins_pos :: "queue_pc thread_state \<Rightarrow> u32 option" where
  "ins_pos (InCall (PushBegun b pos)) = Some pos"
| "ins_pos (InCall (PushCopy pos dst src n i)) = Some pos"
| "ins_pos (InCall (PushDone pos)) = Some pos"
| "ins_pos _ = None"

fun take_pos :: "queue_pc thread_state \<Rightarrow> u32 option" where
  "take_pos (InCall (PopBegun b d pos)) = Some pos"
| "take_pos (InCall (PopCopy d pos dst src n i)) = Some pos"
| "take_pos (InCall (PopDone d pos)) = Some pos"
| "take_pos _ = None"

definition entry :: "mem \<Rightarrow> addr \<Rightarrow> nat \<Rightarrow> nat \<Rightarrow> u8 list" where
  "entry m B sz p = read_bytes m (B + of_nat (p * sz)) sz"

text \<open>What a step does to the abstract queue: a push takes effect when the pusher releases the
  queue, a pop or peek when it reserves the head.\<close>

fun action_of ::
  "addr \<Rightarrow> nat \<Rightarrow> nat \<Rightarrow> addr \<Rightarrow> queue_event \<Rightarrow> queue_pc thread_state \<Rightarrow> queue_pc thread_state \<Rightarrow> mem \<Rightarrow> queue_action" where
  "action_of B sz d b e (InCall (PushDone pos)) p m = APush (read_bytes m b sz)"
| "action_of B sz d b e (InCall (PopDone dep pos)) p m = ADeliver (read_bytes m b sz)"
| "action_of B sz d b e (InCall ClearDone) p m = AClear"
| "action_of B sz d b e (InCall (PopLoop b' dep)) p m =
     (case take_pos p of None \<Rightarrow> ASkip | Some pos \<Rightarrow> APop (entry m B sz (unat pos mod d)))"
| "action_of B sz d b e (InCall (PeekLoop b' dep)) p m =
     (case take_pos p of None \<Rightarrow> ASkip | Some pos \<Rightarrow> APeek (entry m B sz (unat pos mod d)))"
| "action_of B sz d b QTryPop Idle p m =
     (case take_pos p of None \<Rightarrow> ASkip | Some pos \<Rightarrow> APop (entry m B sz (unat pos mod d)))"
| "action_of B sz d b QTryPeek Idle p m =
     (case take_pos p of None \<Rightarrow> ASkip | Some pos \<Rightarrow> APeek (entry m B sz (unat pos mod d)))"
| "action_of B sz d b e q p m = ASkip"

definition inserting :: "('t \<Rightarrow> queue_pc thread_state) \<Rightarrow> nat" where
  "inserting ps = (if \<exists>t. ins_pos (ps t) \<noteq> None then 1 else 0)"

text \<open>The abstraction: the entries from the head on, the one being inserted left out.\<close>

definition queue_abs :: "addr \<Rightarrow> addr \<Rightarrow> nat \<Rightarrow> nat \<Rightarrow> ('t \<Rightarrow> queue_pc thread_state) \<Rightarrow> mem \<Rightarrow> 't aqueue" where
  "queue_abs a B sz d ps m =
     (let c = load CellSyncQueue_ctrl m a; count = unat (ctrl_count c); first = unat (ctrl_next c) + d - count
      in (map (\<lambda>k. entry m B sz (k mod d)) [first ..< first + count - inserting ps],
          \<lambda>t. map_option (\<lambda>pos. entry m B sz (unat pos mod d)) (take_pos (ps t))))"

section \<open>The invariant\<close>

definition queue_layout :: "addr \<Rightarrow> addr \<Rightarrow> nat \<Rightarrow> nat \<Rightarrow> ('t \<Rightarrow> addr) \<Rightarrow> bool" where
  "queue_layout a B sz d buf \<longleftrightarrow>
     a \<noteq> 0 \<and> aligned a 32 \<and> (sz \<noteq> 0 \<longrightarrow> B \<noteq> 0) \<and> aligned B 16 \<and> sz mod 16 = 0 \<and> 0 < d \<and> d < 2 ^ 24 \<and>
     sz < 2 ^ 32 \<and> d * sz \<le> 2 ^ 32 \<and> apart B (d * sz) a 32 \<and>
     (\<forall>t. buf t \<noteq> 0 \<and> apart (buf t) sz a 32 \<and> apart (buf t) sz B (d * sz)) \<and>
     (\<forall>t u. t \<noteq> u \<longrightarrow> apart (buf t) sz (buf u) sz)"

text \<open>A thread that was stopped in the second loop of \<open>Clear\<close> leaves \<open>_pop\<close> set.\<close>

fun pushing :: "queue_pc thread_state \<Rightarrow> bool" where
  "pushing (InCall ClearDone) = True"
| "pushing p = (ins_pos p \<noteq> None)"

fun popping :: "queue_pc thread_state \<Rightarrow> bool" where
  "popping (InCall ClearLoop2) = True"
| "popping (Dead ClearLoop2) = True"
| "popping (InCall ClearDone) = True"
| "popping p = (take_pos p \<noteq> None)"

text \<open>With unbounded counters \<open>h\<close> and \<open>en\<close> of entries taken and reserved since the start (or
  the last \<open>Clear\<close>): entry \<open>k\<close> lives in slot \<open>k mod d\<close>; a popper holds the entry before the
  head, a peeker the head itself.\<close>

definition take_ok :: "nat \<Rightarrow> nat \<Rightarrow> nat \<Rightarrow> nat \<Rightarrow> u32 \<Rightarrow> bool" where
  "take_ok d h en k pos \<longleftrightarrow>
     (0 < h \<and> Suc (en - h) \<le> d \<and> unat pos mod d = (h - 1) mod d) \<or> (h + k < en \<and> unat pos mod d = h mod d)"

definition qctrl :: "nat \<Rightarrow> ('t \<Rightarrow> queue_pc thread_state) \<Rightarrow> queue_ctrl \<Rightarrow> nat \<Rightarrow> nat \<Rightarrow> bool" where
  "qctrl d ps c h en \<longleftrightarrow>
     0 < d \<and> d < 2 ^ 24 \<and> h \<le> en \<and> en - h \<le> d \<and>
     unat (ctrl_next c) = en mod d \<and> unat (ctrl_count c) = en - h \<and>
     flag pushing ps (unat (ctrl_push c)) \<and> flag popping ps (unat (ctrl_pop c)) \<and>
     (\<forall>t pos. ins_pos (ps t) = Some pos \<longrightarrow> h < en \<and> unat pos = (en - 1) mod d) \<and>
     (\<forall>t pos. take_pos (ps t) = Some pos \<longrightarrow> take_ok d h en (inserting ps) pos)"

fun qdata :: "addr \<Rightarrow> nat \<Rightarrow> nat \<Rightarrow> addr \<Rightarrow> mem \<Rightarrow> queue_pc thread_state \<Rightarrow> bool" where
  "qdata B sz d b m (InCall (PushLoop b' dep)) = (b' = b \<and> dep = of_nat d)"
| "qdata B sz d b m (InCall (PushBegun b' pos)) = (b' = b)"
| "qdata B sz d b m (InCall (PushCopy pos dst src n i)) =
     (dst = B + of_nat (unat pos * sz) \<and> src = b \<and> n = sz \<and> i \<le> sz \<and> copied m dst src i)"
| "qdata B sz d b m (InCall (PushDone pos)) = copied m (B + of_nat (unat pos * sz)) b sz"
| "qdata B sz d b m (InCall (PopLoop b' dep)) = (b' = b \<and> dep = of_nat d)"
| "qdata B sz d b m (InCall (PeekLoop b' dep)) = (b' = b \<and> dep = of_nat d)"
| "qdata B sz d b m (InCall (PopBegun b' dep pos)) = (b' = b \<and> dep = of_nat d)"
| "qdata B sz d b m (InCall (PopCopy dep pos dst src n i)) =
     (dst = b \<and> src = B + of_nat (unat pos mod d * sz) \<and> n = sz \<and> i \<le> sz \<and> copied m dst src i)"
| "qdata B sz d b m (InCall (PopDone dep pos)) = copied m b (B + of_nat (unat pos mod d * sz)) sz"
| "qdata B sz d b m _ = True"

definition queue_fields :: "addr \<Rightarrow> addr \<Rightarrow> nat \<Rightarrow> nat \<Rightarrow> mem \<Rightarrow> bool" where
  "queue_fields a B sz d m \<longleftrightarrow>
     queue_size m a = of_nat sz \<and> queue_depth m a = of_nat d \<and> queue_buffer m a = ucast B"

definition qinv :: "addr \<Rightarrow> addr \<Rightarrow> nat \<Rightarrow> nat \<Rightarrow> ('t \<Rightarrow> addr) \<Rightarrow> nat \<Rightarrow> nat \<Rightarrow> ('t \<Rightarrow> queue_pc thread_state) \<Rightarrow> mem \<Rightarrow> bool" where
  "qinv a B sz d buf h en ps m \<longleftrightarrow>
     queue_layout a B sz d buf \<and> queue_fields a B sz d m \<and>
     qctrl d ps (load CellSyncQueue_ctrl m a) h en \<and> (\<forall>t. qdata B sz d (buf t) m (ps t))"

definition queue_inv :: "addr \<Rightarrow> addr \<Rightarrow> nat \<Rightarrow> nat \<Rightarrow> ('t \<Rightarrow> addr) \<Rightarrow> ('t \<Rightarrow> queue_pc thread_state) \<Rightarrow> mem \<Rightarrow> bool" where
  "queue_inv a B sz d buf ps m \<longleftrightarrow> (\<exists>h en. qinv a B sz d buf h en ps m)"

text \<open>The abstraction by the unbounded counters.\<close>

definition qabs :: "addr \<Rightarrow> nat \<Rightarrow> nat \<Rightarrow> nat \<Rightarrow> nat \<Rightarrow> ('t \<Rightarrow> queue_pc thread_state) \<Rightarrow> mem \<Rightarrow> 't aqueue" where
  "qabs B sz d h en ps m =
     (map (\<lambda>k. entry m B sz (k mod d)) [h ..< en - inserting ps],
      \<lambda>t. map_option (\<lambda>pos. entry m B sz (unat pos mod d)) (take_pos (ps t)))"

lemma map_upt_mod_shift:
  "(a :: nat) mod d = b mod d \<Longrightarrow> map (\<lambda>k. f (k mod d)) [a ..< a + n] = map (\<lambda>k. f (k mod d)) [b ..< b + n]"
proof (rule nth_equalityI)
  fix i assume "a mod d = b mod d" "i < length (map (\<lambda>k. f (k mod d)) [a ..< a + n])"
  moreover from this(1) have "(a + i) mod d = (b + i) mod d" by (metis mod_add_left_eq)
  ultimately show "map (\<lambda>k. f (k mod d)) [a ..< a + n] ! i = map (\<lambda>k. f (k mod d)) [b ..< b + n] ! i"
    by simp
qed simp

lemma head_position:
  fixes h en d :: nat
  assumes "h \<le> en" "en - h \<le> d"
  shows "(en mod d + d - (en - h)) mod d = h mod d"
proof -
  have "(en mod d + d - (en - h)) mod d = (en mod d + (d - (en - h))) mod d"
    by (simp only: Nat.add_diff_assoc [OF assms(2)])
  also have "\<dots> = (en + (d - (en - h))) mod d" by (simp add: mod_add_left_eq)
  also have "\<dots> = (h + d) mod d" using assms by simp
  finally show ?thesis by simp
qed

lemma inserting_le: "inserting ps \<le> 1"
  by (simp add: inserting_def)

lemma inserting_less:
  assumes "qctrl d ps c h en"
  shows "h + inserting ps \<le> en"
proof (cases "\<exists>t. ins_pos (ps t) \<noteq> None")
  case True
  then have "h < en" using assms by (auto simp: qctrl_def)
  with True show ?thesis by (simp add: inserting_def)
next
  case False
  then show ?thesis using assms by (simp add: inserting_def qctrl_def)
qed

lemma queue_abs_qabs:
  assumes q: "qctrl d ps (load CellSyncQueue_ctrl m a) h en"
  shows "queue_abs a B sz d ps m = qabs B sz d h en ps m"
proof -
  define f where "f = en mod d + d - (en - h)"
  have le: "h \<le> en" "en - h \<le> d" "h + inserting ps \<le> en"
    using q inserting_less [OF q] by (auto simp: qctrl_def)
  have "map (\<lambda>k. entry m B sz (k mod d)) [f ..< f + (en - h - inserting ps)] =
      map (\<lambda>k. entry m B sz (k mod d)) [h ..< h + (en - h - inserting ps)]"
    unfolding f_def by (rule map_upt_mod_shift [OF head_position]) (use le in auto)
  moreover have "f + (en - h) - inserting ps = f + (en - h - inserting ps)"
      "h + (en - h - inserting ps) = en - inserting ps"
    using le by linarith+
  moreover have "unat (ctrl_next (load CellSyncQueue_ctrl m a)) = en mod d"
      "unat (ctrl_count (load CellSyncQueue_ctrl m a)) = en - h"
    using q by (auto simp: qctrl_def)
  ultimately show ?thesis by (simp only: queue_abs_def qabs_def Let_def f_def)
qed

subsection \<open>Reserving and releasing\<close>

lemma pushing_ins: "ins_pos p = Some pos \<Longrightarrow> pushing p"
  by (cases p rule: pushing.cases) auto

lemma popping_take: "take_pos p = Some pos \<Longrightarrow> popping p"
  by (cases p rule: popping.cases) auto

lemma ins_take: "ins_pos p = Some pos \<Longrightarrow> take_pos p = None"
  by (cases p rule: ins_pos.cases) auto

lemma qctrlD:
  assumes "qctrl d ps c h en"
  shows "0 < d" "d < 2 ^ 24" "h \<le> en" "en - h \<le> d" "unat (ctrl_next c) = en mod d" "unat (ctrl_count c) = en - h"
    "flag pushing ps (unat (ctrl_push c))" "flag popping ps (unat (ctrl_pop c))"
    "ins_pos (ps t) = Some pos \<Longrightarrow> h < en \<and> unat pos = (en - 1) mod d"
    "take_pos (ps t) = Some pos \<Longrightarrow> take_ok d h en (inserting ps) pos"
  using assms by (simp_all add: qctrl_def)

lemma qctrlI:
  assumes "qctrl d ps' c' h' en'" "h \<le> en" "en - h \<le> d" "unat (ctrl_next c) = en mod d" "unat (ctrl_count c) = en - h"
    "flag pushing ps (unat (ctrl_push c))" "flag popping ps (unat (ctrl_pop c))"
    "\<And>t pos. ins_pos (ps t) = Some pos \<Longrightarrow> h < en \<and> unat pos = (en - 1) mod d"
    "\<And>t pos. take_pos (ps t) = Some pos \<Longrightarrow> take_ok d h en (inserting ps) pos"
  shows "qctrl d ps c h en"
  using assms unfolding qctrl_def by metis

lemma qctrl_range: "qctrl d ps c h en \<Longrightarrow> ctrl_range d c"
  by (auto simp: qctrl_def ctrl_range_def dest: flag_le)

lemma inserting_same: "(ins_pos p = None) = (ins_pos (ps t) = None) \<Longrightarrow> inserting (ps(t := p)) = inserting ps"
proof -
  assume "(ins_pos p = None) = (ins_pos (ps t) = None)"
  then have "(ins_pos ((ps(t := p)) u) = None) = (ins_pos (ps u) = None)" for u by simp
  then show ?thesis by (simp only: inserting_def)
qed

lemma no_insert: "flag pushing ps 0 \<Longrightarrow> ins_pos (ps u) = None"
  using pushing_ins by (cases "ins_pos (ps u)") (auto simp: flag_none)

lemma no_take: "flag popping ps 0 \<Longrightarrow> take_pos (ps u) = None"
  using popping_take by (cases "take_pos (ps u)") (auto simp: flag_none)

lemma no_other_take: "flag popping ps v \<Longrightarrow> popping (ps t) \<Longrightarrow> u \<noteq> t \<Longrightarrow> take_pos (ps u) = None"
  using popping_take by (cases "take_pos (ps u)") (auto dest: flag_unique)

lemma no_other_insert: "flag pushing ps v \<Longrightarrow> pushing (ps t) \<Longrightarrow> u \<noteq> t \<Longrightarrow> ins_pos (ps u) = None"
  using pushing_ins by (cases "ins_pos (ps u)") (auto dest: flag_unique)

lemma qctrl_same:
  assumes q: "qctrl d ps c h en" and p: "ins_pos p = ins_pos (ps t)" "take_pos p = take_pos (ps t)"
    "pushing p = pushing (ps t)" "popping p = popping (ps t)"
  shows "qctrl d (ps(t := p)) c h en"
proof -
  have "ins_pos ((ps(t := p)) u) = ins_pos (ps u)" "take_pos ((ps(t := p)) u) = take_pos (ps u)" for u
    using p by auto
  moreover have "inserting (ps(t := p)) = inserting ps" using p by (intro inserting_same) simp
  ultimately show ?thesis using q p by (simp only: qctrl_def flag_same simp_thms) blast
qed

lemma qctrl_push_begin:
  assumes q: "qctrl d ps c h en" and free: "ctrl_push c = 0" "unat (ctrl_count c) + unat (ctrl_pop c) < d"
    and c': "unat (ctrl_next c') = Suc (unat (ctrl_next c)) mod d" "unat (ctrl_count c') = Suc (unat (ctrl_count c))"
      "ctrl_push c' = 1" "ctrl_pop c' = ctrl_pop c"
    and p: "ins_pos p = Some (ctrl_next c)" "\<not> popping (ps t)" "\<not> popping p"
  shows "qctrl d (ps(t := p)) c' h (Suc en)"
proof -
  have fl: "flag pushing ps 0" "flag popping ps (unat (ctrl_pop c))" using q free by (auto simp: qctrl_def)
  have nx: "unat (ctrl_next c) = en mod d" and cnt: "unat (ctrl_count c) = en - h"
    and le: "h \<le> en" "0 < d" "d < 2 ^ 24" using q by (simp_all add: qctrl_def)
  have "flag pushing (ps(t := p)) (unat (ctrl_push c'))" "flag popping (ps(t := p)) (unat (ctrl_pop c'))"
    using fl p c' pushing_ins [OF p(1)] by (simp_all add: flag_set [simplified] flag_same)
  moreover have "take_ok d h (Suc en) (inserting (ps(t := p))) pos" if "take_pos ((ps(t := p)) u) = Some pos" for u pos
  proof -
    have u: "take_pos (ps u) = Some pos" using that p popping_take [of p] by (cases "u = t") auto
    then have "unat (ctrl_pop c) = 1" using fl(2) popping_take flag_value by metis
    then have "Suc (Suc en - h) \<le> d" using free cnt le by (simp add: Suc_diff_le)
    moreover have "take_ok d h en 0 pos" using u q no_insert [OF fl(1)] by (auto simp: qctrl_def inserting_def)
    moreover have "inserting (ps(t := p)) = 1" using p by (auto simp: inserting_def)
    ultimately show ?thesis by (auto simp: take_ok_def)
  qed
  moreover have "unat pos = (Suc en - 1) mod d" if "ins_pos ((ps(t := p)) u) = Some pos" for u pos
    using that p nx no_insert [OF fl(1), of u] by (cases "u = t") auto
  moreover have "unat (ctrl_next c') = Suc en mod d" using c'(1) nx by (simp only: mod_Suc_eq)
  moreover have "unat (ctrl_count c') = Suc en - h" "Suc en - h \<le> d" "h < Suc en"
    using c'(2) cnt le free by linarith+
  ultimately show ?thesis using le unfolding qctrl_def by (metis less_imp_le)
qed

lemma qctrl_push_end:
  assumes q: "qctrl d ps c h en" and t: "ins_pos (ps t) = Some pos"
  shows "qctrl d (ps(t := Idle)) (put_push c 0) h en"
proof -
  have fl: "flag pushing ps (unat (ctrl_push c))" "flag popping ps (unat (ctrl_pop c))" using q by (auto simp: qctrl_def)
  note pt = pushing_ins [OF t]
  have "\<not> popping (ps t)" using t by (cases "ps t" rule: ins_pos.cases) auto
  then have "flag popping (ps(t := Idle)) (unat (ctrl_pop c))" using fl by (simp add: flag_same)
  moreover have none: "ins_pos ((ps(t := Idle)) u) = None" for u using no_other_insert [OF fl(1) pt] by simp
  moreover have "take_ok d h en (inserting (ps(t := Idle))) pos" if "take_pos ((ps(t := Idle)) u) = Some pos" for u pos
  proof -
    have "take_ok d h en (inserting ps) pos" using that q by (auto simp: qctrl_def split: if_splits)
    moreover have "inserting (ps(t := Idle)) = 0" using none by (simp add: inserting_def)
    ultimately show ?thesis by (auto simp: take_ok_def)
  qed
  ultimately show ?thesis
    using q flag_clear [OF fl(1) pt, of Idle] by (auto simp: qctrl_def f_push.get_put_small)
qed

lemma qctrl_take:
  assumes q: "qctrl d ps c h en" and free: "ctrl_pop c = 0" "unat (ctrl_push c) < unat (ctrl_count c)"
    and pos: "unat pos = unat (ctrl_next c) + d - unat (ctrl_count c)"
  shows "h + inserting ps < en" "unat pos mod d = h mod d"
proof -
  have "inserting ps \<le> unat (ctrl_push c)"
  proof (cases "\<exists>t pos. ins_pos (ps t) = Some pos")
    case True
    then have "unat (ctrl_push c) = 1" using pushing_ins flag_value [OF qctrlD(7) [OF q]] by blast
    then show ?thesis using inserting_le [of ps] by simp
  qed (simp add: inserting_def)
  then show "h + inserting ps < en" using free(2) qctrlD(6) [OF q] by linarith
  show "unat pos mod d = h mod d"
    using pos head_position [OF qctrlD(3,4) [OF q]] by (simp only: qctrlD(5,6) [OF q])
qed

lemma qctrl_pop_begin:
  assumes q: "qctrl d ps c h en" and free: "ctrl_pop c = 0" "unat (ctrl_push c) < unat (ctrl_count c)"
    and pos: "unat pos = unat (ctrl_next c) + d - unat (ctrl_count c)"
    and c': "ctrl_next c' = ctrl_next c" "Suc (unat (ctrl_count c')) = unat (ctrl_count c)"
      "ctrl_push c' = ctrl_push c" "ctrl_pop c' = 1"
    and p: "take_pos p = Some pos" "\<not> pushing (ps t)" "\<not> pushing p"
  shows "qctrl d (ps(t := p)) c' (Suc h) en"
proof -
  note tk = qctrl_take [OF q free pos]
  have fl: "flag popping ps 0" "flag pushing ps (unat (ctrl_push c))" using q free by (auto simp: qctrl_def)
  have ip: "ins_pos p = None" "ins_pos (ps t) = None" using p pushing_ins by (metis not_None_eq)+
  have "flag popping (ps(t := p)) (unat (ctrl_pop c'))" "flag pushing (ps(t := p)) (unat (ctrl_push c'))"
    using fl p c' popping_take [OF p(1)] by (simp_all add: flag_set [simplified] flag_same)
  moreover have ins: "inserting (ps(t := p)) = inserting ps" using ip by (intro inserting_same) simp
  moreover have "take_ok d (Suc h) en (inserting ps) pos'" if "take_pos ((ps(t := p)) u) = Some pos'" for u pos'
  proof -
    have "pos' = pos" using that p no_take [OF fl(1), of u] by (cases "u = t") auto
    moreover have "Suc (en - Suc h) \<le> d" using tk(1) qctrlD(4) [OF q] by linarith
    ultimately show ?thesis using tk by (simp add: take_ok_def)
  qed
  moreover have "Suc h < en \<and> unat pos' = (en - 1) mod d" if "ins_pos ((ps(t := p)) u) = Some pos'" for u pos'
  proof -
    have u: "ins_pos (ps u) = Some pos'" using that ip by (cases "u = t") auto
    then have "inserting ps = 1" by (auto simp: inserting_def)
    with u tk q show ?thesis by (auto simp: qctrl_def)
  qed
  moreover have "unat (ctrl_count c') = en - Suc h" "Suc h \<le> en" "en - Suc h \<le> d"
    using c'(2) qctrlD(4,6) [OF q] tk(1) by linarith+
  ultimately show ?thesis using qctrlD(5) [OF q] c'(1) by (intro qctrlI [OF q]) simp_all
qed

lemma qctrl_peek_begin:
  assumes q: "qctrl d ps c h en" and free: "ctrl_pop c = 0" "unat (ctrl_push c) < unat (ctrl_count c)"
    and pos: "unat pos = unat (ctrl_next c) + d - unat (ctrl_count c)"
    and c': "ctrl_next c' = ctrl_next c" "ctrl_count c' = ctrl_count c" "ctrl_push c' = ctrl_push c" "ctrl_pop c' = 1"
    and p: "take_pos p = Some pos" "\<not> pushing (ps t)" "\<not> pushing p"
  shows "qctrl d (ps(t := p)) c' h en"
proof -
  note tk = qctrl_take [OF q free pos]
  have fl: "flag popping ps 0" "flag pushing ps (unat (ctrl_push c))" using q free by (auto simp: qctrl_def)
  have ip: "ins_pos p = None" "ins_pos (ps t) = None" using p pushing_ins by (metis not_None_eq)+
  have "flag popping (ps(t := p)) (unat (ctrl_pop c'))" "flag pushing (ps(t := p)) (unat (ctrl_push c'))"
    using fl p c' popping_take [OF p(1)] by (simp_all add: flag_set [simplified] flag_same)
  moreover have ins: "inserting (ps(t := p)) = inserting ps" using ip by (intro inserting_same) simp
  moreover have "take_ok d h en (inserting ps) pos'" if "take_pos ((ps(t := p)) u) = Some pos'" for u pos'
  proof -
    have "pos' = pos" using that p no_take [OF fl(1), of u] by (cases "u = t") auto
    then show ?thesis using tk by (simp add: take_ok_def)
  qed
  moreover have "h < en \<and> unat pos' = (en - 1) mod d" if "ins_pos ((ps(t := p)) u) = Some pos'" for u pos'
    using that ip q by (cases "u = t") (auto simp: qctrl_def)
  ultimately show ?thesis using qctrlD(3-6) [OF q] c'(1,2) by (intro qctrlI [OF q]) simp_all
qed

lemma qctrl_pop_end:
  assumes q: "qctrl d ps c h en" and t: "take_pos (ps t) = Some pos"
  shows "qctrl d (ps(t := Idle)) (put_pop c 0) h en"
proof -
  have fl: "flag popping ps (unat (ctrl_pop c))" "flag pushing ps (unat (ctrl_push c))" using q by (auto simp: qctrl_def)
  note pt = popping_take [OF t]
  have np: "\<not> pushing (ps t)" using t by (cases "ps t" rule: take_pos.cases) auto
  then have ip: "ins_pos (ps t) = None" using pushing_ins by (metis not_None_eq)
  have "flag pushing (ps(t := Idle)) (unat (ctrl_push c))" using fl np by (simp add: flag_same)
  moreover have none: "take_pos ((ps(t := Idle)) u) = None" for u using no_other_take [OF fl(1) pt] by simp
  moreover have "h < en \<and> unat pos' = (en - 1) mod d" if "ins_pos ((ps(t := Idle)) u) = Some pos'" for u pos'
    using that q by (cases "u = t") (auto simp: qctrl_def)
  ultimately show ?thesis
    using qctrlD(3-6) [OF q] flag_clear [OF fl(1) pt, of Idle]
    by (intro qctrlI [OF q]) (simp_all add: f_pop.get_put_small)
qed

text \<open>\<open>Clear\<close> takes both flags in turn and then resets the words.\<close>

lemma qctrl_clear_1:
  assumes q: "qctrl d ps c h en" and free: "ctrl_pop c = 0" and t: "ps t = InCall ClearLoop1"
  shows "qctrl d (ps(t := InCall ClearLoop2)) (put_pop c 1) h en"
proof -
  have fl: "flag popping ps 0" "flag pushing ps (unat (ctrl_push c))" using q free by (auto simp: qctrl_def)
  have "flag popping (ps(t := InCall ClearLoop2)) (Suc 0)" "flag pushing (ps(t := InCall ClearLoop2)) (unat (ctrl_push c))"
    using fl t by (simp_all add: flag_set [simplified] flag_same)
  moreover have "take_pos ((ps(t := InCall ClearLoop2)) u) = None" for u using no_take [OF fl(1)] by simp
  moreover have "ins_pos ((ps(t := InCall ClearLoop2)) u) = ins_pos (ps u)" for u using t by simp
  ultimately show ?thesis using qctrlD(3-6,9) [OF q]
    by (intro qctrlI [OF q]) (simp_all add: f_pop.get_put_small del: fun_upd_apply)
qed

lemma qctrl_clear_2:
  assumes q: "qctrl d ps c h en" and free: "ctrl_push c = 0" and t: "ps t = InCall ClearLoop2"
  shows "qctrl d (ps(t := InCall ClearDone)) (put_push c 1) h en"
proof -
  have fl: "flag popping ps (unat (ctrl_pop c))" "flag pushing ps 0" using q free by (auto simp: qctrl_def)
  have "flag popping (ps(t := InCall ClearDone)) (unat (ctrl_pop c))" "flag pushing (ps(t := InCall ClearDone)) (Suc 0)"
    using fl t by (simp_all add: flag_set [simplified] flag_same)
  moreover have "take_pos ((ps(t := InCall ClearDone)) u) = None" for u using no_other_take [OF fl(1), of t u] t by simp
  moreover have "ins_pos ((ps(t := InCall ClearDone)) u) = None" for u using no_insert [OF fl(2)] t by simp
  ultimately show ?thesis using qctrlD(3-6) [OF q]
    by (intro qctrlI [OF q]) (simp_all add: f_push.get_put_small del: fun_upd_apply)
qed

lemma qctrl_clear_3:
  assumes q: "qctrl d ps c h en" and t: "ps t = InCall ClearDone"
  shows "qctrl d (ps(t := Idle)) \<lparr>x0 = 0, x4 = 0\<rparr> 0 0"
proof -
  have fl: "flag popping ps (unat (ctrl_pop c))" "flag pushing ps (unat (ctrl_push c))" using q by (auto simp: qctrl_def)
  have "flag popping (ps(t := Idle)) 0" "flag pushing (ps(t := Idle)) 0"
    using flag_clear [OF fl(1), of t Idle] flag_clear [OF fl(2), of t Idle] t by simp_all
  then show ?thesis using no_insert [of "ps(t := Idle)"] no_take [of "ps(t := Idle)"]
    by (intro qctrlI [OF q]) (simp_all del: fun_upd_apply)
qed

subsection \<open>Slots\<close>

lemma mod_neq: "(i :: nat) < j \<Longrightarrow> j - i < d \<Longrightarrow> i mod d \<noteq> j mod d"
proof
  assume "i < j" "j - i < d" "i mod d = j mod d"
  then have "d dvd j - i" by (metis less_imp_le mod_eq_dvd_iff_nat)
  then show False using \<open>i < j\<close> \<open>j - i < d\<close> by (auto dest: dvd_imp_le)
qed

lemma take_ins_apart:
  assumes q: "qctrl d ps c h en" and i: "ins_pos (ps t) = Some pos" and k: "take_pos (ps u) = Some pos'"
  shows "unat pos' mod d \<noteq> unat pos"
proof -
  have e: "h < en" "unat pos = (en - 1) mod d" using qctrlD(9) [OF q i] by auto
  have "inserting ps = 1" using i by (auto simp: inserting_def)
  with qctrlD(10) [OF q k] consider
      "0 < h" "Suc (en - h) \<le> d" "unat pos' mod d = (h - 1) mod d" | "h + 1 < en" "unat pos' mod d = h mod d"
    by (auto simp: take_ok_def)
  then show ?thesis
  proof cases
    case 1
    have "(h - 1) mod d \<noteq> (en - 1) mod d" by (rule mod_neq) (use 1 e in linarith)+
    with 1 e show ?thesis by simp
  next
    case 2
    have "h mod d \<noteq> (en - 1) mod d" by (rule mod_neq) (use 2 qctrlD(4) [OF q] in linarith)+
    with 2 e show ?thesis by simp
  qed
qed

lemma slot_region: "p < d \<Longrightarrow> d * sz \<le> 2 ^ 32 \<Longrightarrow> region (B + of_nat (p * sz)) sz \<subseteq> region B (d * sz)"
proof -
  assume "p < d" "d * sz \<le> 2 ^ 32"
  moreover from this(1) have "p * sz + sz \<le> d * sz" by (metis Suc_leI add.commute mult_Suc mult_le_mono1)
  ultimately show ?thesis by (intro region_sub)
qed

lemma slots_apart:
  assumes "p < d" "q < d" "p \<noteq> q" "d * sz \<le> 2 ^ 32"
  shows "apart (B + of_nat (p * sz)) sz (B + of_nat (q * sz)) sz"
proof -
  have *: "apart (B + of_nat (p * sz)) sz (B + of_nat (q * sz)) sz" if "p < q" "q < d" for p q
  proof (rule apart_offsets)
    show "p * sz + sz \<le> q * sz" using that(1) by (metis Suc_leI add.commute mult_Suc mult_le_mono1)
    have "q * sz + sz \<le> d * sz" using that(2) by (metis Suc_leI add.commute mult_Suc mult_le_mono1)
    then show "q * sz + sz \<le> 2 ^ 32" using assms(4) by linarith
  qed
  show ?thesis using assms * [of p q] apart_sym [OF * [of q p]] by (cases "p < q") auto
qed

lemma entry_cong:
  assumes "\<And>x. x \<in> region (B + of_nat (p * sz)) sz \<Longrightarrow> m x = m' x" "sz \<le> 2 ^ 32"
  shows "entry m B sz p = entry m' B sz p"
  unfolding entry_def by (rule read_bytes_cong) (use assms in auto)

lemma qdata_frame:
  assumes "\<And>x. x \<in> region b sz \<Longrightarrow> m x = m' x" "sz \<le> 2 ^ 32"
    and "\<And>x pos. ins_pos p = Some pos \<Longrightarrow> x \<in> region (B + of_nat (unat pos * sz)) sz \<Longrightarrow> m x = m' x"
    and "\<And>x pos. take_pos p = Some pos \<Longrightarrow> x \<in> region (B + of_nat (unat pos mod d * sz)) sz \<Longrightarrow> m x = m' x"
  shows "qdata B sz d b m p = qdata B sz d b m' p"
proof -
  have i: "copied m (B + of_nat (unat pos * sz)) b k = copied m' (B + of_nat (unat pos * sz)) b k"
    if "ins_pos p = Some pos" "k \<le> sz" for pos k
    using that assms by (intro copied_cong [where n = sz]) auto
  have t: "copied m b (B + of_nat (unat pos mod d * sz)) k = copied m' b (B + of_nat (unat pos mod d * sz)) k"
    if "take_pos p = Some pos" "k \<le> sz" for pos k
    using that assms by (intro copied_cong [where n = sz]) auto
  show ?thesis
  proof (cases p)
    case (InCall w)
    then show ?thesis using i t by (cases w) (auto simp del: of_nat_mult)
  qed simp_all
qed

lemma queue_object_frame:
  assumes "\<And>x. x \<in> region a 32 \<Longrightarrow> m x = m' x"
  shows "load CellSyncQueue_ctrl m a = load CellSyncQueue_ctrl m' a" "queue_fields a B sz d m = queue_fields a B sz d m'"
proof -
  have sub: "region a 8 \<subseteq> region a 32" "region (a + 8) 4 \<subseteq> region a 32" "region (a + 12) 4 \<subseteq> region a 32"
      "region (a + 16) 8 \<subseteq> region a 32"
    using region_mono [of 8 32 a] region_sub [of 8 4 32 a] region_sub [of 12 4 32 a] region_sub [of 16 8 32 a] by simp_all
  show "load CellSyncQueue_ctrl m a = load CellSyncQueue_ctrl m' a"
    using sub assms by (intro queue_ctrl.load_cong) auto
  have "load be32 m (a + 8) = load be32 m' (a + 8)" "load be32 m (a + 12) = load be32 m' (a + 12)"
      "load be64 m (a + 16) = load be64 m' (a + 16)"
    using sub assms by (auto intro!: be32.load_cong be64.load_cong)
  then show "queue_fields a B sz d m = queue_fields a B sz d m'"
    by (simp add: queue_fields_def queue_size_def queue_depth_def queue_buffer_def)
qed

lemma queue_fields_ctrl: "queue_fields a B sz d (store CellSyncQueue_ctrl m a c) = queue_fields a B sz d m"
proof -
  have "apart (a + 8) 4 a 8" "apart (a + 12) 4 a 8" "apart (a + 16) 8 a 8"
    using apart_offsets [of 0 8 8 4 a] apart_offsets [of 0 8 12 4 a] apart_offsets [of 0 8 16 8 a] by (simp_all add: apart_sym)
  then show ?thesis
    by (simp add: queue_fields_def queue_size_def queue_depth_def queue_buffer_def queue_ctrl.load_other)
qed

subsection \<open>Steps\<close>

lemma layoutD:
  assumes "queue_layout a B sz d buf"
  shows "sz \<le> 2 ^ 32" "d * sz \<le> 2 ^ 32" "0 < d" "apart B (d * sz) a 32" "apart (buf t) sz a 32"
    "apart (buf t) sz B (d * sz)" "t \<noteq> u \<Longrightarrow> apart (buf t) sz (buf u) sz"
  using assms by (auto simp: queue_layout_def)

lemma qinvD:
  assumes "qinv a B sz d buf h en ps m"
  shows "queue_layout a B sz d buf" "queue_fields a B sz d m" "qctrl d ps (load CellSyncQueue_ctrl m a) h en"
    "qdata B sz d (buf t) m (ps t)"
  using assms by (simp_all add: qinv_def)

lemma ins_pos_less: "qctrl d ps c h en \<Longrightarrow> ins_pos (ps t) = Some pos \<Longrightarrow> unat pos < d"
  using qctrlD(1,9) by (metis mod_less_divisor)

lemma qabs_cong:
  assumes "\<And>p. p < d \<Longrightarrow> entry m' B sz p = entry m B sz p" "0 < d"
  shows "qabs B sz d h en ps m' = qabs B sz d h en ps m"
proof -
  have "entry m' B sz (k mod d) = entry m B sz (k mod d)" for k using assms by simp
  then show ?thesis by (simp only: qabs_def)
qed

lemma qabs_same:
  assumes "(ins_pos p = None) = (ins_pos (ps t) = None)" "take_pos p = take_pos (ps t)"
  shows "qabs B sz d h en (ps(t := p)) m = qabs B sz d h en ps m"
proof -
  have "take_pos ((ps(t := p)) u) = take_pos (ps u)" for u using assms by simp
  then show ?thesis by (simp only: qabs_def inserting_same [of p ps t, OF assms(1)])
qed

text \<open>A step on the control words.\<close>

lemma qinv_ctrl:
  fixes ps qs :: "'t \<Rightarrow> queue_pc thread_state"
  assumes inv: "qinv a B sz d buf h en ps m" and c: "qctrl d (ps(t := p)) c h' en'"
    and p: "qdata B sz d (buf t) m p"
  shows "qinv a B sz d buf h' en' (ps(t := p)) (store CellSyncQueue_ctrl m a c)"
    "qabs B sz d k l qs (store CellSyncQueue_ctrl m a c) = qabs B sz d k l qs m"
proof -
  note lay = layoutD [OF qinvD(1) [OF inv]]
  have eq: "store CellSyncQueue_ctrl m a c x = m x" if "x \<notin> region a 32" for x
    using that region_mono [of 8 32 a] by (intro queue_ctrl.store_outside) auto
  have slot: "store CellSyncQueue_ctrl m a c x = m x" if "x \<in> region (B + of_nat (i * sz)) sz" "i < d" for x i
    using that slot_region [OF that(2) lay(2)] apart_outside [OF lay(4)] by (intro eq) blast
  have own: "store CellSyncQueue_ctrl m a c x = m x" if "x \<in> region (buf u) sz" for x u
    using that lay(5) by (intro eq) (auto dest: apart_outside)
  have "qdata B sz d (buf u) (store CellSyncQueue_ctrl m a c) ((ps(t := p)) u) = qdata B sz d (buf u) m ((ps(t := p)) u)" for u
    using lay own slot ins_pos_less [OF c, of u] by (intro qdata_frame) (auto simp del: of_nat_mult)
  with inv c p show "qinv a B sz d buf h' en' (ps(t := p)) (store CellSyncQueue_ctrl m a c)"
    by (auto simp: qinv_def mem_simps queue_fields_ctrl)
  show "qabs B sz d k l qs (store CellSyncQueue_ctrl m a c) = qabs B sz d k l qs m"
    using lay slot by (intro qabs_cong entry_cong) (auto simp del: of_nat_mult)
qed

lemma qinv_same:
  assumes inv: "qinv a B sz d buf h en ps m" and p: "qdata B sz d (buf t) m p"
    and cls: "ins_pos p = ins_pos (ps t)" "take_pos p = take_pos (ps t)" "pushing p = pushing (ps t)" "popping p = popping (ps t)"
  shows "qinv a B sz d buf h en (ps(t := p)) m" "qabs B sz d h en (ps(t := p)) m = qabs B sz d h en ps m"
  using qinv_ctrl(1) [OF inv qctrl_same [OF qinvD(3) [OF inv] cls] p] cls by (simp_all add: mem_simps qabs_same)

text \<open>A thread writes into its own buffer, or the pusher into the slot it has reserved.\<close>

lemma qinv_own:
  assumes inv: "qinv a B sz d buf h en ps m" and eq: "\<And>x. x \<notin> region (buf t) sz \<Longrightarrow> m' x = m x"
    and p: "qdata B sz d (buf t) m' p"
    and cls: "ins_pos p = ins_pos (ps t)" "take_pos p = take_pos (ps t)" "pushing p = pushing (ps t)" "popping p = popping (ps t)"
  shows "qinv a B sz d buf h en (ps(t := p)) m'" "qabs B sz d h en (ps(t := p)) m' = qabs B sz d h en ps m"
proof -
  note lay = layoutD [OF qinvD(1) [OF inv]] and q = qinvD(3) [OF inv]
  have slot: "m' x = m x" if "x \<in> region (B + of_nat (i * sz)) sz" "i < d" for x i
    using that slot_region [OF that(2) lay(2)] apart_outside [OF apart_sym [OF lay(6) [of t]]] by (intro eq) blast
  have obj: "load CellSyncQueue_ctrl m' a = load CellSyncQueue_ctrl m a" "queue_fields a B sz d m' = queue_fields a B sz d m"
    using apart_outside [OF apart_sym [OF lay(5) [of t]]] eq by (auto intro!: queue_object_frame)
  have "qdata B sz d (buf u) m' (ps u) = qdata B sz d (buf u) m (ps u)" if "u \<noteq> t" for u
    using lay slot ins_pos_less [OF q, of u] apart_outside [OF lay(7) [OF that]] eq by (intro qdata_frame) (auto simp del: of_nat_mult)
  then show "qinv a B sz d buf h en (ps(t := p)) m'"
    using inv p qctrl_same [OF q cls] obj by (auto simp: qinv_def)
  have "qabs B sz d h en (ps(t := p)) m' = qabs B sz d h en (ps(t := p)) m"
    using lay slot by (intro qabs_cong entry_cong) (auto simp del: of_nat_mult)
  with cls show "qabs B sz d h en (ps(t := p)) m' = qabs B sz d h en ps m" by (simp add: qabs_same)
qed

lemma qinv_slot:
  assumes inv: "qinv a B sz d buf h en ps m" and t: "ins_pos (ps t) = Some pos"
    and eq: "\<And>x. x \<notin> region (B + of_nat (unat pos * sz)) sz \<Longrightarrow> m' x = m x"
    and p: "qdata B sz d (buf t) m' p"
    and cls: "ins_pos p = ins_pos (ps t)" "take_pos p = take_pos (ps t)" "pushing p = pushing (ps t)" "popping p = popping (ps t)"
  shows "qinv a B sz d buf h en (ps(t := p)) m'" "qabs B sz d h en (ps(t := p)) m' = qabs B sz d h en ps m"
proof -
  note lay = layoutD [OF qinvD(1) [OF inv]] and q = qinvD(3) [OF inv]
  note pos = ins_pos_less [OF q t]
  have out: "m' x = m x" if "x \<notin> region B (d * sz)" for x
    using that slot_region [OF pos lay(2)] by (intro eq) blast
  have slot: "m' x = m x" if "x \<in> region (B + of_nat (i * sz)) sz" "i < d" "i \<noteq> unat pos" for x i
    using that pos lay slots_apart [of i d "unat pos" sz B] by (intro eq) (auto dest: apart_outside)
  have obj: "load CellSyncQueue_ctrl m' a = load CellSyncQueue_ctrl m a" "queue_fields a B sz d m' = queue_fields a B sz d m"
    using apart_outside [OF apart_sym [OF lay(4)]] out by (auto intro!: queue_object_frame)
  have "qdata B sz d (buf u) m' (ps u) = qdata B sz d (buf u) m (ps u)" if "u \<noteq> t" for u
  proof (rule qdata_frame)
    show "m' x = m x" if "x \<in> region (buf u) sz" for x using that lay(6) by (intro out) (auto dest: apart_outside)
    show "m' x = m x" if "ins_pos (ps u) = Some pos'" for x pos'
      using that \<open>u \<noteq> t\<close> no_other_insert [OF qctrlD(7) [OF q] pushing_ins [OF t], of u] by simp
    show "m' x = m x" if "take_pos (ps u) = Some pos'" "x \<in> region (B + of_nat (unat pos' mod d * sz)) sz" for x pos'
      using that lay take_ins_apart [OF q t that(1)] by (intro slot [of x "unat pos' mod d"]) (auto simp del: of_nat_mult)
  qed (use lay in auto)
  then show "qinv a B sz d buf h en (ps(t := p)) m'"
    using inv p qctrl_same [OF q cls] obj by (auto simp: qinv_def)
  have items: "entry m' B sz (k mod d) = entry m B sz (k mod d)" if "h \<le> k" "k < en - 1" for k
  proof -
    have "k mod d \<noteq> (en - 1) mod d" using that qctrlD(4) [OF q] by (intro mod_neq) linarith+
    then show ?thesis using slot lay qctrlD(9) [OF q t] by (intro entry_cong) (auto simp del: of_nat_mult)
  qed
  have held: "entry m' B sz (unat pos' mod d) = entry m B sz (unat pos' mod d)" if "take_pos (ps u) = Some pos'" for u pos'
    using slot lay take_ins_apart [OF q t that] by (intro entry_cong) (auto simp del: of_nat_mult)
  have "inserting ps = 1" using t by (auto simp: inserting_def)
  then have "qabs B sz d h en ps m' = qabs B sz d h en ps m"
    using items held by (auto simp: qabs_def fun_eq_iff intro!: option.map_cong0 option.map_cong)
  then show "qabs B sz d h en (ps(t := p)) m' = qabs B sz d h en ps m" using cls by (simp add: qabs_same)
qed

section \<open>The simulation\<close>

definition qsim ::
  "addr \<Rightarrow> addr \<Rightarrow> nat \<Rightarrow> nat \<Rightarrow> ('t \<Rightarrow> addr) \<Rightarrow> nat \<Rightarrow> nat \<Rightarrow> ('t \<Rightarrow> queue_pc thread_state) \<Rightarrow> mem \<Rightarrow> 't \<Rightarrow>
   queue_action \<Rightarrow> queue_pc thread_state \<Rightarrow> mem \<Rightarrow> bool" where
  "qsim a B sz d buf h en ps m t act p m' \<longleftrightarrow>
     (\<exists>h' en'. qinv a B sz d buf h' en' (ps(t := p)) m' \<and>
       queue_spec d t act (qabs B sz d h en ps m) = Some (qabs B sz d h' en' (ps(t := p)) m'))"

lemma qsim_skip:
  "qinv a B sz d buf h' en' (ps(t := p)) m' \<Longrightarrow> qabs B sz d h' en' (ps(t := p)) m' = qabs B sz d h en ps m \<Longrightarrow>
     qsim a B sz d buf h en ps m t ASkip p m'"
  unfolding qsim_def by (metis queue_spec.simps(6) surj_pair)

lemma qsim_push_begin:
  assumes inv: "qinv a B sz d buf h en ps m" and st: "try_push_begin (of_nat d) (load CellSyncQueue_ctrl m a) = (Some pos, c')"
    and t: "\<not> popping (ps t)"
  shows "qsim a B sz d buf h en ps m t ASkip (InCall (PushBegun (buf t) pos)) (store CellSyncQueue_ctrl m a c')"
proof -
  let ?c = "load CellSyncQueue_ctrl m a" and ?p = "InCall (PushBegun (buf t) pos)"
  note q = qinvD(3) [OF inv]
  have v: "ctrl_push ?c = 0" "unat (ctrl_count ?c) + unat (ctrl_pop ?c) < d" "pos = ctrl_next ?c"
      "unat (ctrl_next c') = Suc (unat (ctrl_next ?c)) mod d" "unat (ctrl_count c') = Suc (unat (ctrl_count ?c))"
      "ctrl_push c' = 1" "ctrl_pop c' = ctrl_pop ?c"
    using try_push_begin_view [OF qctrl_range [OF q]] st by (auto split: if_splits)
  have q': "qctrl d (ps(t := ?p)) c' h (Suc en)"
    by (rule qctrl_push_begin [OF q]) (use v t in simp_all)
  have fl: "flag pushing ps 0" using qctrlD(7) [OF q] v(1) by simp
  have "take_pos (ps t) = None" using t popping_take by (metis not_None_eq)
  then have tp: "take_pos ((ps(t := ?p)) u) = take_pos (ps u)" for u by simp
  have ins: "inserting ps = 0" "inserting (ps(t := ?p)) = 1" using no_insert [OF fl] by (auto simp: inserting_def)
  have "qabs B sz d h (Suc en) (ps(t := ?p)) m = qabs B sz d h en ps m"
    by (simp only: qabs_def tp ins) simp
  with qinv_ctrl [OF inv q'] show ?thesis by (intro qsim_skip [of _ _ _ _ _ h "Suc en"]) simp_all
qed

lemma qabs_take:
  assumes "h + inserting ps < en" "unat pos mod d = h mod d" "take_pos p = Some pos"
    "ins_pos p = None" "ins_pos (ps t) = None" "\<And>u. take_pos (ps u) = None"
  shows "qabs B sz d h en ps m =
      (entry m B sz (h mod d) # map (\<lambda>k. entry m B sz (k mod d)) [Suc h ..< en - inserting ps], \<lambda>_. None)"
    and "qabs B sz d h' en (ps(t := p)) m =
      (map (\<lambda>k. entry m B sz (k mod d)) [h' ..< en - inserting ps], (\<lambda>_. None)(t := Some (entry m B sz (h mod d))))"
proof -
  have "[h ..< en - inserting ps] = h # [Suc h ..< en - inserting ps]" using assms(1) by (simp add: upt_conv_Cons)
  then show "qabs B sz d h en ps m =
      (entry m B sz (h mod d) # map (\<lambda>k. entry m B sz (k mod d)) [Suc h ..< en - inserting ps], \<lambda>_. None)"
    by (simp add: qabs_def assms(6))
  have "inserting (ps(t := p)) = inserting ps" using assms by (intro inserting_same) simp
  then show "qabs B sz d h' en (ps(t := p)) m =
      (map (\<lambda>k. entry m B sz (k mod d)) [h' ..< en - inserting ps], (\<lambda>_. None)(t := Some (entry m B sz (h mod d))))"
    using assms by (auto simp: qabs_def fun_eq_iff)
qed

lemma qsim_take:
  assumes inv: "qinv a B sz d buf h en ps m" and t: "\<not> pushing (ps t)"
    and st: "try_pop_begin (of_nat d) (load CellSyncQueue_ctrl m a) = (Some pos, c')"
      "try_peek_begin (of_nat d) (load CellSyncQueue_ctrl m a) = (Some pos, c'')"
  shows "qsim a B sz d buf h en ps m t (APop (entry m B sz (unat pos mod d))) (InCall (PopBegun (buf t) (of_nat d) pos)) (store CellSyncQueue_ctrl m a c')"
    and "qsim a B sz d buf h en ps m t (APeek (entry m B sz (unat pos mod d))) (InCall (PopBegun (buf t) (of_nat d) pos)) (store CellSyncQueue_ctrl m a c'')"
proof -
  let ?c = "load CellSyncQueue_ctrl m a" and ?p = "InCall (PopBegun (buf t) (of_nat d) pos)"
  note q = qinvD(3) [OF inv]
  have v: "ctrl_pop ?c = 0" "unat (ctrl_push ?c) < unat (ctrl_count ?c)"
      "unat pos = unat (ctrl_next ?c) + d - unat (ctrl_count ?c)"
      "ctrl_next c' = ctrl_next ?c" "Suc (unat (ctrl_count c')) = unat (ctrl_count ?c)"
      "ctrl_push c' = ctrl_push ?c" "ctrl_pop c' = 1"
      "ctrl_next c'' = ctrl_next ?c" "ctrl_count c'' = ctrl_count ?c" "ctrl_push c'' = ctrl_push ?c" "ctrl_pop c'' = 1"
    using try_pop_begin_view [OF qctrl_range [OF q]] st by (auto split: if_splits)
  have q1: "qctrl d (ps(t := ?p)) c' (Suc h) en" by (rule qctrl_pop_begin [OF q v(1-7)]) (use t in simp_all)
  have q2: "qctrl d (ps(t := ?p)) c'' h en" by (rule qctrl_peek_begin [OF q v(1-3,8-11)]) (use t in simp_all)
  have none: "take_pos (ps u) = None" for u using qctrlD(8) [OF q] v(1) by (intro no_take) simp
  have ip: "ins_pos (ps t) = None" using t pushing_ins by (metis not_None_eq)
  note tk = qctrl_take [OF q v(1-3)]
  let ?L = "map (\<lambda>k. entry m B sz (k mod d)) [Suc h ..< en - inserting ps]" and ?x = "entry m B sz (h mod d)"
  have ab: "qabs B sz d h en ps m = (?x # ?L, \<lambda>_. None)"
    by (rule qabs_take(1) [of h ps en pos d ?p t]) (use tk ip none in simp_all)
  have ab': "qabs B sz d h' en (ps(t := ?p)) m =
      (map (\<lambda>k. entry m B sz (k mod d)) [h' ..< en - inserting ps], (\<lambda>_. None)(t := Some ?x))" for h'
    by (rule qabs_take(2) [of h ps en pos d ?p t]) (use tk ip none in simp_all)
  have up: "[h ..< en - inserting ps] = h # [Suc h ..< en - inserting ps]" using tk(1) by (simp add: upt_conv_Cons)
  have p: "qdata B sz d (buf t) m ?p" by simp
  show "qsim a B sz d buf h en ps m t (APop (entry m B sz (unat pos mod d))) ?p (store CellSyncQueue_ctrl m a c')"
    unfolding qsim_def
    by (intro exI conjI, rule qinv_ctrl(1) [OF inv q1 p]) (simp only: qinv_ctrl(2) [OF inv q1 p] ab ab' tk(2) queue_spec.simps list.case simp_thms if_True)
  show "qsim a B sz d buf h en ps m t (APeek (entry m B sz (unat pos mod d))) ?p (store CellSyncQueue_ctrl m a c'')"
    unfolding qsim_def
    by (intro exI conjI, rule qinv_ctrl(1) [OF inv q2 p])
      (simp only: qinv_ctrl(2) [OF inv q2 p] ab ab' tk(2) up list.map queue_spec.simps list.case simp_thms if_True)
qed

lemma qsim_push_end:
  assumes inv: "qinv a B sz d buf h en ps m" and t: "ps t = InCall (PushDone pos)"
  shows "qsim a B sz d buf h en ps m t (APush (read_bytes m (buf t) sz)) Idle
    (store CellSyncQueue_ctrl m a (put_push (load CellSyncQueue_ctrl m a) 0))"
proof -
  note q = qinvD(3) [OF inv]
  have i: "ins_pos (ps t) = Some pos" using t by simp
  note q' = qctrl_push_end [OF q i]
  have e: "h < en" "unat pos = (en - 1) mod d" using qctrlD(9) [OF q i] by auto
  have "qdata B sz d (buf t) m (ps t)" by (rule qinvD(4) [OF inv])
  then have x: "read_bytes m (buf t) sz = entry m B sz ((en - 1) mod d)"
    using t e(2) by (simp add: copied_read_bytes entry_def del: of_nat_mult)
  have none: "ins_pos ((ps(t := Idle)) u) = None" for u
    using no_other_insert [OF qctrlD(7) [OF q] pushing_ins [OF i]] by simp
  then have ins: "inserting ps = 1" "inserting (ps(t := Idle)) = 0" using i by (auto simp: inserting_def)
  have up: "[h ..< en - 0] = [h ..< en - 1] @ [en - 1]" using e(1) by (cases en) auto
  have tp: "take_pos ((ps(t := Idle)) u) = take_pos (ps u)" for u using t by simp
  have len: "length [h ..< en - 1] < d" using e(1) qctrlD(4) [OF q] by simp
  have ab: "queue_spec d t (APush (read_bytes m (buf t) sz)) (qabs B sz d h en ps m) = Some (qabs B sz d h en (ps(t := Idle)) m)"
    using len by (simp only: qabs_def ins up tp x queue_spec.simps length_map map_append list.map if_True)
  have p: "qdata B sz d (buf t) m Idle" by simp
  show ?thesis unfolding qsim_def
    by (intro exI conjI, rule qinv_ctrl(1) [OF inv q' p]) (simp only: qinv_ctrl(2) [OF inv q' p] ab)
qed

lemma qsim_pop_end:
  assumes inv: "qinv a B sz d buf h en ps m" and t: "ps t = InCall (PopDone dep pos)"
  shows "qsim a B sz d buf h en ps m t (ADeliver (read_bytes m (buf t) sz)) Idle
    (store CellSyncQueue_ctrl m a (put_pop (load CellSyncQueue_ctrl m a) 0))"
proof -
  note q = qinvD(3) [OF inv]
  have k: "take_pos (ps t) = Some pos" using t by simp
  note q' = qctrl_pop_end [OF q k]
  have "qdata B sz d (buf t) m (ps t)" by (rule qinvD(4) [OF inv])
  then have x: "read_bytes m (buf t) sz = entry m B sz (unat pos mod d)"
    using t by (simp add: copied_read_bytes entry_def del: of_nat_mult)
  have ins: "inserting (ps(t := Idle)) = inserting ps" using t by (intro inserting_same) simp
  have ab: "queue_spec d t (ADeliver (read_bytes m (buf t) sz)) (qabs B sz d h en ps m) = Some (qabs B sz d h en (ps(t := Idle)) m)"
    using k x by (auto simp: qabs_def ins fun_eq_iff)
  have p: "qdata B sz d (buf t) m Idle" by simp
  show ?thesis unfolding qsim_def
    by (intro exI conjI, rule qinv_ctrl(1) [OF inv q' p]) (simp only: qinv_ctrl(2) [OF inv q' p] ab)
qed

lemma qsim_clear_1:
  assumes inv: "qinv a B sz d buf h en ps m" and t: "ps t = InCall ClearLoop1" and free: "ctrl_pop (load CellSyncQueue_ctrl m a) = 0"
  shows "qsim a B sz d buf h en ps m t ASkip (InCall ClearLoop2)
    (store CellSyncQueue_ctrl m a (put_pop (load CellSyncQueue_ctrl m a) 1))"
proof -
  note q' = qctrl_clear_1 [OF qinvD(3) [OF inv] free t]
  have p: "qdata B sz d (buf t) m (InCall ClearLoop2)" by simp
  show ?thesis
    by (rule qsim_skip [OF qinv_ctrl(1) [OF inv q' p]]) (use t in \<open>simp add: qinv_ctrl(2) [OF inv q' p] qabs_same\<close>)
qed

lemma qsim_clear_2:
  assumes inv: "qinv a B sz d buf h en ps m" and t: "ps t = InCall ClearLoop2" and free: "ctrl_push (load CellSyncQueue_ctrl m a) = 0"
  shows "qsim a B sz d buf h en ps m t ASkip (InCall ClearDone)
    (store CellSyncQueue_ctrl m a (put_push (load CellSyncQueue_ctrl m a) 1))"
proof -
  note q' = qctrl_clear_2 [OF qinvD(3) [OF inv] free t]
  have p: "qdata B sz d (buf t) m (InCall ClearDone)" by simp
  show ?thesis
    by (rule qsim_skip [OF qinv_ctrl(1) [OF inv q' p]]) (use t in \<open>simp add: qinv_ctrl(2) [OF inv q' p] qabs_same\<close>)
qed

lemma qsim_clear_3:
  assumes inv: "qinv a B sz d buf h en ps m" and t: "ps t = InCall ClearDone"
  shows "qsim a B sz d buf h en ps m t AClear Idle (store CellSyncQueue_ctrl m a \<lparr>x0 = 0, x4 = 0\<rparr>)"
proof -
  note q = qinvD(3) [OF inv]
  note q' = qctrl_clear_3 [OF q t]
  have tp: "take_pos ((ps(t := Idle)) u) = take_pos (ps u)" for u using t by simp
  have p: "qdata B sz d (buf t) m Idle" by simp
  have ab: "queue_spec d t AClear (qabs B sz d h en ps m) = Some (qabs B sz d 0 0 (ps(t := Idle)) m)"
    by (simp only: qabs_def tp queue_spec.simps) simp
  show ?thesis unfolding qsim_def
    by (intro exI conjI, rule qinv_ctrl(1) [OF inv q' p]) (simp only: qinv_ctrl(2) [OF inv q' p] ab)
qed

lemmas queue_begin_defs = queue_ctrl.atomic_op_load again_def push_end_def pop_end_def
  try_clear_begin_1_def try_clear_begin_2_def

lemma qsim_stay:
  "qinv a B sz d buf h en ps m \<Longrightarrow> qdata B sz d (buf t) m p \<Longrightarrow> ins_pos p = ins_pos (ps t) \<Longrightarrow>
   take_pos p = take_pos (ps t) \<Longrightarrow> pushing p = pushing (ps t) \<Longrightarrow> popping p = popping (ps t) \<Longrightarrow>
   qsim a B sz d buf h en ps m t ASkip p m"
  by (rule qsim_skip [OF qinv_same(1) qinv_same(2)]) assumption+

text \<open>Where an attempt leads: to the reserved program point, or nowhere with memory unchanged.\<close>

lemma try_push_cases:
  assumes "qinv a B sz d buf h en ps m" "\<not> popping (ps t)"
  obtains "atomic_op CellSyncQueue_ctrl (try_push_begin (of_nat d)) m a = (None, m)"
  | pos m' where "atomic_op CellSyncQueue_ctrl (try_push_begin (of_nat d)) m a = (Some pos, m')"
      "qsim a B sz d buf h en ps m t ASkip (InCall (PushBegun (buf t) pos)) m'"
proof -
  let ?c = "load CellSyncQueue_ctrl m a"
  note v = try_push_begin_view [OF qctrl_range [OF qinvD(3) [OF assms(1)]]]
  consider "try_push_begin (of_nat d) ?c = (None, ?c)" | c' where "try_push_begin (of_nat d) ?c = (Some (ctrl_next ?c), c')"
    using v by (auto split: if_splits)
  then show ?thesis
  proof cases
    case 1
    then show ?thesis by (intro that(1)) (simp add: queue_begin_defs mem_simps)
  next
    case 2
    then show ?thesis using qsim_push_begin [OF assms(1) 2 assms(2)]
      by (intro that(2) [of "ctrl_next ?c"]) (simp_all add: queue_begin_defs)
  qed
qed

lemma try_take_cases:
  assumes "qinv a B sz d buf h en ps m" "\<not> pushing (ps t)"
  obtains "atomic_op CellSyncQueue_ctrl (try_pop_begin (of_nat d)) m a = (None, m)"
      "atomic_op CellSyncQueue_ctrl (try_peek_begin (of_nat d)) m a = (None, m)"
  | pos m1 m2 where "atomic_op CellSyncQueue_ctrl (try_pop_begin (of_nat d)) m a = (Some pos, m1)"
      "atomic_op CellSyncQueue_ctrl (try_peek_begin (of_nat d)) m a = (Some pos, m2)"
      "qsim a B sz d buf h en ps m t (APop (entry m B sz (unat pos mod d))) (InCall (PopBegun (buf t) (of_nat d) pos)) m1"
      "qsim a B sz d buf h en ps m t (APeek (entry m B sz (unat pos mod d))) (InCall (PopBegun (buf t) (of_nat d) pos)) m2"
proof -
  let ?c = "load CellSyncQueue_ctrl m a"
  note v = try_pop_begin_view [OF qctrl_range [OF qinvD(3) [OF assms(1)]]]
  consider "try_pop_begin (of_nat d) ?c = (None, ?c)" "try_peek_begin (of_nat d) ?c = (None, ?c)"
    | pos c' c'' where "try_pop_begin (of_nat d) ?c = (Some pos, c')" "try_peek_begin (of_nat d) ?c = (Some pos, c'')"
    using v by (auto split: if_splits)
  then show ?thesis
  proof cases
    case 1
    then show ?thesis by (intro that(1)) (simp_all add: queue_begin_defs mem_simps)
  next
    case 2
    then show ?thesis using qsim_take [OF assms 2]
      by (intro that(2) [of pos]) (simp_all add: queue_begin_defs)
  qed
qed

lemma qinv_fields:
  assumes "qinv a B sz d buf h en ps m"
  shows "vm_cast64 (queue_buffer m a) = Some B" "queue_size m a = of_nat sz" "unat (of_nat sz :: u32) = sz"
    "check_depth m a = Some (of_nat d)"
proof -
  have f: "queue_buffer m a = ucast B" "queue_size m a = of_nat sz" "queue_depth m a = of_nat d" and sz: "sz < 2 ^ 32"
    using qinvD(1,2) [OF assms] by (auto simp: queue_fields_def queue_layout_def)
  then show "vm_cast64 (queue_buffer m a) = Some B" "queue_size m a = of_nat sz" "unat (of_nat sz :: u32) = sz" by simp_all
  have "ctrl_range d (load CellSyncQueue_ctrl m a)" by (rule qctrl_range [OF qinvD(3) [OF assms]])
  then have "unat (of_nat d :: u32) = d" "unat (ctrl_next (load CellSyncQueue_ctrl m a)) \<le> d"
      "unat (ctrl_count (load CellSyncQueue_ctrl m a)) \<le> d"
    by (auto simp: ctrl_range_def)
  then show "check_depth m a = Some (of_nat d)" using f by (simp add: check_depth_def Let_def word_less_nat_alt)
qed

lemma pos_mod_depth: "d < 2 ^ 32 \<Longrightarrow> (pos :: u32) mod of_nat d = of_nat (unat pos mod d)"
proof -
  assume d: "d < 2 ^ 32"
  have "unat pos mod d < 2 ^ 32" using unat_lt [of pos] by (simp add: le_less_trans [OF mod_less_eq_dividend])
  with d show ?thesis by (simp add: word_unat_eq_iff unat_mod)
qed

lemma qsim_copy_push:
  assumes inv: "qinv a B sz d buf h en ps m" and t: "ps t = InCall (PushCopy pos dst src n i)" and i: "i < n"
  shows "qsim a B sz d buf h en ps m t ASkip (InCall (PushCopy pos dst src n (Suc i))) (m(dst + of_nat i := m (src + of_nat i)))"
proof -
  note lay = layoutD [OF qinvD(1) [OF inv]]
  have d: "dst = B + of_nat (unat pos * sz)" "src = buf t" "n = sz" "copied m dst src i"
    using qinvD(4) [OF inv, of t] t by (auto simp del: of_nat_mult)
  have ip: "ins_pos (ps t) = Some pos" using t by simp
  have "apart src sz dst sz"
    using d apart_mono [OF lay(6) [of t] _ slot_region [OF ins_pos_less [OF qinvD(3) [OF inv] ip] lay(2)]] by simp
  then have cp: "copied (m(dst + of_nat i := m (src + of_nat i))) dst src (Suc i)"
    using i d lay(1) by (intro copied_update [of i sz]) auto
  have "dst + of_nat i \<in> region dst sz" using i d lay(1) by (intro in_region) auto
  then have eq: "(m(dst + of_nat i := m (src + of_nat i))) x = m x" if "x \<notin> region (B + of_nat (unat pos * sz)) sz" for x
    using that d(1) by auto
  show ?thesis
    by (rule qsim_skip; rule qinv_slot [OF inv ip eq]) (use t d cp i in \<open>simp_all del: of_nat_mult fun_upd_apply\<close>)
qed

lemma qsim_copy_pop:
  assumes inv: "qinv a B sz d buf h en ps m" and t: "ps t = InCall (PopCopy dep pos dst src n i)" and i: "i < n"
  shows "qsim a B sz d buf h en ps m t ASkip (InCall (PopCopy dep pos dst src n (Suc i))) (m(dst + of_nat i := m (src + of_nat i)))"
proof -
  note lay = layoutD [OF qinvD(1) [OF inv]]
  have d: "dst = buf t" "src = B + of_nat (unat pos mod d * sz)" "n = sz" "copied m dst src i"
    using qinvD(4) [OF inv, of t] t by (auto simp del: of_nat_mult)
  have "unat pos mod d < d" using lay(3) by simp
  then have "apart src sz dst sz"
    using d apart_mono [OF apart_sym [OF lay(6) [of t]] slot_region [OF _ lay(2)]] by simp
  then have cp: "copied (m(dst + of_nat i := m (src + of_nat i))) dst src (Suc i)"
    using i d lay(1) by (intro copied_update [of i sz]) auto
  have "dst + of_nat i \<in> region dst sz" using i d lay(1) by (intro in_region) auto
  then have eq: "(m(dst + of_nat i := m (src + of_nat i))) x = m x" if "x \<notin> region (buf t) sz" for x
    using that d(1) by auto
  show ?thesis
    by (rule qsim_skip; rule qinv_own [OF inv eq]) (use t d cp i in \<open>simp_all del: of_nat_mult fun_upd_apply\<close>)
qed

lemma qsim_resume_push:
  assumes inv: "qinv a B sz d buf h en ps m" and t: "ps t = InCall w"
    and w: "w = PushLoop b dep \<or> w = PushBegun b pos \<or> w = PushCopy pos dst src n i \<or> w = PushDone pos"
    and st: "resume_call w (queue_continue stopped a w m) = (p, m')"
  shows "qsim a B sz d buf h en ps m t (action_of B sz d (buf t) (QStep stopped) (ps t) p m) p m'"
proof -
  have dt: "qdata B sz d (buf t) m (InCall w)" using qinvD(4) [OF inv, of t] t by simp
  consider "w = PushLoop b dep" | "w = PushBegun b pos" | "w = PushCopy pos dst src n i" | "w = PushDone pos" using w by blast
  then show ?thesis
  proof cases
    case 1
    then have d: "b = buf t" "dep = of_nat d" and np: "\<not> popping (ps t)" using dt t by auto
    have stay: "qsim a B sz d buf h en ps m t ASkip (Dead w) m" "qsim a B sz d buf h en ps m t ASkip (InCall w) m"
      using t 1 dt by (auto intro!: qsim_stay [OF inv])
    show ?thesis
      by (rule try_push_cases [OF inv np]) (use st t 1 d stay in \<open>auto simp: again_def split: if_splits\<close>)
  next
    case 2
    then have "p = InCall (PushCopy pos (B + pos * of_nat sz) b sz 0)" "m' = m" using st by (auto simp: qinv_fields [OF inv])
    moreover have "qsim a B sz d buf h en ps m t ASkip (InCall (PushCopy pos (B + pos * of_nat sz) b sz 0)) m"
      using t dt 2 by (intro qsim_stay [OF inv]) auto
    ultimately show ?thesis using t 2 by simp
  next
    case 3
    have "qsim a B sz d buf h en ps m t ASkip (InCall (PushDone pos)) m" if "\<not> i < n"
      using t dt 3 that by (intro qsim_stay [OF inv]) auto
    then show ?thesis using st t 3 qsim_copy_push [OF inv, of t pos dst src n i] by (auto split: if_splits)
  next
    case 4
    then show ?thesis using st t qsim_push_end [OF inv, of t pos] by (auto simp: queue_begin_defs)
  qed
qed

lemma qsim_resume_pop:
  assumes inv: "qinv a B sz d buf h en ps m" and t: "ps t = InCall w"
    and w: "w = PopLoop b dep \<or> w = PeekLoop b dep \<or> w = PopBegun b dep pos \<or> w = PopCopy dep pos dst src n i \<or> w = PopDone dep pos"
    and st: "resume_call w (queue_continue stopped a w m) = (p, m')"
  shows "qsim a B sz d buf h en ps m t (action_of B sz d (buf t) (QStep stopped) (ps t) p m) p m'"
proof -
  have dt: "qdata B sz d (buf t) m (InCall w)" using qinvD(4) [OF inv, of t] t by simp
  consider "w = PopLoop b dep \<or> w = PeekLoop b dep" | "w = PopBegun b dep pos" | "w = PopCopy dep pos dst src n i" | "w = PopDone dep pos"
    using w by blast
  then show ?thesis
  proof cases
    case 1
    then have d: "b = buf t" "dep = of_nat d" and np: "\<not> pushing (ps t)" "take_pos (ps t) = None" using dt t by auto
    have stay: "qsim a B sz d buf h en ps m t ASkip (Dead w) m" "qsim a B sz d buf h en ps m t ASkip (InCall w) m"
      using t 1 dt by (auto intro!: qsim_stay [OF inv])
    show ?thesis unfolding t
      by (rule try_take_cases [OF inv np(1)]) (use st 1 d stay in \<open>auto simp: again_def split: if_splits\<close>)
  next
    case 2
    let ?src = "B + of_nat (unat pos mod d * sz)"
    have "d < 2 ^ 32" using qctrlD(2) [OF qinvD(3) [OF inv]] by simp
    then have "p = InCall (PopCopy dep pos b ?src sz 0)" "m' = m"
      using st 2 dt by (auto simp: qinv_fields [OF inv] pos_mod_depth)
    moreover have "qsim a B sz d buf h en ps m t ASkip (InCall (PopCopy dep pos b ?src sz 0)) m"
      using t dt 2 by (intro qsim_stay [OF inv]) (auto simp del: of_nat_mult)
    ultimately show ?thesis using t 2 by simp
  next
    case 3
    have "qsim a B sz d buf h en ps m t ASkip (InCall (PopDone dep pos)) m" if "\<not> i < n"
      using t dt 3 that by (intro qsim_stay [OF inv]) (auto simp del: of_nat_mult)
    then show ?thesis using st t 3 qsim_copy_pop [OF inv, of t dep pos dst src n i] by (auto split: if_splits)
  next
    case 4
    then show ?thesis using st t qsim_pop_end [OF inv, of t dep pos] by (auto simp: queue_begin_defs)
  qed
qed

lemma qsim_resume_clear:
  assumes inv: "qinv a B sz d buf h en ps m" and t: "ps t = InCall w"
    and w: "w = ClearLoop1 \<or> w = ClearLoop2 \<or> w = ClearDone"
    and st: "resume_call w (queue_continue stopped a w m) = (p, m')"
  shows "qsim a B sz d buf h en ps m t (action_of B sz d (buf t) (QStep stopped) (ps t) p m) p m'"
proof -
  have stay: "qsim a B sz d buf h en ps m t ASkip (InCall w) m"
    using t qinvD(4) [OF inv, of t] by (intro qsim_stay [OF inv]) auto
  have dead: "qsim a B sz d buf h en ps m t ASkip (Dead w) m" if "w \<noteq> ClearDone"
    using t w that by (intro qsim_stay [OF inv]) auto
  consider "w = ClearLoop1" | "w = ClearLoop2" | "w = ClearDone" using w by blast
  then show ?thesis
  proof cases
    case 1
    then show ?thesis using st t stay dead qsim_clear_1 [OF inv, of t]
      by (auto simp: queue_begin_defs mem_simps split: if_splits)
  next
    case 2
    then show ?thesis using st t stay dead qsim_clear_2 [OF inv, of t]
      by (auto simp: queue_begin_defs mem_simps split: if_splits)
  next
    case 3
    then show ?thesis using st t qsim_clear_3 [OF inv, of t] by auto
  qed
qed

lemmas queue_call_defs = cellSyncQueuePush_def cellSyncQueueTryPush_def cellSyncQueuePop_def cellSyncQueueTryPop_def
  cellSyncQueuePeek_def cellSyncQueueTryPeek_def cellSyncQueueClear_def queue_checks_def

lemma qsim_enter:
  assumes inv: "qinv a B sz d buf h en ps m" and t: "ps t = Idle"
    and e: "e \<noteq> QStep stopped" and st: "queue_step a sz buf t e Idle m = Some (p, m')"
  shows "qsim a B sz d buf h en ps m t (action_of B sz d (buf t) e Idle p m) p m'"
proof -
  have lay: "a \<noteq> 0" "aligned a 32" "buf t \<noteq> 0" using qinvD(1) [OF inv] by (auto simp: queue_layout_def)
  note chk = lay qinv_fields(4) [OF inv]
  have stay: "qsim a B sz d buf h en ps m t ASkip Idle m"
      "qsim a B sz d buf h en ps m t ASkip (InCall (PushLoop (buf t) (of_nat d))) m"
      "qsim a B sz d buf h en ps m t ASkip (InCall (PopLoop (buf t) (of_nat d))) m"
      "qsim a B sz d buf h en ps m t ASkip (InCall (PeekLoop (buf t) (of_nat d))) m"
      "qsim a B sz d buf h en ps m t ASkip (InCall ClearLoop1) m"
    using t by (auto intro!: qsim_stay [OF inv])
  have np: "\<not> popping (ps t)" "\<not> pushing (ps t)" using t by simp_all
  show ?thesis
  proof (cases e)
    case (QFill bs)
    then have s: "p = Idle" "m' = write_bytes m (buf t) bs" "length bs = sz" using st by (auto split: if_splits)
    have eq: "write_bytes m (buf t) bs x = m x" if "x \<notin> region (buf t) sz" for x
      using that s(3) by (simp add: write_bytes_outside)
    have "qsim a B sz d buf h en ps m t ASkip Idle (write_bytes m (buf t) bs)"
      by (rule qsim_skip; rule qinv_own [OF inv eq]) (use t in simp_all)
    then show ?thesis using s QFill by simp
  next
    case QTryPush
    show ?thesis by (rule try_push_cases [OF inv np(1)]) (use st QTryPush chk stay in \<open>auto simp: queue_call_defs\<close>)
  next
    case QTryPop
    show ?thesis by (rule try_take_cases [OF inv np(2)]) (use st QTryPop chk stay in \<open>auto simp: queue_call_defs\<close>)
  next
    case QTryPeek
    show ?thesis by (rule try_take_cases [OF inv np(2)]) (use st QTryPeek chk stay in \<open>auto simp: queue_call_defs\<close>)
  qed (use st chk stay in \<open>auto simp: queue_call_defs\<close>)
qed

lemma queue_step_sim:
  assumes inv: "qinv a B sz d buf h en ps m" and st: "queue_step a sz buf t e (ps t) m = Some (p, m')"
  shows "qsim a B sz d buf h en ps m t (action_of B sz d (buf t) e (ps t) p m) p m'"
proof (cases "ps t")
  case Idle
  then show ?thesis using qsim_enter [OF inv Idle, of e] st by (cases e) auto
next
  case (InCall w)
  then obtain stopped where e: "e = QStep stopped" using st by (cases e) auto
  with st InCall have st': "resume_call w (queue_continue stopped a w m) = (p, m')" by simp
  show ?thesis unfolding e
    using qsim_resume_push [OF inv InCall _ st'] qsim_resume_pop [OF inv InCall _ st'] qsim_resume_clear [OF inv InCall _ st']
    by (cases w) blast+
qed (use st in \<open>cases e; auto\<close>)

lemma queue_step_inv:
  assumes "queue_inv a B sz d buf ps m" "queue_step a sz buf t e (ps t) m = Some (p, m')"
  shows "queue_inv a B sz d buf (ps(t := p)) m'"
proof -
  obtain h en where "qinv a B sz d buf h en ps m" using assms(1) by (auto simp: queue_inv_def)
  from queue_step_sim [OF this assms(2)] show ?thesis unfolding qsim_def queue_inv_def by blast
qed

interpretation queue_threads: thread_invariant "queue_step a sz buf" "queue_inv a B sz d buf" for a B sz d buf
  by unfold_locales (rule queue_step_inv)

lemma queue_step_refines:
  assumes inv: "queue_inv a B sz d buf ps m" and st: "queue_step a sz buf t e (ps t) m = Some (p, m')"
  shows "queue_spec d t (action_of B sz d (buf t) e (ps t) p m) (queue_abs a B sz d ps m) =
    Some (queue_abs a B sz d (ps(t := p)) m')"
proof -
  obtain h en where i: "qinv a B sz d buf h en ps m" using inv by (auto simp: queue_inv_def)
  from queue_step_sim [OF i st] obtain h' en' where i': "qinv a B sz d buf h' en' (ps(t := p)) m'"
    and sp: "queue_spec d t (action_of B sz d (buf t) e (ps t) p m) (qabs B sz d h en ps m) = Some (qabs B sz d h' en' (ps(t := p)) m')"
    by (auto simp: qsim_def)
  show ?thesis using sp by (simp only: queue_abs_qabs [OF qinvD(3) [OF i]] queue_abs_qabs [OF qinvD(3) [OF i']])
qed

lemma queue_initialize:
  assumes lay: "queue_layout a B (unat sz) (unat depth) buf"
  shows "\<exists>m1. cellSyncQueueInitialize a B sz depth m = (CELL_OK, m1) \<and>
    load CellSyncQueue_ctrl m1 a = \<lparr>x0 = 0, x4 = 0\<rparr> \<and> queue_fields a B (unat sz) (unat depth) m1"
proof -
  have l: "a \<noteq> 0" "aligned a 32" "unat sz \<noteq> 0 \<longrightarrow> B \<noteq> 0" "aligned B 16" "unat sz mod 16 = 0" "0 < unat depth"
    using lay by (auto simp: queue_layout_def)
  have "unat (sz mod 16) = 0" using l by (simp add: unat_mod)
  then have z: "sz mod 16 = 0" "depth \<noteq> 0" "sz \<noteq> 0 \<longrightarrow> B \<noteq> 0" using l by (auto simp: unat_eq_zero)
  have ap: "apart a 8 (a + 8) 4" "apart a 8 (a + 12) 4" "apart a 8 (a + 16) 8" "apart (a + 8) 4 (a + 12) 4"
      "apart (a + 8) 4 (a + 16) 8" "apart (a + 12) 4 (a + 16) 8"
    using apart_offsets [of 0 8 8 4 a] apart_offsets [of 0 8 12 4 a] apart_offsets [of 0 8 16 8 a]
      apart_offsets [of 8 4 12 4 a] apart_offsets [of 8 4 16 8 a] apart_offsets [of 12 4 16 8 a] by simp_all
  let ?m = "store be64 (store be32 (store be32 (store CellSyncQueue_ctrl m a \<lparr>x0 = 0, x4 = 0\<rparr>) (a + 8) sz) (a + 12) depth) (a + 16) (ucast B)"
  have "cellSyncQueueInitialize a B sz depth m = (0, ?m)"
    using l z by (auto simp: cellSyncQueueInitialize_def Let_def)
  moreover have "load CellSyncQueue_ctrl ?m a = \<lparr>x0 = 0, x4 = 0\<rparr>"
    using ap by (simp add: be32.load_other be64.load_other mem_simps)
  moreover have "queue_fields a B (unat sz) (unat depth) ?m"
    using ap by (simp add: queue_fields_def queue_size_def queue_depth_def queue_buffer_def be32.load_other be64.load_other mem_simps)
  ultimately show ?thesis by simp
qed

lemma queue_start_inv:
  assumes lay: "queue_layout a B (unat sz) (unat depth) buf"
  shows "qinv a B (unat sz) (unat depth) buf 0 0 (\<lambda>_. Idle) (snd (cellSyncQueueInitialize a B sz depth m))"
proof -
  have "qctrl (unat depth) (\<lambda>_. Idle) \<lparr>x0 = 0, x4 = 0\<rparr> 0 0" using lay by (simp add: qctrl_def flag_def queue_layout_def)
  with lay queue_initialize [OF lay, of m] show ?thesis by (auto simp: qinv_def)
qed

lemma queue_start_abs:
  fixes buf :: "'t \<Rightarrow> addr"
  assumes "queue_layout a B (unat sz) (unat depth) buf"
  shows "queue_abs a B (unat sz) (unat depth) (\<lambda>_::'t. Idle) (snd (cellSyncQueueInitialize a B sz depth m)) = ([], \<lambda>_. None)"
  by (simp add: queue_abs_qabs [OF qinvD(3) [OF queue_start_inv [OF assms]]] qabs_def inserting_def)

lemma queue_reachable_inv:
  assumes lay: "queue_layout a B (unat sz) (unat depth) buf"
    and reach: "reachable (queue_step a (unat sz) buf) (\<lambda>_. Idle, snd (cellSyncQueueInitialize a B sz depth m0)) (ps, m)"
  shows "queue_inv a B (unat sz) (unat depth) buf ps m"
proof -
  have "queue_inv a B (unat sz) (unat depth) buf (\<lambda>_. Idle) (snd (cellSyncQueueInitialize a B sz depth m0))"
    using queue_start_inv [OF lay] unfolding queue_inv_def by blast
  then show ?thesis using queue_threads.reachable_inv [OF reach, of B "unat depth"] by simp
qed

section \<open>Histories\<close>

text \<open>The actions of a schedule, and their effect on the abstract queue.\<close>

fun queue_actions :: "addr \<Rightarrow> addr \<Rightarrow> nat \<Rightarrow> nat \<Rightarrow> ('t \<Rightarrow> addr) \<Rightarrow> ('t \<times> queue_event) list \<Rightarrow>
    ('t \<Rightarrow> queue_pc thread_state) \<times> mem \<Rightarrow> ('t \<times> queue_action) list" where
  "queue_actions a B sz d buf [] c = []"
| "queue_actions a B sz d buf ((t, e) # es) c =
     (case queue_step a sz buf t e (fst c t) (snd c) of
        None \<Rightarrow> []
      | Some (p, m') \<Rightarrow> (t, action_of B sz d (buf t) e (fst c t) p (snd c)) #
          queue_actions a B sz d buf es ((fst c)(t := p), m'))"

fun spec_run :: "nat \<Rightarrow> ('t \<times> queue_action) list \<Rightarrow> 't aqueue \<Rightarrow> 't aqueue option" where
  "spec_run d [] x = Some x"
| "spec_run d ((t, act) # acts) x = (case queue_spec d t act x of None \<Rightarrow> None | Some x' \<Rightarrow> spec_run d acts x')"

fun pushed :: "('t \<times> queue_action) list \<Rightarrow> u8 list list" where
  "pushed [] = []"
| "pushed ((t, APush x) # acts) = x # pushed acts"
| "pushed (_ # acts) = pushed acts"

fun popped :: "('t \<times> queue_action) list \<Rightarrow> u8 list list" where
  "popped [] = []"
| "popped ((t, APop x) # acts) = x # popped acts"
| "popped (_ # acts) = popped acts"

lemma queue_actions_run:
  "queue_inv a B sz d buf ps m \<Longrightarrow> run_schedule (queue_step a sz buf) es (ps, m) = Some (ps', m') \<Longrightarrow>
     queue_inv a B sz d buf ps' m' \<and>
     spec_run d (queue_actions a B sz d buf es (ps, m)) (queue_abs a B sz d ps m) = Some (queue_abs a B sz d ps' m')"
proof (induction es arbitrary: ps m)
  case (Cons x es)
  obtain t e where x: "x = (t, e)" by (cases x)
  from Cons.prems(2) obtain p m1 where st: "queue_step a sz buf t e (ps t) m = Some (p, m1)"
    and run: "run_schedule (queue_step a sz buf) es (ps(t := p), m1) = Some (ps', m')"
    by (auto simp: x split: option.splits)
  show ?case
    using Cons.IH [OF queue_step_inv [OF Cons.prems(1) st] run] queue_step_refines [OF Cons.prems(1) st]
    by (simp add: x st fun_upd_def)
qed simp

lemma spec_fifo:
  assumes "spec_run d acts (L, H) = Some (L', H')" "\<forall>t. (t, AClear) \<notin> set acts"
  shows "L @ pushed acts = popped acts @ L'"
  using assms
proof (induction d acts "(L, H)" arbitrary: L H rule: spec_run.induct)
  case (2 d t act acts)
  then obtain L1 H1 where st: "queue_spec d t act (L, H) = Some (L1, H1)" and run: "spec_run d acts (L1, H1) = Some (L', H')"
    by (auto split: option.splits)
  have IH: "L1 @ pushed acts = popped acts @ L'" using 2 st run by auto
  show ?case using st IH 2(3) by (cases act) (auto split: if_splits list.splits)
qed simp

fun clearing :: "queue_pc thread_state \<Rightarrow> bool" where
  "clearing (InCall ClearLoop1) = True"
| "clearing (InCall ClearLoop2) = True"
| "clearing (InCall ClearDone) = True"
| "clearing _ = False"

lemma queue_step_no_clear:
  assumes "queue_step a sz buf t e q m = Some (p, m')" "e \<noteq> QClear" "\<not> clearing q"
  shows "\<not> clearing p \<and> action_of B sz d (buf t) e q p m \<noteq> AClear"
proof (cases q)
  case Idle
  with assms show ?thesis
    by (cases e) (auto simp: queue_call_defs Let_def split: if_splits option.splits prod.splits)
next
  case (InCall w)
  then obtain stopped where e: "e = QStep stopped" using assms by (cases e) auto
  with assms InCall have "resume_call w (queue_continue stopped a w m) = (p, m')" by simp
  with assms(3) InCall e show ?thesis
    by (cases w) (auto simp: again_def split: if_splits option.splits prod.splits)
qed (use assms in \<open>cases e; auto\<close>)

lemma queue_actions_no_clear:
  "\<forall>t. (t, QClear) \<notin> set es \<Longrightarrow> \<forall>t. \<not> clearing (ps t) \<Longrightarrow> (t, AClear) \<notin> set (queue_actions a B sz d buf es (ps, m))"
proof (induction es arbitrary: ps m)
  case (Cons x es)
  obtain u e where x: "x = (u, e)" by (cases x)
  show ?case
  proof (cases "queue_step a sz buf u e (ps u) m")
    case (Some r)
    obtain p m' where r: "r = (p, m')" by (cases r)
    have e: "e \<noteq> QClear" and u: "\<not> clearing (ps u)" using Cons.prems x by auto
    have nc: "\<not> clearing p" "action_of B sz d (buf u) e (ps u) p m \<noteq> AClear"
      using queue_step_no_clear [OF Some [unfolded r] e u] by auto
    have "(t, AClear) \<notin> set (queue_actions a B sz d buf es (ps(u := p), m'))"
      by (rule Cons.IH) (use Cons.prems nc in simp_all)
    then show ?thesis using nc(2) by (simp add: x Some r)
  qed (simp add: x)
qed simp

lemma run_schedule_append:
  "run_schedule step es c = Some c1 \<Longrightarrow> run_schedule step (es @ es') c = run_schedule step es' c1"
  by (induction step es c rule: run_schedule.induct) (auto split: option.splits)

text \<open>A copy loop ends: it takes one step per byte and one to leave.\<close>

lemma queue_push_copy_ends:
  "ps t = InCall (PushCopy pos dst src (i + k) i) \<Longrightarrow>
   \<exists>m'. run_schedule (queue_step a sz buf) (replicate (Suc k) (t, QStep False)) (ps, m) =
     Some (ps(t := InCall (PushDone pos)), m')"
proof (induction k arbitrary: ps i m)
  case 0
  then show ?case by (intro exI [of _ m]) (simp add: fun_eq_iff)
next
  case (Suc k)
  let ?ps = "ps(t := InCall (PushCopy pos dst src (Suc i + k) (Suc i)))" and ?m = "m(dst + of_nat i := m (src + of_nat i))"
  have "queue_step a sz buf t (QStep False) (ps t) m = Some (InCall (PushCopy pos dst src (Suc i + k) (Suc i)), ?m)"
    using Suc.prems by simp
  then have "run_schedule (queue_step a sz buf) (replicate (Suc (Suc k)) (t, QStep False)) (ps, m) =
      run_schedule (queue_step a sz buf) (replicate (Suc k) (t, QStep False)) (?ps, ?m)"
    by (simp only: replicate_Suc [of "Suc k"] run_schedule.simps fst_conv snd_conv option.case prod.case)
  moreover obtain m' where "run_schedule (queue_step a sz buf) (replicate (Suc k) (t, QStep False)) (?ps, ?m) =
      Some (?ps(t := InCall (PushDone pos)), m')"
    using Suc.IH [of ?ps "Suc i" ?m] by (auto simp only: fun_upd_same)
  ultimately show ?case by (simp only: fun_upd_upd) blast
qed

section \<open>Properties\<close>

text \<open>C8: the queue refines the abstract queue. From an initialised queue, every atomic step of
  every thread, in any interleaving of pushes, pops, peeks, clears and threads being stopped, is
  the step of the abstract bounded queue that its program point stands for: releasing a push
  appends the caller's bytes, reserving a pop or a peek takes exactly the head entry, releasing
  it has delivered exactly that entry to the caller's buffer, a clear empties the queue, and all
  other steps, among them every single byte copied, change nothing. The depth is below 2^24, the width of
  the counters (\<open>cellSyncQueueInitialize\<close> does not check this), and object, ring buffer and the
  callers' buffers do not overlap.\<close>

theorem queue_refines:
  assumes "queue_layout a B (unat sz) (unat depth) buf"
    and "reachable (queue_step a (unat sz) buf) (\<lambda>_. Idle, snd (cellSyncQueueInitialize a B sz depth m0)) (ps, m)"
    and "queue_step a (unat sz) buf t e (ps t) m = Some (p, m')"
  shows "queue_spec (unat depth) t (action_of B (unat sz) (unat depth) (buf t) e (ps t) p m)
      (queue_abs a B (unat sz) (unat depth) ps m) =
    Some (queue_abs a B (unat sz) (unat depth) (ps(t := p)) m')"
  by (rule queue_step_refines [OF queue_reachable_inv [OF assms(1,2)] assms(3)])

theorem queue_refines_witness:
  "\<exists>p m'. queue_step 0x1000 16 (\<lambda>t::bool. if t then 0x3000 else 0x4000) True QTryPush Idle
       (snd (cellSyncQueueInitialize 0x1000 0x2000 16 2 (\<lambda>_. 0))) = Some (p, m') \<and>
     queue_spec 2 True ASkip
       (queue_abs 0x1000 0x2000 16 2 (\<lambda>_::bool. Idle) (snd (cellSyncQueueInitialize 0x1000 0x2000 16 2 (\<lambda>_. 0)))) =
     Some (queue_abs 0x1000 0x2000 16 2 ((\<lambda>_. Idle)(True := p)) m')"
proof -
  let ?buf = "\<lambda>t::bool. if t then 0x3000 else 0x4000 :: addr"
  let ?m = "snd (cellSyncQueueInitialize 0x1000 0x2000 16 2 (\<lambda>_. 0))"
  have lay: "queue_layout 0x1000 0x2000 (unat (16 :: u32)) (unat (2 :: u32)) ?buf"
    by (auto simp: queue_layout_def aligned_def intro!: apartI)
  have sz: "unat (16 :: u32) = 16" "unat (2 :: u32) = 2" by simp_all
  obtain p m' where e: "enter_call (cellSyncQueueTryPush 0x1000 0x3000 ?m) = (p, m')" by (meson surj_pair)
  then have st: "queue_step 0x1000 16 ?buf True QTryPush Idle ?m = Some (p, m')" by simp
  have act: "action_of 0x2000 16 2 0x3000 QTryPush Idle p ?m = ASkip" by simp
  show ?thesis
    using queue_refines [OF lay reachable_init, where t = True and e = QTryPush and p = p and m' = m', unfolded sz, OF st]
    unfolding if_True act using st by blast
qed

text \<open>C9: first in, first out. After any schedule from an initialised queue in which no thread
  calls \<open>Clear\<close>, the entries pushed are, in order, the entries popped followed by the entries
  still queued, and there are never more of those than the depth (which is below 2^24, with object, ring
  buffer and callers' buffers apart).\<close>

theorem queue_fifo:
  assumes "queue_layout a B (unat sz) (unat depth) buf"
    and "c0 = (\<lambda>_. Idle, snd (cellSyncQueueInitialize a B sz depth m0))"
    and "run_schedule (queue_step a (unat sz) buf) es c0 = Some (ps, m)"
    and "\<forall>t. (t, QClear) \<notin> set es"
  shows "pushed (queue_actions a B (unat sz) (unat depth) buf es c0) =
      popped (queue_actions a B (unat sz) (unat depth) buf es c0) @ fst (queue_abs a B (unat sz) (unat depth) ps m) \<and>
    length (fst (queue_abs a B (unat sz) (unat depth) ps m)) \<le> unat depth"
proof -
  let ?acts = "queue_actions a B (unat sz) (unat depth) buf es c0"
  have inv0: "queue_inv a B (unat sz) (unat depth) buf (\<lambda>_. Idle) (snd (cellSyncQueueInitialize a B sz depth m0))"
    using queue_start_inv [OF assms(1)] unfolding queue_inv_def by blast
  note run = queue_actions_run [OF inv0 assms(3) [unfolded assms(2)], folded assms(2)]
  obtain L H where abs: "queue_abs a B (unat sz) (unat depth) ps m = (L, H)" by fastforce
  have sp: "spec_run (unat depth) ?acts ([], \<lambda>_. None) = Some (L, H)"
    using run abs by (simp add: queue_start_abs [OF assms(1)])
  have "\<forall>t. (t, AClear) \<notin> set ?acts" using assms(4) unfolding assms(2) by (intro allI queue_actions_no_clear) simp_all
  with spec_fifo [OF sp] have "pushed ?acts = popped ?acts @ L" by simp
  moreover obtain h en where "qinv a B (unat sz) (unat depth) buf h en ps m" using run by (auto simp: queue_inv_def)
  then have "length L \<le> unat depth"
    using abs queue_abs_qabs [OF qinvD(3)] qctrlD(4) [OF qinvD(3)] by (fastforce simp: qabs_def)
  ultimately show ?thesis using abs by simp
qed

theorem queue_fifo_witness:
  "\<exists>ps m. run_schedule (queue_step 0x1000 16 (\<lambda>t::bool. if t then 0x3000 else 0x4000))
      ([(True, QTryPush), (True, QStep False)] @ replicate 17 (True, QStep False))
      (\<lambda>_. Idle, snd (cellSyncQueueInitialize 0x1000 0x2000 16 2 (\<lambda>_. 0))) = Some (ps, m) \<and>
    ps True = InCall (PushDone 0) \<and> length (fst (queue_abs 0x1000 0x2000 16 2 ps m)) \<le> 2"
proof -
  let ?buf = "\<lambda>t::bool. if t then 0x3000 else 0x4000 :: addr"
  let ?c0 = "(\<lambda>_::bool. Idle, snd (cellSyncQueueInitialize 0x1000 0x2000 16 2 (\<lambda>_. 0)))"
  let ?es = "[(True, QTryPush), (True, QStep False)] @ replicate (Suc 16) (True, QStep False)"
  have lay: "queue_layout 0x1000 0x2000 (unat (16 :: u32)) (unat (2 :: u32)) ?buf"
    by (auto simp: queue_layout_def aligned_def intro!: apartI)
  obtain m1 where m1: "snd ?c0 = m1" "load CellSyncQueue_ctrl m1 0x1000 = \<lparr>x0 = 0, x4 = 0\<rparr>" "queue_fields 0x1000 0x2000 16 2 m1"
    using queue_initialize [OF lay, of "\<lambda>_. 0"] by auto
  have push: "try_push_begin 2 \<lparr>x0 = 0, x4 = 0\<rparr> = (Some 0, \<lparr>x0 = 1, x4 = 0x01000001\<rparr>)" by code_simp
  obtain ps m where run1: "run_schedule (queue_step 0x1000 16 ?buf) [(True, QTryPush), (True, QStep False)] ?c0 = Some (ps, m)"
    and ps: "ps True = InCall (PushCopy 0 0x2000 0x3000 (0 + 16) 0)"
    using m1 queue_fields_ctrl [of "0x1000" "0x2000" 16 2 m1 "\<lparr>x0 = 1, x4 = 0x01000001\<rparr>"] vm_cast64_ucast [where p = "0x2000"]
    by (simp add: queue_call_defs aligned_def queue_ctrl.atomic_op_load push queue_fields_def check_depth_def)
  obtain m' where run2: "run_schedule (queue_step 0x1000 16 ?buf) (replicate (Suc 16) (True, QStep False)) (ps, m) =
      Some (ps(True := InCall (PushDone 0)), m')"
    using queue_push_copy_ends [of ps True, OF ps] by blast
  have run: "run_schedule (queue_step 0x1000 16 ?buf) ?es ?c0 = Some (ps(True := InCall (PushDone 0)), m')"
    by (simp only: run_schedule_append [OF run1] run2)
  have sz: "unat (16 :: u32) = 16" "unat (2 :: u32) = 2" by simp_all
  have nc: "\<forall>t. (t, QClear) \<notin> set ?es" by simp
  have "length (fst (queue_abs 0x1000 0x2000 16 2 (ps(True := InCall (PushDone 0))) m')) \<le> 2"
    by (rule conjunct2 [OF queue_fifo [OF lay refl, unfolded sz, OF run nc]])
  moreover have "replicate 17 (True, QStep False) = replicate (Suc 16) (True, QStep False)" by simp
  ultimately show ?thesis using run by (metis fun_upd_same)
qed

text \<open>C10: \<open>cellSyncQueueSize\<close> returns the number of entries queued, counting one that is being
  pushed at that moment; it never throws on a queue that is only used through the calls, of a depth
  below 2^24 and with object, ring buffer and callers' buffers apart.\<close>

theorem queue_size_counts:
  assumes "queue_layout a B (unat sz) (unat depth) buf"
    and "reachable (queue_step a (unat sz) buf) (\<lambda>_. Idle, snd (cellSyncQueueInitialize a B sz depth m0)) (ps, m)"
  shows "cellSyncQueueSize a m =
    Returned (of_nat (length (fst (queue_abs a B (unat sz) (unat depth) ps m)) + inserting ps))"
proof -
  obtain h en where inv: "qinv a B (unat sz) (unat depth) buf h en ps m"
    using queue_reachable_inv [OF assms] by (auto simp: queue_inv_def)
  note q = qinvD(3) [OF inv]
  let ?n = "ctrl_count (load CellSyncQueue_ctrl m a)"
  have "length (fst (queue_abs a B (unat sz) (unat depth) ps m)) + inserting ps = unat ?n"
    using inserting_less [OF q] qctrlD(3,6) [OF q] by (simp add: queue_abs_qabs [OF q] qabs_def)
  moreover have "?n AND 0xffffff = ?n"
  proof -
    have "?n AND 0xffffff = take_bit 24 ?n" by (simp add: take_bit_eq_mask mask_eq_exp_minus_1)
    also have "\<dots> = ?n" using f_count.get_bound [of "load CellSyncQueue_ctrl m a"]
      by (simp add: take_bit_word_eq_self word_unat_eq_iff unsigned_take_bit_eq take_bit_nat_eq_self)
    finally show ?thesis .
  qed
  ultimately show ?thesis
    using qinvD(1) [OF inv] qinv_fields(4) [OF inv] by (simp add: cellSyncQueueSize_def queue_layout_def)
qed

theorem queue_size_counts_witness:
  "cellSyncQueueSize 0x1000 (snd (cellSyncQueueInitialize 0x1000 0x2000 16 2 (\<lambda>_. 0))) = Returned 0"
proof -
  let ?buf = "\<lambda>t::bool. if t then 0x3000 else 0x4000 :: addr"
  let ?m = "snd (cellSyncQueueInitialize 0x1000 0x2000 16 2 (\<lambda>_. 0))"
  have lay: "queue_layout 0x1000 0x2000 (unat (16 :: u32)) (unat (2 :: u32)) ?buf"
    by (auto simp: queue_layout_def aligned_def intro!: apartI)
  show ?thesis
    using queue_size_counts [OF lay reachable_init, of "\<lambda>_. 0"] queue_start_abs [OF lay, of "\<lambda>_. 0"]
    by (simp add: inserting_def)
qed

end
