(* ===== verification/Ppu_Opcode.thy ===== *)
theory Ppu_Opcode
  imports Bit_Field "HOL-Library.Signed_Division"
begin

text \<open>
  PPU instruction words (\<^verbatim>\<open>Emu/Cell/PPUOpcodes.h\<close>): the fields of \<^verbatim>\<open>ppu_opcode_t\<close>, the
  rotate mask, the decoder key, and the small assembler of
  \<^verbatim>\<open>namespace ppu_instructions\<close>. Signed fields are kept as the bit pattern of their \<open>s32\<close>
  value.
\<close>

type_synonym ppu_opcode = u32

section \<open>Fields\<close>

text \<open>\<open>ppu_bf_t\<close> counts bits from the most significant one.\<close>

definition ppu_bf :: "nat \<Rightarrow> nat \<Rightarrow> ppu_opcode \<Rightarrow> u32" where
  "ppu_bf i n op = bf_extract (32 - n - i) n op"

definition ppu_sbf :: "nat \<Rightarrow> nat \<Rightarrow> ppu_opcode \<Rightarrow> u32" where
  "ppu_sbf i n op = bf_sextract (32 - n - i) n op"

definition ppu_set :: "nat \<Rightarrow> nat \<Rightarrow> ppu_opcode \<Rightarrow> u32 \<Rightarrow> ppu_opcode" where
  "ppu_set i n op v = bf_assign (32 - n - i) n op v"

definition op_main :: "ppu_opcode \<Rightarrow> u32" where "op_main = ppu_bf 0 6"
definition op_sh64 :: "ppu_opcode \<Rightarrow> u32" where
  "op_sh64 = cf_extract [Unsigned (32 - 1 - 30) 1, Unsigned (32 - 5 - 16) 5]"
definition op_mbe64 :: "ppu_opcode \<Rightarrow> u32" where
  "op_mbe64 = cf_extract [Unsigned (32 - 1 - 26) 1, Unsigned (32 - 5 - 21) 5]"
definition op_vs :: "ppu_opcode \<Rightarrow> u32" where "op_vs = ppu_bf 6 5"
definition op_oe :: "ppu_opcode \<Rightarrow> u32" where "op_oe = ppu_bf 21 1"
definition op_spr :: "ppu_opcode \<Rightarrow> u32" where "op_spr = ppu_bf 11 10"
definition op_vc :: "ppu_opcode \<Rightarrow> u32" where "op_vc = ppu_bf 21 5"
definition op_vb :: "ppu_opcode \<Rightarrow> u32" where "op_vb = ppu_bf 16 5"
definition op_va :: "ppu_opcode \<Rightarrow> u32" where "op_va = ppu_bf 11 5"
definition op_vd :: "ppu_opcode \<Rightarrow> u32" where "op_vd = ppu_bf 6 5"
definition op_vuimm :: "ppu_opcode \<Rightarrow> u32" where "op_vuimm = ppu_bf 11 5"
definition op_vsh :: "ppu_opcode \<Rightarrow> u32" where "op_vsh = ppu_bf 22 4"
definition op_vsimm :: "ppu_opcode \<Rightarrow> u32" where "op_vsimm = ppu_sbf 11 5"
definition op_lk :: "ppu_opcode \<Rightarrow> u32" where "op_lk = ppu_bf 31 1"
definition op_aa :: "ppu_opcode \<Rightarrow> u32" where "op_aa = ppu_bf 30 1"
definition op_rb :: "ppu_opcode \<Rightarrow> u32" where "op_rb = ppu_bf 16 5"
definition op_ra :: "ppu_opcode \<Rightarrow> u32" where "op_ra = ppu_bf 11 5"
definition op_rd :: "ppu_opcode \<Rightarrow> u32" where "op_rd = ppu_bf 6 5"
definition op_uimm16 :: "ppu_opcode \<Rightarrow> u32" where "op_uimm16 = ppu_bf 16 16"
definition op_l11 :: "ppu_opcode \<Rightarrow> u32" where "op_l11 = ppu_bf 11 1"
definition op_rs :: "ppu_opcode \<Rightarrow> u32" where "op_rs = ppu_bf 6 5"
definition op_simm16 :: "ppu_opcode \<Rightarrow> u32" where "op_simm16 = ppu_sbf 16 16"
definition op_ds :: "ppu_opcode \<Rightarrow> u32" where "op_ds = ppu_sbf 16 14"
definition op_crfs :: "ppu_opcode \<Rightarrow> u32" where "op_crfs = ppu_bf 11 3"
definition op_l10 :: "ppu_opcode \<Rightarrow> u32" where "op_l10 = ppu_bf 10 1"
definition op_crfd :: "ppu_opcode \<Rightarrow> u32" where "op_crfd = ppu_bf 6 3"
definition op_crbb :: "ppu_opcode \<Rightarrow> u32" where "op_crbb = ppu_bf 16 5"
definition op_crba :: "ppu_opcode \<Rightarrow> u32" where "op_crba = ppu_bf 11 5"
definition op_crbd :: "ppu_opcode \<Rightarrow> u32" where "op_crbd = ppu_bf 6 5"
definition op_rc :: "ppu_opcode \<Rightarrow> u32" where "op_rc = ppu_bf 31 1"
definition op_me32 :: "ppu_opcode \<Rightarrow> u32" where "op_me32 = ppu_bf 26 5"
definition op_mb32 :: "ppu_opcode \<Rightarrow> u32" where "op_mb32 = ppu_bf 21 5"
definition op_sh32 :: "ppu_opcode \<Rightarrow> u32" where "op_sh32 = ppu_bf 16 5"
definition op_bi :: "ppu_opcode \<Rightarrow> u32" where "op_bi = ppu_bf 11 5"
definition op_bo :: "ppu_opcode \<Rightarrow> u32" where "op_bo = ppu_bf 6 5"
definition op_frd :: "ppu_opcode \<Rightarrow> u32" where "op_frd = ppu_bf 6 5"
definition op_frs :: "ppu_opcode \<Rightarrow> u32" where "op_frs = ppu_bf 6 5"
definition op_crm :: "ppu_opcode \<Rightarrow> u32" where "op_crm = ppu_bf 12 8"
definition op_bt14 :: "ppu_opcode \<Rightarrow> u32" where
  "op_bt14 = cf_extract [Signed (32 - 14 - 16) 14, Fixed 0 2]"
definition op_bt24 :: "ppu_opcode \<Rightarrow> u32" where
  "op_bt24 = cf_extract [Signed (32 - 24 - 6) 24, Fixed 0 2]"

lemmas field_defs = op_main_def op_sh64_def op_mbe64_def op_vs_def op_oe_def op_spr_def op_vc_def
  op_vb_def op_va_def op_vd_def op_vuimm_def op_vsh_def op_vsimm_def op_lk_def op_aa_def op_rb_def
  op_ra_def op_rd_def op_uimm16_def op_l11_def op_rs_def op_simm16_def op_ds_def op_crfs_def
  op_l10_def op_crfd_def op_crbb_def op_crba_def op_crbd_def op_rc_def op_me32_def op_mb32_def
  op_sh32_def op_bi_def op_bo_def op_frd_def op_frs_def op_crm_def op_bt14_def op_bt24_def

section \<open>Rotate mask and decoder key\<close>

text \<open>\<open>mb\<close> and \<open>me\<close> are unsigned 32-bit values; the shift counts are taken modulo 64.\<close>

definition ppu_rotate_mask :: "u32 \<Rightarrow> u32 \<Rightarrow> u64" where
  "ppu_rotate_mask mb me =
     (let mask = push_bit (unat (NOT (me - mb) AND 63)) (- 1)
      in drop_bit (unat (mb AND 63)) mask OR push_bit (unat ((64 - mb) AND 63)) mask)"

definition ppu_decode :: "u32 \<Rightarrow> u32" where
  "ppu_decode inst = (drop_bit 26 inst OR push_bit 6 inst) AND 0x1ffff"

section \<open>The rotate mask is the mask of the architecture\<close>

text \<open>\<open>MASK(mb, me)\<close>, bits numbered from the most significant: ones from \<open>mb\<close> to \<open>me\<close>,
  around the end of the word when \<open>me < mb\<close>.\<close>

definition mask_bit :: "nat \<Rightarrow> nat \<Rightarrow> nat \<Rightarrow> bool" where
  "mask_bit mb me i \<longleftrightarrow> (if mb \<le> me then mb \<le> i \<and> i \<le> me else mb \<le> i \<or> i \<le> me)"

lemma unat_and_63: "unat ((of_int k :: u32) AND 63) = nat (k mod 64)"
proof -
  have "(63 :: u32) = mask 6" by (simp add: mask_eq_exp_minus_1)
  then have "(of_int k :: u32) AND 63 = take_bit 6 (of_int k)" by (simp only: take_bit_eq_mask)
  moreover have "uint (take_bit 6 (of_int k :: u32)) = k mod 64"
    unfolding unsigned_take_bit_eq unsigned_of_int by (simp add: min_def) (simp add: take_bit_eq_mod)
  ultimately show ?thesis by (metis nat_uint_eq)
qed

lemma rotate_amounts:
  assumes "b < 64" "e < 64"
  shows "unat (NOT (of_nat e - of_nat b :: u32) AND 63) = (if b \<le> e then 63 - (e - b) else b - e - 1)"
    and "unat ((of_nat b :: u32) AND 63) = b"
    and "unat ((64 - of_nat b :: u32) AND 63) = (if b = 0 then 0 else 64 - b)"
proof -
  have "NOT (of_nat e - of_nat b :: u32) = of_int (int b - int e - 1)" by (simp add: not_eq_complement)
  moreover have "(int b - int e - 1) mod 64 = (if b \<le> e then 63 - (int e - int b) else int b - int e - 1)"
  proof (cases "b \<le> e")
    case True
    have "(int b - int e - 1) mod 64 = (int b - int e - 1 + 64) mod 64" by (simp only: mod_add_self2)
    also have "\<dots> = int b - int e - 1 + 64" using assms True by (intro mod_pos_pos_trivial) linarith+
    finally show ?thesis using True by simp
  next
    case False
    then show ?thesis using assms by (simp add: mod_pos_pos_trivial)
  qed
  ultimately show "unat (NOT (of_nat e - of_nat b :: u32) AND 63) = (if b \<le> e then 63 - (e - b) else b - e - 1)"
    by (simp only: unat_and_63) (auto simp: nat_diff_distrib)
  show "unat ((of_nat b :: u32) AND 63) = b"
    using unat_and_63 [of "int b"] assms by (simp add: nat_mod_as_int [symmetric])
  have "(64 - of_nat b :: u32) = of_int (64 - int b)" by simp
  moreover have "(64 - int b) mod 64 = (if b = 0 then 0 else 64 - int b)"
    using assms by (cases "b = 0") (simp_all del: minus_mod_self1 add: mod_pos_pos_trivial)
  ultimately show "unat ((64 - of_nat b :: u32) AND 63) = (if b = 0 then 0 else 64 - b)"
    by (simp only: unat_and_63) auto
qed

lemma bit_rotate_mask:
  assumes "unat mb < 64" "unat me < 64" "i < 64"
  shows "bit (ppu_rotate_mask mb me) (63 - i) \<longleftrightarrow> mask_bit (unat mb) (unat me) i"
proof -
  note a = rotate_amounts [OF assms(1,2), unfolded of_nat_unat ucast_id]
  show ?thesis
    unfolding ppu_rotate_mask_def Let_def a mask_bit_def using assms
    by (simp add: bit_simps) (cases "unat mb \<le> unat me"; cases "unat mb = 0"; auto)
qed

section \<open>Assembler\<close>

text \<open>Signed 32-bit division truncates; the assembler divides displacements by 4.\<close>

definition s32_div :: "u32 \<Rightarrow> u32 \<Rightarrow> u32" where
  "s32_div a b = word_of_int (sint a sdiv sint b)"

definition of_flag :: "bool \<Rightarrow> u32" where "of_flag b = (if b then 1 else 0)"

abbreviation "set_main m \<equiv> push_bit 26 (m :: u32)"
abbreviation "set_rd \<equiv> ppu_set 6 5"
abbreviation "set_ra \<equiv> ppu_set 11 5"
abbreviation "set_rb \<equiv> ppu_set 16 5"
abbreviation "set_rc \<equiv> ppu_set 31 1"
abbreviation "set_lk \<equiv> ppu_set 31 1"
abbreviation "set_aa \<equiv> ppu_set 30 1"
abbreviation "set_imm16 \<equiv> ppu_set 16 16"
abbreviation "set_ds \<equiv> ppu_set 16 14"
abbreviation "set_bh \<equiv> ppu_set 19 2"
abbreviation "set_spr \<equiv> ppu_set 11 10"
abbreviation "set_crfd \<equiv> ppu_set 6 3"
abbreviation "set_l10 \<equiv> ppu_set 10 1"
abbreviation "set_lev \<equiv> ppu_set 20 7"
abbreviation "set_ll \<equiv> ppu_set 6 26"
abbreviation "op_bh \<equiv> ppu_bf 19 2"
abbreviation "op_lev \<equiv> ppu_bf 20 7"
abbreviation "set_sh64 \<equiv> cf_assign [Unsigned (32 - 1 - 30) 1, Unsigned (32 - 5 - 16) 5]"
abbreviation "set_mbe64 \<equiv> cf_assign [Unsigned (32 - 1 - 26) 1, Unsigned (32 - 5 - 21) 5]"

text \<open>The forms: two registers and a 16-bit immediate, or a 14-bit word displacement.\<close>

definition asm_imm :: "u32 \<Rightarrow> u32 \<Rightarrow> u32 \<Rightarrow> u32 \<Rightarrow> ppu_opcode" where
  "asm_imm m rt ra imm = set_imm16 (set_ra (set_rd (set_main m) rt) ra) imm"

definition asm_ADDI :: "u32 \<Rightarrow> u32 \<Rightarrow> u32 \<Rightarrow> ppu_opcode" where
  "asm_ADDI rt ra si = asm_imm 0x0e rt ra si"
definition asm_ADDIS :: "u32 \<Rightarrow> u32 \<Rightarrow> u32 \<Rightarrow> ppu_opcode" where
  "asm_ADDIS rt ra si = asm_imm 0x0f rt ra si"
definition asm_XORIS :: "u32 \<Rightarrow> u32 \<Rightarrow> u32 \<Rightarrow> ppu_opcode" where
  "asm_XORIS rt ra si = asm_imm 0x1b rt ra si"
definition asm_ORI :: "u32 \<Rightarrow> u32 \<Rightarrow> u32 \<Rightarrow> ppu_opcode" where
  "asm_ORI rt ra ui = asm_imm 0x18 rt ra ui"
definition asm_ORIS :: "u32 \<Rightarrow> u32 \<Rightarrow> u32 \<Rightarrow> ppu_opcode" where
  "asm_ORIS rt ra ui = asm_imm 0x19 rt ra ui"
definition asm_OR :: "u32 \<Rightarrow> u32 \<Rightarrow> u32 \<Rightarrow> bool \<Rightarrow> ppu_opcode" where
  "asm_OR ra rs rb rc =
     set_rc (set_rb (set_ra (set_rd (set_main 0x1f OR push_bit 1 0x1bc) rs) ra) rb) (of_flag rc)"
definition asm_SC :: "u32 \<Rightarrow> ppu_opcode" where
  "asm_SC lev = set_lev (set_main 0x11 OR push_bit 1 1) lev"
definition asm_B :: "u32 \<Rightarrow> bool \<Rightarrow> bool \<Rightarrow> ppu_opcode" where
  "asm_B li aa lk = set_lk (set_aa (set_ll (set_main 0x12) li) (of_flag aa)) (of_flag lk)"
definition asm_BC :: "u32 \<Rightarrow> u32 \<Rightarrow> u32 \<Rightarrow> bool \<Rightarrow> bool \<Rightarrow> ppu_opcode" where
  "asm_BC bo bi bd aa lk =
     set_lk (set_aa (set_ds (set_ra (set_rd (set_main 0x10) bo) bi) (s32_div bd 4)) (of_flag aa)) (of_flag lk)"
definition asm_BCLR :: "u32 \<Rightarrow> u32 \<Rightarrow> u32 \<Rightarrow> bool \<Rightarrow> ppu_opcode" where
  "asm_BCLR bo bi bh lk =
     set_lk (set_bh (set_ra (set_rd (set_main 0x13 OR push_bit 1 0x10) bo) bi) bh) (of_flag lk)"
definition asm_BCCTR :: "u32 \<Rightarrow> u32 \<Rightarrow> u32 \<Rightarrow> bool \<Rightarrow> ppu_opcode" where
  "asm_BCCTR bo bi bh lk =
     set_lk (set_bh (set_ra (set_rd (set_main 0x13 OR push_bit 1 0x210) bo) bi) bh) (of_flag lk)"
definition asm_MFSPR :: "u32 \<Rightarrow> u32 \<Rightarrow> ppu_opcode" where
  "asm_MFSPR rt spr = set_spr (set_rd (set_main 0x1f OR push_bit 1 0x153) rt) spr"
definition asm_MTSPR :: "u32 \<Rightarrow> u32 \<Rightarrow> ppu_opcode" where
  "asm_MTSPR spr rs = set_spr (set_rd (set_main 0x1f OR push_bit 1 0x1d3) rs) spr"
definition asm_LWZ :: "u32 \<Rightarrow> u32 \<Rightarrow> u32 \<Rightarrow> ppu_opcode" where
  "asm_LWZ rt ra si = asm_imm 0x20 rt ra si"
definition asm_STW :: "u32 \<Rightarrow> u32 \<Rightarrow> u32 \<Rightarrow> ppu_opcode" where
  "asm_STW rt ra si = asm_imm 0x24 rt ra si"
definition asm_STD :: "u32 \<Rightarrow> u32 \<Rightarrow> u32 \<Rightarrow> ppu_opcode" where
  "asm_STD rs ra si = set_ds (set_ra (set_rd (set_main 0x3e) rs) ra) (s32_div si 4)"
definition asm_STDU :: "u32 \<Rightarrow> u32 \<Rightarrow> u32 \<Rightarrow> ppu_opcode" where
  "asm_STDU rs ra si = set_ds (set_ra (set_rd (set_main 0x3e OR 1) rs) ra) (s32_div si 4)"
definition asm_LD :: "u32 \<Rightarrow> u32 \<Rightarrow> u32 \<Rightarrow> ppu_opcode" where
  "asm_LD rt ra si = set_ds (set_ra (set_rd (set_main 0x3a) rt) ra) (s32_div si 4)"
definition asm_LDU :: "u32 \<Rightarrow> u32 \<Rightarrow> u32 \<Rightarrow> ppu_opcode" where
  "asm_LDU rt ra si = set_ds (set_ra (set_rd (set_main 0x3a OR 1) rt) ra) (s32_div si 4)"
definition asm_CMPI :: "u32 \<Rightarrow> u32 \<Rightarrow> u32 \<Rightarrow> u32 \<Rightarrow> ppu_opcode" where
  "asm_CMPI bf l ra ui = set_imm16 (set_ra (set_l10 (set_crfd (set_main 0xb) bf) l) ra) ui"
definition asm_CMPLI :: "u32 \<Rightarrow> u32 \<Rightarrow> u32 \<Rightarrow> u32 \<Rightarrow> ppu_opcode" where
  "asm_CMPLI bf l ra ui = set_imm16 (set_ra (set_l10 (set_crfd (set_main 0xa) bf) l) ra) ui"
definition asm_RLDICL :: "u32 \<Rightarrow> u32 \<Rightarrow> u32 \<Rightarrow> u32 \<Rightarrow> bool \<Rightarrow> ppu_opcode" where
  "asm_RLDICL ra rs sh mb rc =
     set_rc (set_mbe64 (set_sh64 (set_rd (set_ra (set_main 30) ra) rs) sh) mb) (of_flag rc)"
definition asm_RLDICR :: "u32 \<Rightarrow> u32 \<Rightarrow> u32 \<Rightarrow> u32 \<Rightarrow> bool \<Rightarrow> ppu_opcode" where
  "asm_RLDICR ra rs sh mb rc = asm_RLDICL ra rs sh mb rc OR push_bit 2 1"
definition asm_STFD :: "u32 \<Rightarrow> u32 \<Rightarrow> u32 \<Rightarrow> ppu_opcode" where
  "asm_STFD frs ra si = asm_imm 54 frs ra si"
definition asm_STVX :: "u32 \<Rightarrow> u32 \<Rightarrow> u32 \<Rightarrow> ppu_opcode" where
  "asm_STVX vs ra rb = set_rb (set_ra (set_rd (set_main 31 OR push_bit 1 231) vs) ra) rb"
definition asm_LFD :: "u32 \<Rightarrow> u32 \<Rightarrow> u32 \<Rightarrow> ppu_opcode" where
  "asm_LFD frd ra si = asm_imm 50 frd ra si"
definition asm_LVX :: "u32 \<Rightarrow> u32 \<Rightarrow> u32 \<Rightarrow> ppu_opcode" where
  "asm_LVX vd ra rb = set_rb (set_ra (set_rd (set_main 31 OR push_bit 1 103) vd) ra) rb"
definition asm_EIEIO :: ppu_opcode where "asm_EIEIO = 0x7c0006ac"

text \<open>The mnemonics of \<open>namespace implicts\<close>.\<close>

definition asm_NOP :: ppu_opcode where "asm_NOP = asm_ORI 0 0 0"
definition asm_MR :: "u32 \<Rightarrow> u32 \<Rightarrow> ppu_opcode" where "asm_MR rt ra = asm_OR rt ra ra False"
definition asm_LI :: "u32 \<Rightarrow> u32 \<Rightarrow> ppu_opcode" where "asm_LI rt imm = asm_ADDI rt 0 imm"
definition asm_LIS :: "u32 \<Rightarrow> u32 \<Rightarrow> ppu_opcode" where "asm_LIS rt imm = asm_ADDIS rt 0 imm"
definition asm_BLR :: ppu_opcode where "asm_BLR = asm_BCLR (0x10 OR 0x04) 0 0 False"
definition asm_BCTR :: ppu_opcode where "asm_BCTR = asm_BCCTR (0x10 OR 0x04) 0 0 False"
definition asm_BCTRL :: ppu_opcode where "asm_BCTRL = asm_BCCTR (0x10 OR 0x04) 0 0 True"
definition asm_MFCTR :: "u32 \<Rightarrow> ppu_opcode" where "asm_MFCTR reg = asm_MFSPR reg (push_bit 5 9)"
definition asm_MTCTR :: "u32 \<Rightarrow> ppu_opcode" where "asm_MTCTR reg = asm_MTSPR (push_bit 5 9) reg"
definition asm_MFLR :: "u32 \<Rightarrow> ppu_opcode" where "asm_MFLR reg = asm_MFSPR reg (push_bit 5 8)"
definition asm_MTLR :: "u32 \<Rightarrow> ppu_opcode" where "asm_MTLR reg = asm_MTSPR (push_bit 5 8) reg"
definition asm_BNE :: "u32 \<Rightarrow> u32 \<Rightarrow> ppu_opcode" where
  "asm_BNE cr imm = asm_BC 4 (2 OR push_bit 2 cr) imm False False"
definition asm_BEQ :: "u32 \<Rightarrow> u32 \<Rightarrow> ppu_opcode" where
  "asm_BEQ cr imm = asm_BC 12 (2 OR push_bit 2 cr) imm False False"
definition asm_BGT :: "u32 \<Rightarrow> u32 \<Rightarrow> ppu_opcode" where
  "asm_BGT cr imm = asm_BC 12 (1 OR push_bit 2 cr) imm False False"
definition asm_CMPDI :: "u32 \<Rightarrow> u32 \<Rightarrow> u32 \<Rightarrow> ppu_opcode" where
  "asm_CMPDI cr reg imm = asm_CMPI cr 1 reg imm"
definition asm_CMPWI :: "u32 \<Rightarrow> u32 \<Rightarrow> u32 \<Rightarrow> ppu_opcode" where
  "asm_CMPWI cr reg imm = asm_CMPI cr 0 reg imm"
definition asm_CMPLDI :: "u32 \<Rightarrow> u32 \<Rightarrow> u32 \<Rightarrow> ppu_opcode" where
  "asm_CMPLDI cr reg imm = asm_CMPLI cr 1 reg imm"
definition asm_CMPLWI :: "u32 \<Rightarrow> u32 \<Rightarrow> u32 \<Rightarrow> ppu_opcode" where
  "asm_CMPLWI cr reg imm = asm_CMPLI cr 0 reg imm"
definition asm_EXTRDI :: "u32 \<Rightarrow> u32 \<Rightarrow> u32 \<Rightarrow> u32 \<Rightarrow> ppu_opcode" where
  "asm_EXTRDI x y n b = asm_RLDICL x y (b + n) (64 - b) False"
definition asm_SRDI :: "u32 \<Rightarrow> u32 \<Rightarrow> u32 \<Rightarrow> ppu_opcode" where
  "asm_SRDI x y n = asm_RLDICL x y (64 - n) n False"
definition asm_CLRLDI :: "u32 \<Rightarrow> u32 \<Rightarrow> u32 \<Rightarrow> ppu_opcode" where
  "asm_CLRLDI x y n = asm_RLDICL x y 0 n False"
definition asm_CLRRDI :: "u32 \<Rightarrow> u32 \<Rightarrow> u32 \<Rightarrow> ppu_opcode" where
  "asm_CLRRDI x y n = asm_RLDICR x y 0 (63 - n) False"
definition asm_TRAP :: ppu_opcode where "asm_TRAP = 0x7FE00008"

section \<open>Reading assembled fields\<close>

lemma ppu_bf_set_same: "i + n \<le> 32 \<Longrightarrow> ppu_bf i n (ppu_set i n x v) = take_bit n v"
  using field_laws.get_put [OF bf_laws [where ?'a = 32, of "32 - n - i" n]] by (simp add: ppu_bf_def ppu_set_def)

lemma ppu_bf_set_other:
  "i + n \<le> 32 \<Longrightarrow> j + k \<le> 32 \<Longrightarrow> i + n \<le> j \<or> j + k \<le> i \<Longrightarrow> ppu_bf i n (ppu_set j k x v) = ppu_bf i n x"
  unfolding ppu_bf_def ppu_set_def by (rule bf_other) auto

lemma bit_ppu_bf [bit_simps]:
  "i + n \<le> 32 \<Longrightarrow> bit (ppu_bf i n x) j \<longleftrightarrow> j < n \<and> bit x (32 - n - i + j)"
  by (auto simp: ppu_bf_def bf_extract_def bit_simps)

lemma bit_ppu_set [bit_simps]:
  "i + n \<le> 32 \<Longrightarrow> bit (ppu_set i n x v) j \<longleftrightarrow>
    (if 32 - n - i \<le> j \<and> j < 32 - i then bit v (j - (32 - n - i)) else bit x j)"
  by (auto simp: ppu_set_def bf_assign_def bf_insert_def data_mask_def bit_simps dest: bit_imp_le_length)

lemma ppu_sbf_eq: "0 < n \<Longrightarrow> i + n \<le> 32 \<Longrightarrow> ppu_sbf i n x = signed_take_bit (n - 1) (ppu_bf i n x)"
  unfolding ppu_sbf_def ppu_bf_def by (rule bf_sextract_eq) auto

lemma ppu_bf_const_or: "i + n \<le> 32 \<Longrightarrow> ppu_bf i n (x OR y) = ppu_bf i n x OR ppu_bf i n y"
  by (rule bit_word_eqI) (auto simp: bit_simps)

lemma signed_take_bit_take_bit_word:
  "0 < n \<Longrightarrow> signed_take_bit (n - 1) (take_bit n (v :: u32)) = signed_take_bit (n - 1) v"
  by (cases n) (simp_all add: signed_take_bit_take_bit)

lemmas set_field = ppu_bf_set_same ppu_bf_set_other ppu_sbf_eq signed_take_bit_take_bit_word

lemma unat_ppu_bf: "i + n \<le> 32 \<Longrightarrow> unat (ppu_bf i n op) < 2 ^ n"
  unfolding ppu_bf_def by (rule field_laws.get_bound [OF bf_laws]) simp

end
