(* ===== verification/Ppu_Decoder.thy ===== *)
theory Ppu_Decoder
  imports Ppu_Opcode
begin

text \<open>
  \<^verbatim>\<open>ppu_decoder\<close> of \<^verbatim>\<open>Emu/Cell/PPUOpcodes.h\<close>: the 2^17-slot lookup table, the fill loops of
  \<^verbatim>\<open>fill_table\<close>, the nine groups of entries, and what the table holds afterwards. The decoder
  is generic in the object that provides the functions, as the class template is.
\<close>

section \<open>Decoder table\<close>

text \<open>An \<open>instruction_info\<close>: value, function without and with the record bit, and the number
  of leading bits of the column that the entry leaves free.\<close>

record 'f instruction_info =
  info_value :: nat
  ptr0 :: 'f
  ptr_rc :: 'f
  magn :: nat

text \<open>\<open>fill_table\<close>: the loops over the entries, the free leading bits \<open>i\<close> and the free
  trailing bits \<open>j\<close>; the main opcodes pass \<open>sh = -1\<close>, which selects the second branch. The
  table maps decoder keys to functions.\<close>

definition table_key :: "nat \<Rightarrow> nat \<Rightarrow> 'f instruction_info \<Rightarrow> nat \<Rightarrow> nat \<Rightarrow> nat" where
  "table_key count sh v i j = push_bit sh (push_bit (count - magn v) i OR info_value v) OR j"

definition fill_table ::
  "nat \<Rightarrow> nat \<Rightarrow> nat \<Rightarrow> 'f instruction_info list \<Rightarrow> (nat \<Rightarrow> 'f) \<Rightarrow> nat \<Rightarrow> 'f" where
  "fill_table main_op count sh entries =
     (if sh < 11
      then fold (\<lambda>v. fold (\<lambda>i. fold (\<lambda>j tab.
             let k = table_key count sh v i j
             in tab(push_bit 6 k OR main_op := (if odd k then ptr_rc v else ptr0 v)))
             [0..<2 ^ sh]) [0..<2 ^ (magn v + (11 - sh - count))]) entries
      else fold (\<lambda>v. fold (\<lambda>i tab.
             tab(push_bit 6 i OR info_value v := (if odd i then ptr_rc v else ptr0 v)))
             [0..<2 ^ 11]) entries)"

text \<open>\<open>GET\<close> and \<open>GETRC\<close>: the functions of an instruction by name in the object \<open>D\<close>.\<close>

definition GET :: "(string \<Rightarrow> 'f) \<Rightarrow> nat \<Rightarrow> string \<Rightarrow> nat \<Rightarrow> 'f instruction_info" where
  "GET D v name m = \<lparr>info_value = v, ptr0 = D name, ptr_rc = D name, magn = m\<rparr>"

definition GETRC :: "(string \<Rightarrow> 'f) \<Rightarrow> nat \<Rightarrow> string \<Rightarrow> nat \<Rightarrow> 'f instruction_info" where
  "GETRC D v name m = \<lparr>info_value = v, ptr0 = D name, ptr_rc = D (name @ ''_''), magn = m\<rparr>"

definition main_table :: "(string \<Rightarrow> 'f) \<Rightarrow> 'f instruction_info list" where
  "main_table D = [
    GET D 0x2 ''TDI'' 0, GET D 0x3 ''TWI'' 0, GET D 0x7 ''MULLI'' 0, GET D 0x8 ''SUBFIC'' 0,
    GET D 0xa ''CMPLI'' 0, GET D 0xb ''CMPI'' 0, GET D 0xc ''ADDIC'' 0, GET D 0xd ''ADDIC'' 0,
    GET D 0xe ''ADDI'' 0, GET D 0xf ''ADDIS'' 0, GET D 0x10 ''BC'' 0, GET D 0x11 ''SC'' 0,
    GET D 0x12 ''B'' 0, GETRC D 0x14 ''RLWIMI'' 0, GETRC D 0x15 ''RLWINM'' 0,
    GETRC D 0x17 ''RLWNM'' 0, GET D 0x18 ''ORI'' 0, GET D 0x19 ''ORIS'' 0, GET D 0x1a ''XORI'' 0,
    GET D 0x1b ''XORIS'' 0, GET D 0x1c ''ANDI'' 0, GET D 0x1d ''ANDIS'' 0, GET D 0x20 ''LWZ'' 0,
    GET D 0x21 ''LWZU'' 0, GET D 0x22 ''LBZ'' 0, GET D 0x23 ''LBZU'' 0, GET D 0x24 ''STW'' 0,
    GET D 0x25 ''STWU'' 0, GET D 0x26 ''STB'' 0, GET D 0x27 ''STBU'' 0, GET D 0x28 ''LHZ'' 0,
    GET D 0x29 ''LHZU'' 0, GET D 0x2a ''LHA'' 0, GET D 0x2b ''LHAU'' 0, GET D 0x2c ''STH'' 0,
    GET D 0x2d ''STHU'' 0, GET D 0x2e ''LMW'' 0, GET D 0x2f ''STMW'' 0, GET D 0x30 ''LFS'' 0,
    GET D 0x31 ''LFSU'' 0, GET D 0x32 ''LFD'' 0, GET D 0x33 ''LFDU'' 0, GET D 0x34 ''STFS'' 0,
    GET D 0x35 ''STFSU'' 0, GET D 0x36 ''STFD'' 0, GET D 0x37 ''STFDU'' 0]"

definition group_04_table :: "(string \<Rightarrow> 'f) \<Rightarrow> 'f instruction_info list" where
  "group_04_table D = [
    GET D 0x0 ''VADDUBM'' 0, GET D 0x2 ''VMAXUB'' 0, GET D 0x4 ''VRLB'' 0,
    GET D 0x6 ''VCMPEQUB'' 0, GET D 0x406 ''VCMPEQUB_'' 0, GET D 0x8 ''VMULOUB'' 0,
    GET D 0xa ''VADDFP'' 0, GET D 0xc ''VMRGHB'' 0, GET D 0xe ''VPKUHUM'' 0,
    GET D 0x20 ''VMHADDSHS'' 5, GET D 0x21 ''VMHRADDSHS'' 5, GET D 0x22 ''VMLADDUHM'' 5,
    GET D 0x24 ''VMSUMUBM'' 5, GET D 0x25 ''VMSUMMBM'' 5, GET D 0x26 ''VMSUMUHM'' 5,
    GET D 0x27 ''VMSUMUHS'' 5, GET D 0x28 ''VMSUMSHM'' 5, GET D 0x29 ''VMSUMSHS'' 5,
    GET D 0x2a ''VSEL'' 5, GET D 0x2b ''VPERM'' 5, GET D 0x2c ''VSLDOI'' 5,
    GET D 0x2e ''VMADDFP'' 5, GET D 0x2f ''VNMSUBFP'' 5, GET D 0x40 ''VADDUHM'' 0,
    GET D 0x42 ''VMAXUH'' 0, GET D 0x44 ''VRLH'' 0, GET D 0x46 ''VCMPEQUH'' 0,
    GET D 0x446 ''VCMPEQUH_'' 0, GET D 0x48 ''VMULOUH'' 0, GET D 0x4a ''VSUBFP'' 0,
    GET D 0x4c ''VMRGHH'' 0, GET D 0x4e ''VPKUWUM'' 0, GET D 0x80 ''VADDUWM'' 0,
    GET D 0x82 ''VMAXUW'' 0, GET D 0x84 ''VRLW'' 0, GET D 0x86 ''VCMPEQUW'' 0,
    GET D 0x486 ''VCMPEQUW_'' 0, GET D 0x8c ''VMRGHW'' 0, GET D 0x8e ''VPKUHUS'' 0,
    GET D 0xc6 ''VCMPEQFP'' 0, GET D 0x4c6 ''VCMPEQFP_'' 0, GET D 0xce ''VPKUWUS'' 0,
    GET D 0x102 ''VMAXSB'' 0, GET D 0x104 ''VSLB'' 0, GET D 0x108 ''VMULOSB'' 0,
    GET D 0x10a ''VREFP'' 0, GET D 0x10c ''VMRGLB'' 0, GET D 0x10e ''VPKSHUS'' 0,
    GET D 0x142 ''VMAXSH'' 0, GET D 0x144 ''VSLH'' 0, GET D 0x148 ''VMULOSH'' 0,
    GET D 0x14a ''VRSQRTEFP'' 0, GET D 0x14c ''VMRGLH'' 0, GET D 0x14e ''VPKSWUS'' 0,
    GET D 0x180 ''VADDCUW'' 0, GET D 0x182 ''VMAXSW'' 0, GET D 0x184 ''VSLW'' 0,
    GET D 0x18a ''VEXPTEFP'' 0, GET D 0x18c ''VMRGLW'' 0, GET D 0x18e ''VPKSHSS'' 0,
    GET D 0x1c4 ''VSL'' 0, GET D 0x1c6 ''VCMPGEFP'' 0, GET D 0x5c6 ''VCMPGEFP_'' 0,
    GET D 0x1ca ''VLOGEFP'' 0, GET D 0x1ce ''VPKSWSS'' 0, GET D 0x200 ''VADDUBS'' 0,
    GET D 0x202 ''VMINUB'' 0, GET D 0x204 ''VSRB'' 0, GET D 0x206 ''VCMPGTUB'' 0,
    GET D 0x606 ''VCMPGTUB_'' 0, GET D 0x208 ''VMULEUB'' 0, GET D 0x20a ''VRFIN'' 0,
    GET D 0x20c ''VSPLTB'' 0, GET D 0x20e ''VUPKHSB'' 0, GET D 0x240 ''VADDUHS'' 0,
    GET D 0x242 ''VMINUH'' 0, GET D 0x244 ''VSRH'' 0, GET D 0x246 ''VCMPGTUH'' 0,
    GET D 0x646 ''VCMPGTUH_'' 0, GET D 0x248 ''VMULEUH'' 0, GET D 0x24a ''VRFIZ'' 0,
    GET D 0x24c ''VSPLTH'' 0, GET D 0x24e ''VUPKHSH'' 0, GET D 0x280 ''VADDUWS'' 0,
    GET D 0x282 ''VMINUW'' 0, GET D 0x284 ''VSRW'' 0, GET D 0x286 ''VCMPGTUW'' 0,
    GET D 0x686 ''VCMPGTUW_'' 0, GET D 0x28a ''VRFIP'' 0, GET D 0x28c ''VSPLTW'' 0,
    GET D 0x28e ''VUPKLSB'' 0, GET D 0x2c4 ''VSR'' 0, GET D 0x2c6 ''VCMPGTFP'' 0,
    GET D 0x6c6 ''VCMPGTFP_'' 0, GET D 0x2ca ''VRFIM'' 0, GET D 0x2ce ''VUPKLSH'' 0,
    GET D 0x300 ''VADDSBS'' 0, GET D 0x302 ''VMINSB'' 0, GET D 0x304 ''VSRAB'' 0,
    GET D 0x306 ''VCMPGTSB'' 0, GET D 0x706 ''VCMPGTSB_'' 0, GET D 0x308 ''VMULESB'' 0,
    GET D 0x30a ''VCFUX'' 0, GET D 0x30c ''VSPLTISB'' 0, GET D 0x30e ''VPKPX'' 0,
    GET D 0x340 ''VADDSHS'' 0, GET D 0x342 ''VMINSH'' 0, GET D 0x344 ''VSRAH'' 0,
    GET D 0x346 ''VCMPGTSH'' 0, GET D 0x746 ''VCMPGTSH_'' 0, GET D 0x348 ''VMULESH'' 0,
    GET D 0x34a ''VCFSX'' 0, GET D 0x34c ''VSPLTISH'' 0, GET D 0x34e ''VUPKHPX'' 0,
    GET D 0x380 ''VADDSWS'' 0, GET D 0x382 ''VMINSW'' 0, GET D 0x384 ''VSRAW'' 0,
    GET D 0x386 ''VCMPGTSW'' 0, GET D 0x786 ''VCMPGTSW_'' 0, GET D 0x38a ''VCTUXS'' 0,
    GET D 0x38c ''VSPLTISW'' 0, GET D 0x3c6 ''VCMPBFP'' 0, GET D 0x7c6 ''VCMPBFP_'' 0,
    GET D 0x3ca ''VCTSXS'' 0, GET D 0x3ce ''VUPKLPX'' 0, GET D 0x400 ''VSUBUBM'' 0,
    GET D 0x402 ''VAVGUB'' 0, GET D 0x404 ''VAND'' 0, GET D 0x40a ''VMAXFP'' 0,
    GET D 0x40c ''VSLO'' 0, GET D 0x440 ''VSUBUHM'' 0, GET D 0x442 ''VAVGUH'' 0,
    GET D 0x444 ''VANDC'' 0, GET D 0x44a ''VMINFP'' 0, GET D 0x44c ''VSRO'' 0,
    GET D 0x480 ''VSUBUWM'' 0, GET D 0x482 ''VAVGUW'' 0, GET D 0x484 ''VOR'' 0,
    GET D 0x4c4 ''VXOR'' 0, GET D 0x502 ''VAVGSB'' 0, GET D 0x504 ''VNOR'' 0,
    GET D 0x542 ''VAVGSH'' 0, GET D 0x580 ''VSUBCUW'' 0, GET D 0x582 ''VAVGSW'' 0,
    GET D 0x600 ''VSUBUBS'' 0, GET D 0x604 ''MFVSCR'' 0, GET D 0x608 ''VSUM4UBS'' 0,
    GET D 0x640 ''VSUBUHS'' 0, GET D 0x644 ''MTVSCR'' 0, GET D 0x648 ''VSUM4SHS'' 0,
    GET D 0x680 ''VSUBUWS'' 0, GET D 0x688 ''VSUM2SWS'' 0, GET D 0x700 ''VSUBSBS'' 0,
    GET D 0x708 ''VSUM4SBS'' 0, GET D 0x740 ''VSUBSHS'' 0, GET D 0x780 ''VSUBSWS'' 0,
    GET D 0x788 ''VSUMSWS'' 0]"

definition group_13_table :: "(string \<Rightarrow> 'f) \<Rightarrow> 'f instruction_info list" where
  "group_13_table D = [
    GET D 0x0 ''MCRF'' 0, GET D 0x10 ''BCLR'' 0, GET D 0x21 ''CRNOR'' 0, GET D 0x81 ''CRANDC'' 0,
    GET D 0x96 ''ISYNC'' 0, GET D 0xc1 ''CRXOR'' 0, GET D 0xe1 ''CRNAND'' 0,
    GET D 0x101 ''CRAND'' 0, GET D 0x121 ''CREQV'' 0, GET D 0x1a1 ''CRORC'' 0,
    GET D 0x1c1 ''CROR'' 0, GET D 0x210 ''BCCTR'' 0]"

definition group_1e_table :: "(string \<Rightarrow> 'f) \<Rightarrow> 'f instruction_info list" where
  "group_1e_table D = [
    GETRC D 0x0 ''RLDICL'' 0, GETRC D 0x1 ''RLDICL'' 0, GETRC D 0x2 ''RLDICR'' 0,
    GETRC D 0x3 ''RLDICR'' 0, GETRC D 0x4 ''RLDIC'' 0, GETRC D 0x5 ''RLDIC'' 0,
    GETRC D 0x6 ''RLDIMI'' 0, GETRC D 0x7 ''RLDIMI'' 0, GETRC D 0x8 ''RLDCL'' 0,
    GETRC D 0x9 ''RLDCR'' 0]"

definition group_1f_table :: "(string \<Rightarrow> 'f) \<Rightarrow> 'f instruction_info list" where
  "group_1f_table D = [
    GET D 0x0 ''CMP'' 0, GET D 0x4 ''TW'' 0, GET D 0x6 ''LVSL'' 0, GET D 0x7 ''LVEBX'' 0,
    GETRC D 0x8 ''SUBFC'' 0, GETRC D 0x208 ''SUBFCO'' 0, GETRC D 0x9 ''MULHDU'' 0,
    GETRC D 0xa ''ADDC'' 0, GETRC D 0x20a ''ADDCO'' 0, GETRC D 0xb ''MULHWU'' 0,
    GET D 0x13 ''MFOCRF'' 0, GET D 0x14 ''LWARX'' 0, GET D 0x15 ''LDX'' 0, GET D 0x17 ''LWZX'' 0,
    GETRC D 0x18 ''SLW'' 0, GETRC D 0x1a ''CNTLZW'' 0, GETRC D 0x1b ''SLD'' 0,
    GETRC D 0x1c ''AND'' 0, GET D 0x20 ''CMPL'' 0, GET D 0x26 ''LVSR'' 0, GET D 0x27 ''LVEHX'' 0,
    GETRC D 0x28 ''SUBF'' 0, GETRC D 0x228 ''SUBFO'' 0, GET D 0x35 ''LDUX'' 0,
    GET D 0x36 ''DCBST'' 0, GET D 0x37 ''LWZUX'' 0, GETRC D 0x3a ''CNTLZD'' 0,
    GETRC D 0x3c ''ANDC'' 0, GET D 0x44 ''TD'' 0, GET D 0x47 ''LVEWX'' 0,
    GETRC D 0x49 ''MULHD'' 0, GETRC D 0x4b ''MULHW'' 0, GET D 0x54 ''LDARX'' 0,
    GET D 0x56 ''DCBF'' 0, GET D 0x57 ''LBZX'' 0, GET D 0x67 ''LVX'' 0, GETRC D 0x68 ''NEG'' 0,
    GETRC D 0x268 ''NEGO'' 0, GET D 0x77 ''LBZUX'' 0, GETRC D 0x7c ''NOR'' 0,
    GET D 0x87 ''STVEBX'' 0, GETRC D 0x88 ''SUBFE'' 0, GETRC D 0x288 ''SUBFEO'' 0,
    GETRC D 0x8a ''ADDE'' 0, GETRC D 0x28a ''ADDEO'' 0, GET D 0x90 ''MTOCRF'' 0,
    GET D 0x95 ''STDX'' 0, GET D 0x96 ''STWCX'' 0, GET D 0x97 ''STWX'' 0,
    GET D 0xa7 ''STVEHX'' 0, GET D 0xb5 ''STDUX'' 0, GET D 0xb7 ''STWUX'' 0,
    GET D 0xc7 ''STVEWX'' 0, GETRC D 0xc8 ''SUBFZE'' 0, GETRC D 0x2c8 ''SUBFZEO'' 0,
    GETRC D 0xca ''ADDZE'' 0, GETRC D 0x2ca ''ADDZEO'' 0, GET D 0xd6 ''STDCX'' 0,
    GET D 0xd7 ''STBX'' 0, GET D 0xe7 ''STVX'' 0, GETRC D 0xe8 ''SUBFME'' 0,
    GETRC D 0x2e8 ''SUBFMEO'' 0, GETRC D 0xe9 ''MULLD'' 0, GETRC D 0x2e9 ''MULLDO'' 0,
    GETRC D 0xea ''ADDME'' 0, GETRC D 0x2ea ''ADDMEO'' 0, GETRC D 0xeb ''MULLW'' 0,
    GETRC D 0x2eb ''MULLWO'' 0, GET D 0xf6 ''DCBTST'' 0, GET D 0xf7 ''STBUX'' 0,
    GETRC D 0x10a ''ADD'' 0, GETRC D 0x30a ''ADDO'' 0, GET D 0x116 ''DCBT'' 0,
    GET D 0x117 ''LHZX'' 0, GETRC D 0x11c ''EQV'' 0, GET D 0x136 ''ECIWX'' 0,
    GET D 0x137 ''LHZUX'' 0, GETRC D 0x13c ''XOR'' 0, GET D 0x153 ''MFSPR'' 0,
    GET D 0x155 ''LWAX'' 0, GET D 0x156 ''DST'' 0, GET D 0x157 ''LHAX'' 0,
    GET D 0x167 ''LVXL'' 0, GET D 0x173 ''MFTB'' 0, GET D 0x175 ''LWAUX'' 0,
    GET D 0x176 ''DSTST'' 0, GET D 0x177 ''LHAUX'' 0, GET D 0x197 ''STHX'' 0,
    GETRC D 0x19c ''ORC'' 0, GET D 0x1b6 ''ECOWX'' 0, GET D 0x1b7 ''STHUX'' 0,
    GETRC D 0x1bc ''OR'' 0, GETRC D 0x1c9 ''DIVDU'' 0, GETRC D 0x3c9 ''DIVDUO'' 0,
    GETRC D 0x1cb ''DIVWU'' 0, GETRC D 0x3cb ''DIVWUO'' 0, GET D 0x1d3 ''MTSPR'' 0,
    GET D 0x1d6 ''DCBI'' 0, GETRC D 0x1dc ''NAND'' 0, GET D 0x1e7 ''STVXL'' 0,
    GETRC D 0x1e9 ''DIVD'' 0, GETRC D 0x3e9 ''DIVDO'' 0, GETRC D 0x1eb ''DIVW'' 0,
    GETRC D 0x3eb ''DIVWO'' 0, GET D 0x207 ''LVLX'' 0, GET D 0x214 ''LDBRX'' 0,
    GET D 0x215 ''LSWX'' 0, GET D 0x216 ''LWBRX'' 0, GET D 0x217 ''LFSX'' 0,
    GETRC D 0x218 ''SRW'' 0, GETRC D 0x21b ''SRD'' 0, GET D 0x227 ''LVRX'' 0,
    GET D 0x237 ''LFSUX'' 0, GET D 0x255 ''LSWI'' 0, GET D 0x256 ''SYNC'' 0,
    GET D 0x257 ''LFDX'' 0, GET D 0x277 ''LFDUX'' 0, GET D 0x287 ''STVLX'' 0,
    GET D 0x294 ''STDBRX'' 0, GET D 0x295 ''STSWX'' 0, GET D 0x296 ''STWBRX'' 0,
    GET D 0x297 ''STFSX'' 0, GET D 0x2a7 ''STVRX'' 0, GET D 0x2b7 ''STFSUX'' 0,
    GET D 0x2d5 ''STSWI'' 0, GET D 0x2d7 ''STFDX'' 0, GET D 0x2f7 ''STFDUX'' 0,
    GET D 0x307 ''LVLXL'' 0, GET D 0x316 ''LHBRX'' 0, GETRC D 0x318 ''SRAW'' 0,
    GETRC D 0x31a ''SRAD'' 0, GET D 0x327 ''LVRXL'' 0, GET D 0x336 ''DSS'' 0,
    GETRC D 0x338 ''SRAWI'' 0, GETRC D 0x33a ''SRADI'' 0, GETRC D 0x33b ''SRADI'' 0,
    GET D 0x356 ''EIEIO'' 0, GET D 0x387 ''STVLXL'' 0, GET D 0x396 ''STHBRX'' 0,
    GETRC D 0x39a ''EXTSH'' 0, GET D 0x3a7 ''STVRXL'' 0, GETRC D 0x3ba ''EXTSB'' 0,
    GET D 0x3d7 ''STFIWX'' 0, GETRC D 0x3da ''EXTSW'' 0, GET D 0x3d6 ''ICBI'' 0,
    GET D 0x3f6 ''DCBZ'' 0]"

definition group_3a_table :: "(string \<Rightarrow> 'f) \<Rightarrow> 'f instruction_info list" where
  "group_3a_table D = [
    GET D 0x0 ''LD'' 0, GET D 0x1 ''LDU'' 0, GET D 0x2 ''LWA'' 0]"

definition group_3b_table :: "(string \<Rightarrow> 'f) \<Rightarrow> 'f instruction_info list" where
  "group_3b_table D = [
    GETRC D 0x12 ''FDIVS'' 5, GETRC D 0x14 ''FSUBS'' 5, GETRC D 0x15 ''FADDS'' 5,
    GETRC D 0x16 ''FSQRTS'' 5, GETRC D 0x18 ''FRES'' 5, GETRC D 0x19 ''FMULS'' 5,
    GETRC D 0x1c ''FMSUBS'' 5, GETRC D 0x1d ''FMADDS'' 5, GETRC D 0x1e ''FNMSUBS'' 5,
    GETRC D 0x1f ''FNMADDS'' 5]"

definition group_3e_table :: "(string \<Rightarrow> 'f) \<Rightarrow> 'f instruction_info list" where
  "group_3e_table D = [
    GET D 0x0 ''STD'' 0, GET D 0x1 ''STDU'' 0]"

definition group_3f_table :: "(string \<Rightarrow> 'f) \<Rightarrow> 'f instruction_info list" where
  "group_3f_table D = [
    GETRC D 0x26 ''MTFSB1'' 0, GET D 0x40 ''MCRFS'' 0, GETRC D 0x46 ''MTFSB0'' 0,
    GETRC D 0x86 ''MTFSFI'' 0, GETRC D 0x247 ''MFFS'' 0, GETRC D 0x2c7 ''MTFSF'' 0,
    GET D 0x0 ''FCMPU'' 0, GETRC D 0xc ''FRSP'' 0, GETRC D 0xe ''FCTIW'' 0,
    GETRC D 0xf ''FCTIWZ'' 0, GETRC D 0x12 ''FDIV'' 5, GETRC D 0x14 ''FSUB'' 5,
    GETRC D 0x15 ''FADD'' 5, GETRC D 0x16 ''FSQRT'' 5, GETRC D 0x17 ''FSEL'' 5,
    GETRC D 0x19 ''FMUL'' 5, GETRC D 0x1a ''FRSQRTE'' 5, GETRC D 0x1c ''FMSUB'' 5,
    GETRC D 0x1d ''FMADD'' 5, GETRC D 0x1e ''FNMSUB'' 5, GETRC D 0x1f ''FNMADD'' 5,
    GET D 0x20 ''FCMPO'' 0, GETRC D 0x28 ''FNEG'' 0, GETRC D 0x48 ''FMR'' 0,
    GETRC D 0x88 ''FNABS'' 0, GETRC D 0x108 ''FABS'' 0, GETRC D 0x32e ''FCTID'' 0,
    GETRC D 0x32f ''FCTIDZ'' 0, GETRC D 0x34e ''FCFID'' 0]"

text \<open>The constructor: every slot starts as \<open>UNK\<close>, then the groups are filled in order.\<close>

definition ppu_decoder :: "(string \<Rightarrow> 'f) \<Rightarrow> nat \<Rightarrow> 'f" where
  "ppu_decoder D =
    (fill_table 0x3f 10 1 (group_3f_table D) \<circ>
     fill_table 0x3e 2 0 (group_3e_table D) \<circ>
     fill_table 0x3b 10 1 (group_3b_table D) \<circ>
     fill_table 0x3a 2 0 (group_3a_table D) \<circ>
     fill_table 0x1f 10 1 (group_1f_table D) \<circ>
     fill_table 0x1e 4 1 (group_1e_table D) \<circ>
     fill_table 0x13 10 1 (group_13_table D) \<circ>
     fill_table 0x04 11 0 (group_04_table D) \<circ>
     fill_table 0x00 6 (2 ^ 32 - 1) (main_table D))
    (\<lambda>_. D ''UNK'')"

definition decode :: "(string \<Rightarrow> 'f) \<Rightarrow> u32 \<Rightarrow> 'f" where
  "decode D inst = ppu_decoder D (unat (ppu_decode inst))"

section \<open>What the table holds\<close>

lemma push_or_add: "v < 2 ^ n \<Longrightarrow> push_bit n i OR v = i * 2 ^ n + (v :: nat)"
proof -
  assume "v < 2 ^ n"
  then have v: "take_bit n v = v" by (simp add: take_bit_nat_eq_self)
  have "push_bit n i OR take_bit n v = push_bit n i + take_bit n v"
    by (rule disjunctive_add [symmetric]) (auto simp: bit_simps)
  then show ?thesis by (simp add: v push_bit_eq_mult)
qed

lemma mult_add_div_mod: "c < b \<Longrightarrow> (a * b + c) div b = a" "c < b \<Longrightarrow> (a * b + c) mod b = (c :: nat)"
  by simp_all

lemma fold_cover:
  assumes "\<And>x t. x \<in> set xs \<Longrightarrow> step x t = (\<lambda>k. if P x k then G k else t k)"
  shows "fold step xs t = (\<lambda>k. if \<exists>x\<in>set xs. P x k then G k else t k)"
  using assms by (induction xs arbitrary: t) (auto simp: fun_eq_iff)

lemma fold_last:
  assumes "\<And>x t. x \<in> set xs \<Longrightarrow> step x t = (\<lambda>k. if P x k then G x k else t k)"
  shows "fold step xs t k = (case find (\<lambda>x. P x k) (rev xs) of None \<Rightarrow> t k | Some x \<Rightarrow> G x k)"
  using assms by (induction xs rule: rev_induct) (auto simp: fun_eq_iff)

text \<open>A pattern of the table as the instruction manual would give it: the primary opcode, and
  the low \<open>count - magn\<close> bits of the field that ends \<open>sh\<close> bits above the word's end.\<close>

definition pattern :: "nat \<Rightarrow> nat \<Rightarrow> nat \<Rightarrow> 'f instruction_info \<Rightarrow> nat \<Rightarrow> bool" where
  "pattern main_op count sh v key \<longleftrightarrow>
     key mod 64 = main_op \<and> (key div 64 div 2 ^ sh) mod 2 ^ (count - magn v) = info_value v"

definition entry_fits :: "nat \<Rightarrow> nat \<Rightarrow> nat \<Rightarrow> 'f instruction_info \<Rightarrow> bool" where
  "entry_fits main_op count sh v \<longleftrightarrow>
     main_op < 64 \<and> sh + count \<le> 11 \<and> magn v \<le> count \<and> info_value v < 2 ^ (count - magn v)"

lemma table_key_eq:
  "entry_fits m count sh v \<Longrightarrow> j < 2 ^ sh \<Longrightarrow>
    table_key count sh v i j = (i * 2 ^ (count - magn v) + info_value v) * 2 ^ sh + j"
  by (simp add: table_key_def entry_fits_def push_or_add)

lemma keys_of_entry:
  assumes "entry_fits main_op count sh v" "key < 0x20000"
  shows "(\<exists>i\<in>set [0..<2 ^ (magn v + (11 - sh - count))]. \<exists>j\<in>set [0..<2 ^ sh].
      key = push_bit 6 (table_key count sh v i j) OR main_op) \<longleftrightarrow> pattern main_op count sh v key"
proof
  let ?n = "count - magn v"
  assume "\<exists>i\<in>set [0..<2 ^ (magn v + (11 - sh - count))]. \<exists>j\<in>set [0..<2 ^ sh].
      key = push_bit 6 (table_key count sh v i j) OR main_op"
  then obtain i j where ij: "j < 2 ^ sh"
    and key: "key = push_bit 6 (table_key count sh v i j) OR main_op" by auto
  have "key = ((i * 2 ^ ?n + info_value v) * 2 ^ sh + j) * 64 + main_op"
    using assms(1) push_or_add [of main_op 6] by (simp add: key table_key_eq [OF assms(1) ij] entry_fits_def)
  moreover have "main_op < 64" "info_value v < 2 ^ ?n" using assms(1) by (simp_all add: entry_fits_def)
  ultimately show "pattern main_op count sh v key"
    using ij by (simp only: pattern_def mult_add_div_mod simp_thms)
next
  let ?n = "count - magn v" and ?q = "key div 64 div 2 ^ sh"
  assume p: "pattern main_op count sh v key"
  have le: "(2::nat) ^ 11 = 2 ^ (11 - sh - count + magn v) * 2 ^ ?n * 2 ^ sh"
    using assms(1) by (simp add: entry_fits_def flip: power_add)
  have "key div 64 < 2 ^ 11" using assms(2) by simp
  then have i: "?q div 2 ^ ?n < 2 ^ (magn v + (11 - sh - count))"
    unfolding le by (simp add: less_mult_imp_div_less ac_simps)
  have j: "key div 64 mod 2 ^ sh < 2 ^ sh" by simp
  have "(?q div 2 ^ ?n * 2 ^ ?n + info_value v) * 2 ^ sh + key div 64 mod 2 ^ sh = key div 64"
    using p by (simp add: pattern_def) (metis div_mult_mod_eq)
  then have "key = push_bit 6 (table_key count sh v (?q div 2 ^ ?n) (key div 64 mod 2 ^ sh)) OR main_op"
    using assms(1) p by (simp add: push_or_add table_key_eq [OF assms(1) j] entry_fits_def pattern_def)
      (metis div_mult_mod_eq)
  with i j show "\<exists>i\<in>set [0..<2 ^ (magn v + (11 - sh - count))]. \<exists>j\<in>set [0..<2 ^ sh].
      key = push_bit 6 (table_key count sh v i j) OR main_op"
    by (intro bexI [of _ "?q div 2 ^ ?n"] bexI [of _ "key div 64 mod 2 ^ sh"]) (auto simp del: set_upt simp: set_upt)
qed

lemma fill_entry:
  assumes "entry_fits main_op count sh v" "key < 0x20000"
  shows "fold (\<lambda>i. fold (\<lambda>j tab.
      let k = table_key count sh v i j
      in tab(push_bit 6 k OR main_op := (if odd k then ptr_rc v else ptr0 v)))
      [0..<2 ^ sh]) [0..<2 ^ (magn v + (11 - sh - count))] t key =
    (if pattern main_op count sh v key then if odd (key div 64) then ptr_rc v else ptr0 v else t key)"
proof -
  let ?G = "\<lambda>key. if odd (key div 64) then ptr_rc v else ptr0 v"
  have "push_bit 6 k OR main_op = k * 64 + main_op" for k
    using assms(1) push_or_add [of main_op 6] by (simp add: entry_fits_def)
  then have d: "(push_bit 6 k OR main_op) div 64 = k" for k
    using assms(1) by (simp add: entry_fits_def)
  have inner: "fold (\<lambda>j tab. let k = table_key count sh v i j
      in tab(push_bit 6 k OR main_op := (if odd k then ptr_rc v else ptr0 v))) [0..<2 ^ sh] t =
    (\<lambda>key. if \<exists>j\<in>set [0..<2 ^ sh]. key = push_bit 6 (table_key count sh v i j) OR main_op
            then ?G key else t key)" for i t
    by (rule fold_cover) (auto simp: Let_def fun_eq_iff d)
  have "fold (\<lambda>i. fold (\<lambda>j tab. let k = table_key count sh v i j
      in tab(push_bit 6 k OR main_op := (if odd k then ptr_rc v else ptr0 v))) [0..<2 ^ sh])
      [0..<2 ^ (magn v + (11 - sh - count))] t =
    (\<lambda>key. if \<exists>i\<in>set [0..<2 ^ (magn v + (11 - sh - count))]. \<exists>j\<in>set [0..<2 ^ sh].
        key = push_bit 6 (table_key count sh v i j) OR main_op then ?G key else t key)"
    by (rule fold_cover) (rule inner)
  then show ?thesis by (simp only: keys_of_entry [OF assms])
qed

definition pick :: "nat \<Rightarrow> 'f instruction_info \<Rightarrow> 'f" where
  "pick key v = (if odd (key div 64) then ptr_rc v else ptr0 v)"

lemma fill_table_lookup:
  assumes "list_all (entry_fits main_op count sh) es" "key < 0x20000" "sh < 11"
  shows "fill_table main_op count sh es t key =
    (case find (\<lambda>v. pattern main_op count sh v key) (rev es) of None \<Rightarrow> t key | Some v \<Rightarrow> pick key v)"
  using assms(1)
proof (induction es rule: rev_induct)
  case Nil
  then show ?case using assms(3) by (simp add: fill_table_def)
next
  case (snoc v es)
  then show ?case
    using fill_entry [OF _ assms(2), of main_op count sh v "fill_table main_op count sh es t"] assms(3)
    by (simp add: fill_table_def pick_def)
qed

lemma fill_main_lookup:
  assumes "list_all (\<lambda>v. info_value v < 64) es" "key < 0x20000" "11 \<le> sh"
  shows "fill_table main_op count sh es t key =
    (case find (\<lambda>v. key mod 64 = info_value v) (rev es) of None \<Rightarrow> t key | Some v \<Rightarrow> pick key v)"
  using assms(1)
proof (induction es rule: rev_induct)
  case Nil
  then show ?case using assms(3) by (simp add: fill_table_def)
next
  case (snoc v es)
  then have v: "info_value v < 64" by simp
  have e: "push_bit 6 i OR info_value v = i * 64 + info_value v" for i
    using push_or_add [of "info_value v" 6 i] v by simp
  have "fold (\<lambda>i tab. tab(push_bit 6 i OR info_value v := (if odd i then ptr_rc v else ptr0 v))) [0..<2 ^ 11] u =
    (\<lambda>key. if \<exists>i\<in>set [0..<2 ^ 11]. key = i * 64 + info_value v
            then if odd (key div 64) then ptr_rc v else ptr0 v else u key)" for u
    using v by (intro fold_cover) (auto simp: e fun_eq_iff)
  moreover have "(\<exists>i\<in>set [0..<2 ^ 11]. key = i * 64 + info_value v) \<longleftrightarrow> key mod 64 = info_value v"
  proof
    assume "key mod 64 = info_value v"
    then have "key = key div 64 * 64 + info_value v" by (metis div_mult_mod_eq)
    moreover have "key div 64 \<in> set [0..<2 ^ 11]" using assms(2) by auto
    ultimately show "\<exists>i\<in>set [0..<2 ^ 11]. key = i * 64 + info_value v" by blast
  qed (use v in auto)
  ultimately show ?case using snoc assms(3) by (simp add: fill_table_def pick_def)
qed

text \<open>No two entries of a group claim the same key. The entries of a group fix either the
  whole field or all but its five leading bits.\<close>

definition wide_values :: "'f instruction_info list \<Rightarrow> nat list" where
  "wide_values es = map info_value (filter (\<lambda>v. magn v = 5) es)"

definition clash_free :: "nat \<Rightarrow> 'f instruction_info list \<Rightarrow> bool" where
  "clash_free c es \<longleftrightarrow> distinct (map (\<lambda>v. (info_value v, magn v)) es) \<and>
     list_all (\<lambda>v. magn v = 5 \<or> magn v = 0 \<and> info_value v mod 2 ^ (c - 5) \<notin> set (wide_values es)) es"

lemma pattern_clash:
  fixes v w :: "'f instruction_info"
  assumes "pattern m c sh v key" "pattern m' c sh w key"
  shows "info_value v mod 2 ^ (c - max (magn v) (magn w)) = info_value w mod 2 ^ (c - max (magn v) (magn w))"
proof -
  have *: "info_value u mod 2 ^ n = key div 64 div 2 ^ sh mod 2 ^ n"
    if "pattern m c sh u key" "n \<le> c - magn u" for u :: "'f instruction_info" and n m
    using that le_imp_power_dvd [of n "c - magn u" "2 :: nat"] mod_mod_cancel [of "2 ^ n" "2 ^ (c - magn u)" "key div 64 div 2 ^ sh"]
    by (auto simp: pattern_def)
  let ?n = "c - max (magn v) (magn w)"
  have "?n \<le> c - magn v" "?n \<le> c - magn w" by simp_all
  with * [OF assms(1)] * [OF assms(2)] show ?thesis by (metis (no_types))
qed

lemma clash_free_apart:
  assumes "clash_free c es" "v \<in> set es" "w \<in> set es" "magn v = 0" "magn w = 5"
  shows "info_value v mod 2 ^ (c - 5) \<noteq> info_value w"
proof -
  have "info_value w \<in> set (wide_values es)" using assms by (auto simp: wide_values_def)
  moreover have "info_value v mod 2 ^ (c - 5) \<notin> set (wide_values es)"
    using assms by (auto simp: clash_free_def list_all_iff)
  ultimately show ?thesis by metis
qed

lemma clash_free_same:
  assumes "clash_free c es" "list_all (\<lambda>v. info_value v < 2 ^ (c - magn v)) es"
    and vw: "v \<in> set es" "w \<in> set es" and p: "pattern m c sh v key" "pattern m c sh w key"
  shows "(info_value v, magn v) = (info_value w, magn w)"
proof -
  have lt: "info_value v < 2 ^ (c - magn v)" "info_value w < 2 ^ (c - magn w)"
    using assms(2) vw by (auto simp: list_all_iff)
  have e: "info_value v mod 2 ^ (c - max (magn v) (magn w)) = info_value w mod 2 ^ (c - max (magn v) (magn w))"
    by (rule pattern_clash [OF p])
  have "magn u = 5 \<or> magn u = 0" if "u \<in> set es" for u
    using assms(1) that by (auto simp: clash_free_def list_all_iff)
  with vw consider "magn v = magn w" | "magn v = 5" "magn w = 0" | "magn v = 0" "magn w = 5" by metis
  then show ?thesis
  proof cases
    case 1
    with e lt show ?thesis by simp
  next
    case 2
    with e lt clash_free_apart [OF assms(1) vw(2,1)] show ?thesis by simp
  next
    case 3
    with e lt clash_free_apart [OF assms(1) vw] show ?thesis by simp
  qed
qed

lemma clash_free_unique:
  assumes "clash_free c es" "list_all (\<lambda>v. info_value v < 2 ^ (c - magn v)) es"
  shows "length (filter (\<lambda>v. pattern m c sh v key) es) \<le> 1"
proof -
  let ?f = "filter (\<lambda>v. pattern m c sh v key) es"
  have d: "distinct (map (\<lambda>v. (info_value v, magn v)) ?f)"
    using assms(1) by (simp add: clash_free_def distinct_map_filter)
  show ?thesis
  proof (rule ccontr)
    assume "\<not> ?thesis"
    then obtain v w zs where f: "?f = v # w # zs"
      by (metis One_nat_def le_numeral_extra(4) list.exhaust list.size(3,4) nat_le_linear plus_1_eq_Suc add.commute zero_le)
    then have "v \<in> set ?f" "w \<in> set ?f" by simp_all
    then have "(info_value v, magn v) = (info_value w, magn w)"
      by (intro clash_free_same [OF assms]) auto
    with d f show False by simp
  qed
qed

lemma find_append_case:
  "find P (xs @ ys) = (case find P xs of None \<Rightarrow> find P ys | Some x \<Rightarrow> Some x)"
  by (induction xs) auto

lemma find_rev_unique:
  "length (filter P xs) \<le> 1 \<Longrightarrow> find P (rev xs) = (case filter P xs of [] \<Rightarrow> None | v # _ \<Rightarrow> Some v)"
proof (induction xs)
  case (Cons x xs)
  then show ?case
  proof (cases "P x")
    case True
    with Cons.prems have "filter P xs = []" by simp
    then have "find P (rev xs) = None" by (auto simp: find_None_iff filter_empty_conv)
    with True \<open>filter P xs = []\<close> show ?thesis by (simp add: find_append_case)
  qed (auto simp: find_append_case split: list.splits option.splits)
qed simp



text \<open>The entries that claim a key, group by group.\<close>

definition candidates :: "(string \<Rightarrow> 'f) \<Rightarrow> nat \<Rightarrow> 'f instruction_info list" where
  "candidates D key =
     filter (\<lambda>v. key mod 64 = info_value v) (main_table D) @
     filter (\<lambda>v. pattern 0x04 11 0 v key) (group_04_table D) @
     filter (\<lambda>v. pattern 0x13 10 1 v key) (group_13_table D) @
     filter (\<lambda>v. pattern 0x1e 4 1 v key) (group_1e_table D) @
     filter (\<lambda>v. pattern 0x1f 10 1 v key) (group_1f_table D) @
     filter (\<lambda>v. pattern 0x3a 2 0 v key) (group_3a_table D) @
     filter (\<lambda>v. pattern 0x3b 10 1 v key) (group_3b_table D) @
     filter (\<lambda>v. pattern 0x3e 2 0 v key) (group_3e_table D) @
     filter (\<lambda>v. pattern 0x3f 10 1 v key) (group_3f_table D)"

lemmas group_defs = main_table_def group_04_table_def group_13_table_def group_1e_table_def
  group_1f_table_def group_3a_table_def group_3b_table_def group_3e_table_def group_3f_table_def

lemma clash_free_04: "clash_free 11 (group_04_table D)"
  by (simp add: clash_free_def wide_values_def group_04_table_def GET_def)
lemma clash_free_1f: "clash_free 10 (group_1f_table D)"
  by (simp add: clash_free_def wide_values_def group_1f_table_def GET_def GETRC_def)
lemma clash_free_small:
  "clash_free 10 (group_13_table D)" "clash_free 4 (group_1e_table D)" "clash_free 2 (group_3a_table D)"
  "clash_free 10 (group_3b_table D)" "clash_free 2 (group_3e_table D)" "clash_free 10 (group_3f_table D)"
  by (simp_all add: clash_free_def wide_values_def group_defs GET_def GETRC_def)

lemma main_distinct: "distinct (map info_value (main_table D))"
  by (simp add: main_table_def GET_def GETRC_def)

lemma main_fits: "list_all (\<lambda>v. info_value v < 64) (main_table D)"
  by (simp add: main_table_def GET_def GETRC_def)

lemma groups_fit:
  "list_all (entry_fits 0x04 11 0) (group_04_table D)" "list_all (entry_fits 0x13 10 1) (group_13_table D)"
  "list_all (entry_fits 0x1e 4 1) (group_1e_table D)" "list_all (entry_fits 0x1f 10 1) (group_1f_table D)"
  "list_all (entry_fits 0x3a 2 0) (group_3a_table D)" "list_all (entry_fits 0x3b 10 1) (group_3b_table D)"
  "list_all (entry_fits 0x3e 2 0) (group_3e_table D)" "list_all (entry_fits 0x3f 10 1) (group_3f_table D)"
  by (simp_all add: entry_fits_def group_defs GET_def GETRC_def)

lemma groups_off_main:
  "list_all (\<lambda>v. info_value v \<notin> {0x04, 0x13, 0x1e, 0x1f, 0x3a, 0x3b, 0x3e, 0x3f}) (main_table D)"
  by (simp add: main_table_def GET_def GETRC_def)

lemma find_group:
  assumes "clash_free c es" "list_all (entry_fits m c sh) es"
  shows "find (\<lambda>v. pattern m c sh v key) (rev es) =
    (case filter (\<lambda>v. pattern m c sh v key) es of [] \<Rightarrow> None | v # _ \<Rightarrow> Some v)"
  using assms by (intro find_rev_unique clash_free_unique) (auto simp: entry_fits_def list_all_iff)

lemma find_main_unique: "length (filter (\<lambda>v. key mod 64 = info_value v) (main_table D)) \<le> 1"
proof -
  have "filter (\<lambda>v. key mod 64 = info_value v) es = [] \<or>
      (\<exists>v. filter (\<lambda>v. key mod 64 = info_value v) es = [v])"
    if "distinct (map info_value es)" for es :: "'a instruction_info list"
    using that by (induction es) (auto simp: filter_empty_conv)
  from this [OF main_distinct [of D]] show ?thesis by auto
qed

lemma find_main:
  "find (\<lambda>v. key mod 64 = info_value v) (rev (main_table D)) =
    (case filter (\<lambda>v. key mod 64 = info_value v) (main_table D) of [] \<Rightarrow> None | v # _ \<Rightarrow> Some v)"
  by (rule find_rev_unique [OF find_main_unique])

lemma group_only:
  assumes "key mod 64 \<noteq> m"
  shows "filter (\<lambda>v. pattern m c sh v key) es = []"
  using assms by (auto simp: filter_empty_conv pattern_def)

lemma main_only:
  assumes "key mod 64 \<in> {0x04, 0x13, 0x1e, 0x1f, 0x3a, 0x3b, 0x3e, 0x3f}"
  shows "filter (\<lambda>v. key mod 64 = info_value v) (main_table D) = []"
  using assms groups_off_main [of D] by (auto simp: filter_empty_conv list_all_iff)

lemma fill_group:
  assumes "clash_free c es" "list_all (entry_fits m c sh) es" "sh < 11" "key < 0x20000"
  shows "fill_table m c sh es t key =
    (case filter (\<lambda>v. pattern m c sh v key) es of [] \<Rightarrow> t key | v # _ \<Rightarrow> pick key v)"
  using fill_table_lookup [OF assms(2,4,3)] find_group [OF assms(1,2)] by (simp split: list.splits)

lemma fill_main:
  assumes "11 \<le> sh" "key < 0x20000"
  shows "fill_table m c sh (main_table D) t key =
    (case filter (\<lambda>v. key mod 64 = info_value v) (main_table D) of [] \<Rightarrow> t key | v # _ \<Rightarrow> pick key v)"
  by (simp add: fill_main_lookup [OF main_fits assms(2,1)] find_main split: list.splits)

lemma ppu_decoder_candidates:
  assumes "key < 0x20000"
  shows "ppu_decoder D key = (case candidates D key of [] \<Rightarrow> D ''UNK'' | v # _ \<Rightarrow> pick key v)"
proof -
  have one: "(1 :: nat) < 11" "(0 :: nat) < 11" "11 \<le> (2 :: nat) ^ 32 - 1" by simp_all
  define M where "M = filter (\<lambda>v. key mod 64 = info_value v) (main_table D)"
  define G where "G m c sh es = filter (\<lambda>v. pattern m c sh v key) es" for m c sh and es :: "'a instruction_info list"
  have G: "G m c sh es = []" if "key mod 64 \<noteq> m" for m c sh es
    using that by (simp add: G_def group_only)
  have d: "ppu_decoder D key =
    (case G 0x3f 10 1 (group_3f_table D) of v # _ \<Rightarrow> pick key v | [] \<Rightarrow>
     case G 0x3e 2 0 (group_3e_table D) of v # _ \<Rightarrow> pick key v | [] \<Rightarrow>
     case G 0x3b 10 1 (group_3b_table D) of v # _ \<Rightarrow> pick key v | [] \<Rightarrow>
     case G 0x3a 2 0 (group_3a_table D) of v # _ \<Rightarrow> pick key v | [] \<Rightarrow>
     case G 0x1f 10 1 (group_1f_table D) of v # _ \<Rightarrow> pick key v | [] \<Rightarrow>
     case G 0x1e 4 1 (group_1e_table D) of v # _ \<Rightarrow> pick key v | [] \<Rightarrow>
     case G 0x13 10 1 (group_13_table D) of v # _ \<Rightarrow> pick key v | [] \<Rightarrow>
     case G 0x04 11 0 (group_04_table D) of v # _ \<Rightarrow> pick key v | [] \<Rightarrow>
     case M of v # _ \<Rightarrow> pick key v | [] \<Rightarrow> D ''UNK'')"
    by (simp only: ppu_decoder_def o_apply G_def M_def
      fill_group [OF clash_free_04 groups_fit(1) one(2) assms]
      fill_group [OF clash_free_small(1) groups_fit(2) one(1) assms]
      fill_group [OF clash_free_small(2) groups_fit(3) one(1) assms]
      fill_group [OF clash_free_1f groups_fit(4) one(1) assms]
      fill_group [OF clash_free_small(3) groups_fit(5) one(2) assms]
      fill_group [OF clash_free_small(4) groups_fit(6) one(1) assms]
      fill_group [OF clash_free_small(5) groups_fit(7) one(2) assms]
      fill_group [OF clash_free_small(6) groups_fit(8) one(1) assms]
      fill_main [OF one(3) assms])
  show ?thesis
  proof (cases "key mod 64 \<in> {0x04, 0x13, 0x1e, 0x1f, 0x3a, 0x3b, 0x3e, 0x3f}")
    case True
    have "M = []" unfolding M_def by (rule main_only [OF True])
    with True show ?thesis
      unfolding d candidates_def G_def [symmetric] M_def [symmetric]
      by (elim insertE) (simp_all add: G split: list.split)
  next
    case False
    then show ?thesis
      unfolding d candidates_def G_def [symmetric] M_def [symmetric] by (simp add: G split: list.split)
  qed
qed

lemma candidates_unique: "length (candidates D key) \<le> 1"
proof -
  have main: "length (filter (\<lambda>v. key mod 64 = info_value v) (main_table D)) \<le> 1"
    using find_main_unique .
  have G: "length (filter (\<lambda>v. pattern m c sh v key) es) \<le> 1"
    if "clash_free c es" "list_all (entry_fits m c sh) es" for m c sh and es :: "'a instruction_info list"
    using that by (intro clash_free_unique) (auto simp: entry_fits_def list_all_iff)
  note Gs = G [OF clash_free_04 groups_fit(1)] G [OF clash_free_small(1) groups_fit(2)]
    G [OF clash_free_small(2) groups_fit(3)] G [OF clash_free_1f groups_fit(4)]
    G [OF clash_free_small(3) groups_fit(5)] G [OF clash_free_small(4) groups_fit(6)]
    G [OF clash_free_small(5) groups_fit(7)] G [OF clash_free_small(6) groups_fit(8)]
  show ?thesis
  proof (cases "key mod 64 \<in> {0x04, 0x13, 0x1e, 0x1f, 0x3a, 0x3b, 0x3e, 0x3f}")
    case True
    have "filter (\<lambda>v. key mod 64 = info_value v) (main_table D) = []" by (rule main_only [OF True])
    with True Gs show ?thesis
      unfolding candidates_def by (elim insertE) (simp_all add: group_only del: filter.simps)
  next
    case False
    then have "candidates D key = filter (\<lambda>v. key mod 64 = info_value v) (main_table D)"
      unfolding candidates_def by (simp add: group_only)
    with main show ?thesis by simp
  qed
qed

lemma ppu_decode_take_bit: "ppu_decode inst = take_bit 17 (drop_bit 26 inst OR push_bit 6 inst)"
proof -
  have "(0x1ffff :: u32) = mask 17" by (simp add: mask_eq_exp_minus_1)
  then show ?thesis by (simp only: ppu_decode_def take_bit_eq_mask)
qed

lemma ppu_decode_bound: "unat (ppu_decode inst) < 0x20000"
  using take_bit_nat_less_exp [of 17 "unat (drop_bit 26 inst OR push_bit 6 inst)"]
  unfolding ppu_decode_take_bit unsigned_take_bit_eq by simp

text \<open>The key in terms of the instruction word: primary opcode, and the low eleven bits.\<close>

lemma ppu_decode_key:
  "unat (ppu_decode inst) mod 64 = unat (op_main inst)"
  "unat (ppu_decode inst) div 64 = unat (take_bit 11 inst)"
proof -
  have "take_bit 6 (ppu_decode inst) = op_main inst"
    by (rule bit_word_eqI) (auto simp: ppu_decode_take_bit op_main_def ppu_bf_def bf_extract_def bit_simps)
  then have "unat (op_main inst) = take_bit 6 (unat (ppu_decode inst))" by (metis unsigned_take_bit_eq)
  then show "unat (ppu_decode inst) mod 64 = unat (op_main inst)" by (simp add: take_bit_eq_mod)
  have "drop_bit 6 (ppu_decode inst) = take_bit 11 inst"
    by (rule bit_word_eqI) (auto simp: ppu_decode_take_bit bit_simps dest: bit_imp_le_length)
  then have "unat (take_bit 11 inst) = drop_bit 6 (unat (ppu_decode inst))" by (metis unat_drop_bit_eq)
  then show "unat (ppu_decode inst) div 64 = unat (take_bit 11 inst)" by (simp add: drop_bit_eq_div)
qed

lemma pick_rc: "pick (unat (ppu_decode inst)) v = (if op_rc inst = 1 then ptr_rc v else ptr0 v)"
proof -
  have "odd (unat (take_bit 11 inst)) \<longleftrightarrow> bit inst 0"
    by (simp add: unsigned_take_bit_eq even_take_bit_eq bit_iff_odd_unat)
  moreover have "op_rc inst = of_bool (bit inst 0)"
    by (rule bit_word_eqI) (auto simp: op_rc_def ppu_bf_def bf_extract_def bit_simps)
  ultimately show ?thesis by (simp add: pick_def ppu_decode_key)
qed

text \<open>C11: the decoder table is exact. For every instruction word at most one of the 415
  entries of the nine groups claims it, and the table built by the fill loops, read with the
  rotated key, gives that entry's function (the record form exactly when the word's lowest bit
  is set), and \<open>UNK\<close> when no entry claims the word; so the order of the fills is irrelevant
  and no entry hides another.\<close>

theorem decoder_exact:
  "length (candidates D (unat (ppu_decode inst))) \<le> 1 \<and>
   decode D inst =
     (case candidates D (unat (ppu_decode inst)) of
        [] \<Rightarrow> D ''UNK''
      | v # _ \<Rightarrow> if op_rc inst = 1 then ptr_rc v else ptr0 v)"
  unfolding decode_def ppu_decoder_candidates [OF ppu_decode_bound] pick_rc
  using candidates_unique by blast

section \<open>Assembled instructions decode to themselves\<close>

lemma decode_member:
  assumes "v \<in> set (candidates D (unat (ppu_decode inst)))"
  shows "decode D inst = (if op_rc inst = 1 then ptr_rc v else ptr0 v)"
proof -
  have "candidates D (unat (ppu_decode inst)) = [v]"
    using assms candidates_unique [of D "unat (ppu_decode inst)"]
    by (cases "candidates D (unat (ppu_decode inst))") auto
  then show ?thesis
    unfolding decode_def ppu_decoder_candidates [OF ppu_decode_bound] pick_rc by simp
qed

lemma key_field:
  assumes "sh + n \<le> 11"
  shows "unat (ppu_decode inst) div 64 div 2 ^ sh mod 2 ^ n = unat (ppu_bf (32 - sh - n) n inst)"
proof -
  have "ppu_bf (32 - sh - n) n inst = take_bit n (drop_bit sh (take_bit 11 inst))"
    using assms by (intro bit_word_eqI) (auto simp: bit_simps)
  then show ?thesis
    by (simp only: ppu_decode_key unsigned_take_bit_eq unat_drop_bit_eq) (simp add: take_bit_eq_mod drop_bit_eq_div)
qed

lemma decode_main:
  assumes "v \<in> set (main_table D)" "unat (op_main inst) = info_value v"
  shows "decode D inst = (if op_rc inst = 1 then ptr_rc v else ptr0 v)"
  using assms by (intro decode_member) (simp add: candidates_def ppu_decode_key)

lemma decode_group:
  assumes "(m, c, sh, es) \<in> {(0x13, 10, 1, group_13_table D), (0x1e, 4, 1, group_1e_table D),
      (0x1f, 10, 1, group_1f_table D), (0x3a, 2, 0, group_3a_table D), (0x3e, 2, 0, group_3e_table D)}"
    and "v \<in> set es" "unat (op_main inst) = m" "magn v = 0" "unat (ppu_bf (32 - sh - c) c inst) = info_value v"
  shows "decode D inst = (if op_rc inst = 1 then ptr_rc v else ptr0 v)"
proof (rule decode_member)
  have "sh + c \<le> 11" using assms(1) by auto
  then have "pattern m c sh v (unat (ppu_decode inst))"
    using assms(3-5) by (simp add: pattern_def ppu_decode_key(1) key_field)
  with assms(1,2) show "v \<in> set (candidates D (unat (ppu_decode inst)))"
    unfolding candidates_def by auto
qed

text \<open>What an assembled word must give back, by form.\<close>

definition imm_form :: "(string \<Rightarrow> 'f) \<Rightarrow> ppu_opcode \<Rightarrow> string \<Rightarrow> u32 \<Rightarrow> u32 \<Rightarrow> u32 \<Rightarrow> bool" where
  "imm_form D w name rt ra imm \<longleftrightarrow> decode D w = D name \<and> op_rd w = rt \<and> op_rs w = rt \<and> op_frd w = rt \<and>
     op_frs w = rt \<and> op_ra w = ra \<and> op_simm16 w = signed_take_bit 15 imm \<and> op_uimm16 w = take_bit 16 imm"

definition ds_form :: "(string \<Rightarrow> 'f) \<Rightarrow> ppu_opcode \<Rightarrow> string \<Rightarrow> u32 \<Rightarrow> u32 \<Rightarrow> u32 \<Rightarrow> bool" where
  "ds_form D w name rt ra disp \<longleftrightarrow> decode D w = D name \<and> op_rd w = rt \<and> op_rs w = rt \<and> op_ra w = ra \<and>
     push_bit 2 (op_ds w) = disp"

definition branch_form :: "(string \<Rightarrow> 'f) \<Rightarrow> ppu_opcode \<Rightarrow> string \<Rightarrow> u32 \<Rightarrow> u32 \<Rightarrow> bool \<Rightarrow> bool" where
  "branch_form D w name bo bi lk \<longleftrightarrow> decode D w = D name \<and> op_bo w = bo \<and> op_bi w = bi \<and> op_lk w = of_flag lk"

definition rld_form :: "(string \<Rightarrow> 'f) \<Rightarrow> ppu_opcode \<Rightarrow> string \<Rightarrow> u32 \<Rightarrow> u32 \<Rightarrow> u32 \<Rightarrow> u32 \<Rightarrow> bool" where
  "rld_form D w name ra rs sh mb \<longleftrightarrow> decode D w = D name \<and> op_ra w = ra \<and> op_rs w = rs \<and>
     op_sh64 w = sh \<and> op_mbe64 w = mb"

lemma take_bit_small: "unat v < 2 ^ n \<Longrightarrow> take_bit n (v :: u32) = v"
  by (simp add: word_unat_eq_iff unsigned_take_bit_eq take_bit_nat_eq_self)

lemma main_of_base: "unat m < 64 \<Longrightarrow> ppu_bf 0 6 (push_bit 26 m) = m"
  using take_bit_small [of m 6] by (simp add: bit_eq_iff bit_simps)

lemma field_of_base: "0 < i \<Longrightarrow> 6 \<le> i \<Longrightarrow> i + n \<le> 32 \<Longrightarrow> ppu_bf i n (push_bit 26 m) = 0"
  by (rule bit_word_eqI) (auto simp: bit_simps)

lemma asm_imm_form:
  assumes "GET D (unat m) name 0 \<in> set (main_table D)" "unat rt < 32" "unat ra < 32"
  shows "imm_form D (asm_imm m rt ra imm) name rt ra imm"
proof -
  have m: "unat m < 64" using assms(1) main_fits [of D] by (auto simp: list_all_iff GET_def)
  have "op_main (asm_imm m rt ra imm) = m"
    using m by (simp add: asm_imm_def op_main_def set_field main_of_base)
  then have "decode D (asm_imm m rt ra imm) = D name"
    using decode_main [OF assms(1)] by (simp add: GET_def)
  then show ?thesis
    using assms(2,3) by (simp add: imm_form_def field_defs asm_imm_def set_field take_bit_small signed_take_bit_take_bit)
qed

lemma signed_take_bit_of_int_word:
  "n < 32 \<Longrightarrow> signed_take_bit n (word_of_int k :: u32) = word_of_int (signed_take_bit n k)"
  by (rule bit_word_eqI) (auto simp: bit_simps)

lemma displacement:
  assumes "4 dvd sint si" "- (2 ^ 15) \<le> sint si" "sint si < 2 ^ 15"
  shows "push_bit 2 (signed_take_bit 13 (s32_div si 4)) = si"
proof -
  obtain k where k: "sint si = 4 * k" using assms(1) by (auto elim: dvdE)
  then have "s32_div si 4 = word_of_int k"
    by (simp add: s32_div_def signed_divide_int_def sgn_mult abs_mult zsgn_def)
  moreover have "signed_take_bit 13 k = k"
    using assms(2,3) k by (intro signed_take_bit_int_eq_self) simp_all
  ultimately have "signed_take_bit 13 (s32_div si 4) = word_of_int k"
    by (simp add: signed_take_bit_of_int_word)
  then have "push_bit 2 (signed_take_bit 13 (s32_div si 4)) = word_of_int (sint si)"
    by (simp add: k push_bit_eq_mult)
  then show ?thesis by simp
qed

lemma base_or: "6 \<le> i \<Longrightarrow> i + n \<le> 32 \<Longrightarrow> ppu_bf i n (push_bit 26 m OR c) = ppu_bf i n c"
  "unat m < 64 \<Longrightarrow> unat c < 2 ^ 26 \<Longrightarrow> ppu_bf 0 6 (push_bit 26 m OR c) = m"
proof -
  show "6 \<le> i \<Longrightarrow> i + n \<le> 32 \<Longrightarrow> ppu_bf i n (push_bit 26 m OR c) = ppu_bf i n c"
    by (simp add: ppu_bf_const_or field_of_base)
  assume m: "unat m < 64" and c: "unat c < 2 ^ 26"
  have "take_bit 26 c = c" using c by (simp add: take_bit_small)
  then have "ppu_bf 0 6 c = ppu_bf 0 6 (take_bit 26 c)" by simp
  also have "\<dots> = 0" by (rule bit_word_eqI) (auto simp: bit_simps)
  finally show "ppu_bf 0 6 (push_bit 26 m OR c) = m" by (simp add: ppu_bf_const_or main_of_base m)
qed

lemma asm_ds_form:
  assumes "GET D x name 0 \<in> set es" "(unat m, es) \<in> {(0x3a, group_3a_table D), (0x3e, group_3e_table D)}"
    and "unat rt < 32" "unat ra < 32" "x < 4" "4 dvd sint si" "- (2 ^ 15) \<le> sint si" "sint si < 2 ^ 15"
  shows "ds_form D (set_ds (set_ra (set_rd (push_bit 26 m OR of_nat x) rt) ra) (s32_div si 4)) name rt ra si"
    (is "ds_form D ?w _ _ _ _")
proof -
  have m: "unat m < 64" using assms(2) by auto
  have "unat (of_nat x :: u32) = x" using assms(5) by simp
  moreover have "take_bit 2 (of_nat x :: u32) = of_nat x" using assms(5) by (intro take_bit_small) simp
  moreover have "ppu_bf 30 2 (of_nat x :: u32) = take_bit 2 (of_nat x)"
    by (rule bit_word_eqI) (auto simp: bit_simps)
  ultimately have "unat (op_main ?w) = unat m" "unat (ppu_bf 30 2 ?w) = x"
    using m assms(5) by (simp_all add: op_main_def set_field base_or)
  then have "decode D ?w = D name"
    using decode_group [of "unat m" 2 0 es D "GET D x name 0" ?w] assms(1,2) by (auto simp: GET_def)
  then show ?thesis
    using assms(3,4) displacement [OF assms(6-8)]
    by (simp add: ds_form_def field_defs set_field take_bit_small signed_take_bit_take_bit)
qed

lemma asm_branch_form:
  assumes "unat bo < 32" "unat bi < 32" "unat bh < 4"
  shows "branch_form D (asm_BCLR bo bi bh lk) ''BCLR'' bo bi lk \<and> op_bh (asm_BCLR bo bi bh lk) = bh"
    and "branch_form D (asm_BCCTR bo bi bh lk) ''BCCTR'' bo bi lk \<and> op_bh (asm_BCCTR bo bi bh lk) = bh"
proof -
  have l: "of_flag lk mod 2 = of_flag lk" by (simp add: of_flag_def)
  have c: "ppu_bf 0 6 1275068448 = 0x13" "ppu_bf 21 10 1275068448 = 0x10"
    "ppu_bf 0 6 1275069472 = 0x13" "ppu_bf 21 10 1275069472 = 0x210" by code_simp+
  have "decode D (asm_BCLR bo bi bh lk) = D ''BCLR''"
    using decode_group [of "0x13" 10 1 "group_13_table D" D "GET D 0x10 ''BCLR'' 0" "asm_BCLR bo bi bh lk"]
    by (simp add: asm_BCLR_def op_main_def set_field c group_13_table_def) (simp add: GET_def)
  then show "branch_form D (asm_BCLR bo bi bh lk) ''BCLR'' bo bi lk \<and> op_bh (asm_BCLR bo bi bh lk) = bh"
    using assms by (simp add: branch_form_def asm_BCLR_def field_defs set_field take_bit_small l)
  have "decode D (asm_BCCTR bo bi bh lk) = D ''BCCTR''"
    using decode_group [of "0x13" 10 1 "group_13_table D" D "GET D 0x210 ''BCCTR'' 0" "asm_BCCTR bo bi bh lk"]
    by (simp add: asm_BCCTR_def op_main_def set_field c group_13_table_def) (simp add: GET_def)
  then show "branch_form D (asm_BCCTR bo bi bh lk) ''BCCTR'' bo bi lk \<and> op_bh (asm_BCCTR bo bi bh lk) = bh"
    using assms by (simp add: branch_form_def asm_BCCTR_def field_defs set_field take_bit_small l)
qed

lemma asm_BC_form:
  assumes "unat bo < 32" "unat bi < 32" "4 dvd sint bd" "- (2 ^ 15) \<le> sint bd" "sint bd < 2 ^ 15"
  shows "branch_form D (asm_BC bo bi bd aa lk) ''BC'' bo bi lk \<and>
    op_bt14 (asm_BC bo bi bd aa lk) = bd \<and> op_aa (asm_BC bo bi bd aa lk) = of_flag aa"
proof -
  let ?w = "asm_BC bo bi bd aa lk"
  have l: "of_flag b mod 2 = of_flag b" for b by (simp add: of_flag_def)
  have c: "ppu_bf 0 6 1073741824 = 0x10" by code_simp
  have "decode D ?w = D ''BC''"
    using decode_main [of "GET D 0x10 ''BC'' 0" D ?w]
    by (simp add: asm_BC_def op_main_def set_field c main_table_def) (simp add: GET_def)
  moreover have "op_bt14 ?w = push_bit 2 (ppu_sbf 16 14 ?w)"
    by (simp add: op_bt14_def ppu_sbf_def)
  then have "op_bt14 ?w = bd"
    using displacement [OF assms(3-5)] by (simp add: asm_BC_def set_field signed_take_bit_take_bit)
  ultimately show ?thesis
    using assms(1,2) by (simp add: branch_form_def asm_BC_def field_defs set_field take_bit_small l)
qed

lemma asm_B_form:
  assumes "4 dvd sint li" "- (2 ^ 25) \<le> sint li" "sint li < 2 ^ 25"
  shows "decode D (asm_B li aa lk) = D ''B'' \<and> op_bt24 (asm_B li aa lk) = li \<and>
    op_aa (asm_B li aa lk) = of_flag aa \<and> op_lk (asm_B li aa lk) = of_flag lk"
proof -
  let ?w = "asm_B li aa lk"
  have l: "of_flag b mod 2 = of_flag b" for b by (simp add: of_flag_def)
  have c: "ppu_bf 0 6 1207959552 = 0x12" by code_simp
  have "decode D ?w = D ''B''"
    using decode_main [of "GET D 0x12 ''B'' 0" D ?w]
    by (simp add: asm_B_def op_main_def set_field c main_table_def) (simp add: GET_def)
  moreover have "ppu_bf 6 24 ?w = take_bit 24 (drop_bit 2 li)"
    by (rule bit_word_eqI) (auto simp: asm_B_def bit_simps)
  then have "op_bt24 ?w = push_bit 2 (signed_take_bit 23 (drop_bit 2 li))"
    using ppu_sbf_eq [of 24 6 ?w] by (simp add: op_bt24_def ppu_sbf_def signed_take_bit_take_bit)
  moreover have "push_bit 2 (signed_take_bit 23 (drop_bit 2 li)) = li"
  proof -
    obtain k where k: "sint li = 4 * k" using assms(1) by (auto elim: dvdE)
    then have li: "li = word_of_int (4 * k)" by (simp flip: k)
    have "signed_take_bit 23 k = k" using assms(2,3) k by (intro signed_take_bit_int_eq_self) simp_all
    moreover have "signed_take_bit 23 (drop_bit 2 li) = signed_take_bit 23 (word_of_int k)"
      unfolding li by (rule bit_word_eqI) (auto simp: bit_simps push_bit_eq_mult [of 2 k, simplified, symmetric] mult.commute)
    ultimately show ?thesis by (simp add: signed_take_bit_of_int_word li push_bit_eq_mult)
  qed
  ultimately show ?thesis by (simp add: asm_B_def field_defs set_field l)
qed

definition x_form :: "(string \<Rightarrow> 'f) \<Rightarrow> ppu_opcode \<Rightarrow> string \<Rightarrow> u32 \<Rightarrow> u32 \<Rightarrow> u32 \<Rightarrow> bool" where
  "x_form D w name rs ra rb \<longleftrightarrow> decode D w = D name \<and> op_rs w = rs \<and> op_vs w = rs \<and> op_vd w = rs \<and> op_ra w = ra \<and> op_rb w = rb"

definition cmp_form :: "(string \<Rightarrow> 'f) \<Rightarrow> ppu_opcode \<Rightarrow> string \<Rightarrow> u32 \<Rightarrow> u32 \<Rightarrow> u32 \<Rightarrow> u32 \<Rightarrow> bool" where
  "cmp_form D w name bf l ra imm \<longleftrightarrow> decode D w = D name \<and> op_crfd w = bf \<and> op_l10 w = l \<and> op_ra w = ra \<and>
     op_simm16 w = signed_take_bit 15 imm \<and> op_uimm16 w = take_bit 16 imm"

lemma decode_rc:
  assumes "decode D w = (if op_rc w = 1 then ptr_rc (GETRC D x name 0) else ptr0 (GETRC D x name 0))" "op_rc w = of_flag rc"
  shows "decode D w = D (name @ (if rc then ''_'' else ''''))"
  using assms by (simp add: GETRC_def of_flag_def split: if_splits)

lemma asm_OR_form:
  assumes "unat rs < 32" "unat ra < 32" "unat rb < 32"
  shows "x_form D (asm_OR ra rs rb rc) (''OR'' @ (if rc then ''_'' else '''')) rs ra rb"
proof -
  let ?w = "asm_OR ra rs rb rc"
  have c: "ppu_bf 0 6 2080375672 = 0x1f" "ppu_bf 21 10 2080375672 = 0x1bc" by code_simp+
  have "op_rc ?w = of_flag rc" by (simp add: asm_OR_def op_rc_def set_field) (simp add: of_flag_def)
  moreover have "unat (op_main ?w) = 0x1f" "unat (ppu_bf (32 - 1 - 10) 10 ?w) = 0x1bc"
    by (simp_all add: asm_OR_def op_main_def set_field c)
  moreover have "GETRC D 0x1bc ''OR'' 0 \<in> set (group_1f_table D)" by (simp add: group_1f_table_def)
  ultimately have "decode D ?w = D (''OR'' @ (if rc then ''_'' else ''''))"
    by (intro decode_rc [of D ?w "0x1bc"] decode_group [of "0x1f" 10 1 "group_1f_table D"]) (simp_all add: GETRC_def)
  then show ?thesis
    using assms by (simp add: x_form_def asm_OR_def field_defs set_field take_bit_small)
qed

lemma asm_spr_form:
  assumes "unat rt < 32" "unat spr < 2 ^ 10"
  shows "decode D (asm_MFSPR rt spr) = D ''MFSPR'' \<and> op_rd (asm_MFSPR rt spr) = rt \<and> op_spr (asm_MFSPR rt spr) = spr"
    and "decode D (asm_MTSPR spr rt) = D ''MTSPR'' \<and> op_rs (asm_MTSPR spr rt) = rt \<and> op_spr (asm_MTSPR spr rt) = spr"
proof -
  have c: "ppu_bf 0 6 2080375462 = 0x1f" "ppu_bf 21 10 2080375462 = 0x153"
    "ppu_bf 0 6 2080375718 = 0x1f" "ppu_bf 21 10 2080375718 = 0x1d3" by code_simp+
  have t: "GET D 0x153 ''MFSPR'' 0 \<in> set (group_1f_table D)" "GET D 0x1d3 ''MTSPR'' 0 \<in> set (group_1f_table D)"
    by (simp_all add: group_1f_table_def)
  have "decode D (asm_MFSPR rt spr) = D ''MFSPR''"
    using decode_group [of "0x1f" 10 1 "group_1f_table D" D, OF _ t(1), of "asm_MFSPR rt spr"]
    by (simp add: asm_MFSPR_def op_main_def set_field c GET_def)
  then show "decode D (asm_MFSPR rt spr) = D ''MFSPR'' \<and> op_rd (asm_MFSPR rt spr) = rt \<and> op_spr (asm_MFSPR rt spr) = spr"
    using assms by (simp add: asm_MFSPR_def field_defs set_field take_bit_small)
  have "decode D (asm_MTSPR spr rt) = D ''MTSPR''"
    using decode_group [of "0x1f" 10 1 "group_1f_table D" D, OF _ t(2), of "asm_MTSPR spr rt"]
    by (simp add: asm_MTSPR_def op_main_def set_field c GET_def)
  then show "decode D (asm_MTSPR spr rt) = D ''MTSPR'' \<and> op_rs (asm_MTSPR spr rt) = rt \<and> op_spr (asm_MTSPR spr rt) = spr"
    using assms by (simp add: asm_MTSPR_def field_defs set_field take_bit_small)
qed

lemma asm_vector_form:
  assumes "unat v < 32" "unat ra < 32" "unat rb < 32"
  shows "x_form D (asm_STVX v ra rb) ''STVX'' v ra rb" and "x_form D (asm_LVX v ra rb) ''LVX'' v ra rb"
proof -
  have c: "ppu_bf 0 6 2080375246 = 0x1f" "ppu_bf 21 10 2080375246 = 231"
    "ppu_bf 0 6 2080374990 = 0x1f" "ppu_bf 21 10 2080374990 = 103" by code_simp+
  have t: "GET D 231 ''STVX'' 0 \<in> set (group_1f_table D)" "GET D 103 ''LVX'' 0 \<in> set (group_1f_table D)"
    by (simp_all add: group_1f_table_def)
  have "decode D (asm_STVX v ra rb) = D ''STVX''"
    using decode_group [of "0x1f" 10 1 "group_1f_table D" D, OF _ t(1), of "asm_STVX v ra rb"]
    by (simp add: asm_STVX_def op_main_def set_field c GET_def)
  then show "x_form D (asm_STVX v ra rb) ''STVX'' v ra rb"
    using assms by (simp add: x_form_def asm_STVX_def field_defs set_field take_bit_small)
  have "decode D (asm_LVX v ra rb) = D ''LVX''"
    using decode_group [of "0x1f" 10 1 "group_1f_table D" D, OF _ t(2), of "asm_LVX v ra rb"]
    by (simp add: asm_LVX_def op_main_def set_field c GET_def)
  then show "x_form D (asm_LVX v ra rb) ''LVX'' v ra rb"
    using assms by (simp add: x_form_def asm_LVX_def field_defs set_field take_bit_small)
qed

lemma asm_SC_form: "unat lev < 128 \<Longrightarrow> decode D (asm_SC lev) = D ''SC'' \<and> op_lev (asm_SC lev) = lev"
proof -
  have c: "ppu_bf 0 6 1140850690 = 0x11" by code_simp
  have "decode D (asm_SC lev) = D ''SC''"
    using decode_main [of "GET D 0x11 ''SC'' 0" D "asm_SC lev"]
    by (simp add: asm_SC_def op_main_def set_field c main_table_def) (simp add: GET_def)
  then show "unat lev < 128 \<Longrightarrow> ?thesis" by (simp add: asm_SC_def set_field take_bit_small)
qed

lemma asm_const_forms:
  "decode D asm_EIEIO = D ''EIEIO''" "decode D asm_TRAP = D ''TW''"
  "op_bo asm_TRAP = 31" "op_ra asm_TRAP = 0" "op_rb asm_TRAP = 0"
proof -
  have c: "op_main asm_EIEIO = 0x1f" "ppu_bf 21 10 asm_EIEIO = 0x356" "op_main asm_TRAP = 0x1f" "ppu_bf 21 10 asm_TRAP = 4" by code_simp+
  have t: "GET D 0x356 ''EIEIO'' 0 \<in> set (group_1f_table D)" "GET D 4 ''TW'' 0 \<in> set (group_1f_table D)"
    by (simp_all add: group_1f_table_def)
  show "decode D asm_EIEIO = D ''EIEIO''" "decode D asm_TRAP = D ''TW''"
    using decode_group [of "0x1f" 10 1 "group_1f_table D" D, OF _ t(1), of asm_EIEIO]
      decode_group [of "0x1f" 10 1 "group_1f_table D" D, OF _ t(2), of asm_TRAP] by (simp_all add: c GET_def)
  show "op_bo asm_TRAP = 31" "op_ra asm_TRAP = 0" "op_rb asm_TRAP = 0" by code_simp+
qed

lemma asm_cmp_form:
  assumes "unat bf < 8" "unat l < 2" "unat ra < 32"
  shows "cmp_form D (asm_CMPI bf l ra imm) ''CMPI'' bf l ra imm"
    and "cmp_form D (asm_CMPLI bf l ra imm) ''CMPLI'' bf l ra imm"
proof -
  have c: "ppu_bf 0 6 738197504 = 0xb" "ppu_bf 0 6 671088640 = 0xa" by code_simp+
  have l: "l mod 2 = l" using take_bit_small [of l 1] assms(2) by (simp add: take_bit_eq_mod)
  have "decode D (asm_CMPI bf l ra imm) = D ''CMPI''"
    using decode_main [of "GET D 0xb ''CMPI'' 0" D "asm_CMPI bf l ra imm"]
    by (simp add: asm_CMPI_def op_main_def set_field c main_table_def) (simp add: GET_def)
  then show "cmp_form D (asm_CMPI bf l ra imm) ''CMPI'' bf l ra imm"
    using assms by (simp add: cmp_form_def asm_CMPI_def field_defs set_field take_bit_small signed_take_bit_take_bit l)
  have "decode D (asm_CMPLI bf l ra imm) = D ''CMPLI''"
    using decode_main [of "GET D 0xa ''CMPLI'' 0" D "asm_CMPLI bf l ra imm"]
    by (simp add: asm_CMPLI_def op_main_def set_field c main_table_def) (simp add: GET_def)
  then show "cmp_form D (asm_CMPLI bf l ra imm) ''CMPLI'' bf l ra imm"
    using assms by (simp add: cmp_form_def asm_CMPLI_def field_defs set_field take_bit_small signed_take_bit_take_bit l)
qed

lemma set_sh64_pack: "set_sh64 = cf_assign (pack [(1, 1), (11, 5)])" "op_sh64 = cf_extract (pack [(1, 1), (11, 5)])"
  "set_mbe64 = cf_assign (pack [(5, 1), (6, 5)])" "op_mbe64 = cf_extract (pack [(5, 1), (6, 5)])"
  by (simp_all add: op_sh64_def op_mbe64_def fun_eq_iff)

lemma bf_sh64:
  fixes x v :: u32
  shows
  "j + k \<le> 32 \<Longrightarrow> 16 \<le> j \<or> 2 \<le> j \<and> j + k \<le> 11 \<or> j + k \<le> 1 \<Longrightarrow> bf_extract j k (set_sh64 x v) = bf_extract j k x"
  "j + k \<le> 32 \<Longrightarrow> 11 \<le> j \<or> j + k \<le> 5 \<Longrightarrow> bf_extract j k (set_mbe64 x v) = bf_extract j k x"
  unfolding set_sh64_pack by (rule bf_extract_cf_assign; auto)+

lemma pack_read:
  "op_sh64 x = push_bit 5 (bf_extract 1 1 x) OR bf_extract 11 5 x"
  "op_mbe64 x = push_bit 5 (bf_extract 5 1 x) OR bf_extract 6 5 x"
  by (simp_all add: op_sh64_def op_mbe64_def)

lemma pack_assign:
  fixes x v :: u32
  shows
  "op_sh64 (set_sh64 x v) = take_bit 6 v" "op_mbe64 (set_mbe64 x v) = take_bit 6 v"
  unfolding set_sh64_pack by (subst cf_extract_assign; simp)+

lemma sh64_mbe64: "op_sh64 (set_mbe64 x v) = op_sh64 x"
  using bf_sh64(2) [of 1 1 x v] bf_sh64(2) [of 11 5 x v] by (simp add: pack_read)

lemma ppu_bf_packs:
  assumes "i + n \<le> 16"
  shows "ppu_bf i n (cf_assign [Unsigned (Suc 0) (Suc 0), Unsigned 11 5] x v) = ppu_bf i n x"
    "ppu_bf i n (cf_assign [Unsigned 5 (Suc 0), Unsigned 6 5] x v) = ppu_bf i n x"
proof -
  have "32 - n - i + n \<le> 32" "16 \<le> 32 - n - i" "11 \<le> 32 - n - i" using assms by auto
  then show "ppu_bf i n (cf_assign [Unsigned (Suc 0) (Suc 0), Unsigned 11 5] x v) = ppu_bf i n x"
    "ppu_bf i n (cf_assign [Unsigned 5 (Suc 0), Unsigned 6 5] x v) = ppu_bf i n x"
    using bf_sh64 [of "32 - n - i" n x v] by (simp_all add: ppu_bf_def)
qed

definition rld_word :: "u32 \<Rightarrow> u32 \<Rightarrow> u32 \<Rightarrow> u32 \<Rightarrow> u32" where
  "rld_word ra rs sh mb = set_mbe64 (set_sh64 (set_rd (set_ra (push_bit 26 30) ra) rs) sh) mb"

lemma rld_word_fields:
  "op_sh64 (rld_word ra rs sh mb) = take_bit 6 sh" "op_mbe64 (rld_word ra rs sh mb) = take_bit 6 mb"
  "op_ra (rld_word ra rs sh mb) = take_bit 5 ra" "op_rs (rld_word ra rs sh mb) = take_bit 5 rs"
  "op_main (rld_word ra rs sh mb) = 30" "bf_extract 2 3 (rld_word ra rs sh mb) = 0"
proof -
  have c: "ppu_bf 0 6 2013265920 = 30" "ppu_bf 27 3 2013265920 = 0" by code_simp+
  show "op_sh64 (rld_word ra rs sh mb) = take_bit 6 sh"
    unfolding rld_word_def sh64_mbe64 by (rule pack_assign)
  show "op_mbe64 (rld_word ra rs sh mb) = take_bit 6 mb" unfolding rld_word_def by (rule pack_assign)
  show "op_ra (rld_word ra rs sh mb) = take_bit 5 ra" "op_rs (rld_word ra rs sh mb) = take_bit 5 rs"
    "op_main (rld_word ra rs sh mb) = 30"
    by (simp_all add: rld_word_def field_defs ppu_bf_packs set_field c)
  have "bf_extract 2 3 (rld_word ra rs sh mb) = ppu_bf 27 3 (set_rd (set_ra (push_bit 26 30) ra) rs)"
    using bf_sh64(2) [of 2 3 "set_sh64 (set_rd (set_ra (push_bit 26 30) ra) rs) sh" mb]
      bf_sh64(1) [of 2 3 "set_rd (set_ra (push_bit 26 30) ra) rs" sh]
    by (simp add: rld_word_def ppu_bf_def)
  then show "bf_extract 2 3 (rld_word ra rs sh mb) = 0" by (simp add: set_field c)
qed

lemma ppu_bf_drop: "i + n + k \<le> 32 \<Longrightarrow> ppu_bf i n x = drop_bit k (ppu_bf i (n + k) x)"
  by (rule bit_word_eqI) (auto simp: bit_simps ac_simps)

lemma ppu_bf_or_bit: "ppu_bf 27 3 (x OR 4) = ppu_bf 27 3 x OR 1" "i + n \<le> 29 \<Longrightarrow> ppu_bf i n (x OR 4) = ppu_bf i n x"
  "op_sh64 (x OR 4) = op_sh64 x" "op_mbe64 (x OR 4) = op_mbe64 x" "ppu_bf 31 1 (x OR 4) = ppu_bf 31 1 x"
proof -
  have c: "ppu_bf 27 3 4 = 1" "bf_extract 1 1 (4 :: u32) = 0" "bf_extract 11 5 (4 :: u32) = 0"
    "bf_extract 5 1 (4 :: u32) = 0" "bf_extract 6 5 (4 :: u32) = 0" "ppu_bf 31 1 4 = 0" by code_simp+
  have e: "bf_extract j k (x OR y) = bf_extract j k x OR bf_extract j k y" for j k and x y :: u32
    by (rule bit_word_eqI) (auto simp: bf_extract_def bit_simps)
  show "ppu_bf 27 3 (x OR 4) = ppu_bf 27 3 x OR 1" by (simp add: ppu_bf_const_or c)
  have "ppu_bf i n (push_bit k 1) = 0" if "i + n + k < 32" for k
    using that by (intro bit_word_eqI) (auto simp: bit_simps)
  from this [of 2] show "i + n \<le> 29 \<Longrightarrow> ppu_bf i n (x OR 4) = ppu_bf i n x" by (simp add: ppu_bf_const_or)
  show "op_sh64 (x OR 4) = op_sh64 x" "op_mbe64 (x OR 4) = op_mbe64 x" "ppu_bf 31 1 (x OR 4) = ppu_bf 31 1 x"
    using c by (simp_all only: pack_read e ppu_bf_const_or) simp_all
qed

lemma rld_decode:
  assumes "op_main w = 30" "ppu_bf 27 3 w = 0 \<and> name = ''RLDICL'' \<or> ppu_bf 27 3 w = 1 \<and> name = ''RLDICR''"
    and "op_rc w = of_flag rc"
  shows "decode D w = D (name @ (if rc then ''_'' else ''''))"
proof -
  let ?x = "unat (ppu_bf 27 4 w)"
  have x: "?x div 2 = unat (ppu_bf 27 3 w)"
  proof -
    have "ppu_bf 27 3 w = drop_bit 1 (ppu_bf 27 (3 + 1) w)" by (rule ppu_bf_drop) simp
    then have "unat (ppu_bf 27 3 w) = drop_bit 1 (unat (ppu_bf 27 (3 + 1) w))" by (simp only: unat_drop_bit_eq)
    then show ?thesis by (simp add: drop_bit_eq_div)
  qed
  have "GETRC D ?x name 0 \<in> set (group_1e_table D)"
  proof -
    from assms(2) x have "?x \<in> {0, 1} \<and> name = ''RLDICL'' \<or> ?x \<in> {2, 3} \<and> name = ''RLDICR''" by auto
    then show ?thesis by (auto simp: group_1e_table_def)
  qed
  then show ?thesis
    using assms(1) by (intro decode_rc [OF _ assms(3), of D ?x] decode_group [of "0x1e" 4 1 "group_1e_table D"])
      (simp_all add: GETRC_def)
qed

lemma asm_rld_form:
  assumes "unat ra < 32" "unat rs < 32" "unat sh < 64" "unat mb < 64"
  shows "rld_form D (asm_RLDICL ra rs sh mb rc) (''RLDICL'' @ (if rc then ''_'' else '''')) ra rs sh mb"
    and "rld_form D (asm_RLDICR ra rs sh mb rc) (''RLDICR'' @ (if rc then ''_'' else '''')) ra rs sh mb"
proof -
  let ?w = "set_rc (rld_word ra rs sh mb) (of_flag rc)"
  have w: "asm_RLDICL ra rs sh mb rc = ?w" "asm_RLDICR ra rs sh mb rc = ?w OR 4"
    by (simp_all add: asm_RLDICL_def asm_RLDICR_def rld_word_def)
  have low: "bf_extract j k (ppu_set 31 (Suc 0) x (of_flag rc)) = bf_extract j k x" if "1 \<le> j" "j + k \<le> 32" for j k x
    using that unfolding ppu_set_def by (intro bf_other) auto
  have f: "op_sh64 ?w = sh" "op_mbe64 ?w = mb" "op_ra ?w = ra" "op_rs ?w = rs" "op_main ?w = 30"
    "ppu_bf 27 3 ?w = 0"
    using assms rld_word_fields [of ra rs sh mb]
    by (simp_all add: pack_read low take_bit_small op_ra_def op_rs_def op_main_def ppu_bf_def)
  have rc: "op_rc ?w = of_flag rc"
    by (simp add: op_rc_def set_field) (simp add: of_flag_def)
  have "decode D ?w = D (''RLDICL'' @ (if rc then ''_'' else ''''))" using f rc by (intro rld_decode) simp_all
  with f show "rld_form D (asm_RLDICL ra rs sh mb rc) (''RLDICL'' @ (if rc then ''_'' else '''')) ra rs sh mb"
    unfolding w rld_form_def by blast
  have f': "op_sh64 (?w OR 4) = sh" "op_mbe64 (?w OR 4) = mb" "op_ra (?w OR 4) = ra" "op_rs (?w OR 4) = rs"
    "op_main (?w OR 4) = 30" "ppu_bf 27 3 (?w OR 4) = 1" "op_rc (?w OR 4) = of_flag rc"
    using f rc by (simp_all add: ppu_bf_or_bit op_ra_def op_rs_def op_main_def op_rc_def del: One_nat_def)
  then have "decode D (?w OR 4) = D (''RLDICR'' @ (if rc then ''_'' else ''''))" by (intro rld_decode) simp_all
  with f' show "rld_form D (asm_RLDICR ra rs sh mb rc) (''RLDICR'' @ (if rc then ''_'' else '''')) ra rs sh mb"
    unfolding w rld_form_def by blast
qed

text \<open>C12: the assembler and the decoder agree. For every function of \<open>namespace ppu_instructions\<close>
  that builds a word itself (the mnemonics of \<open>namespace implicts\<close> other than \<open>TRAP\<close> only call these),
  the assembled word decodes to the instruction of its name (the record form when requested; \<open>TRAP\<close> to
  \<open>TW\<close>) and every operand is read back from its field, 16-bit immediates modulo 2^16 and
  sign-extended, displacements exactly. Register numbers and the branch operands \<open>bo\<close> and \<open>bi\<close> are
  below 32, condition fields below 8, \<open>l\<close> below 2, \<open>bh\<close> below 4, \<open>lev\<close> below 128, shift and mask
  numbers below 64, special register numbers below 2^10, and displacements are multiples of 4 within
  16 bits, for \<open>B\<close> within 26.\<close>

theorem assembler_decodes:
  assumes "unat rt < 32" "unat ra < 32" "unat rb < 32" "unat bf < 8" "unat l < 2" "unat bh < 4" "unat lev < 128"
    and "unat sh < 64" "unat mb < 64" "unat spr < 2 ^ 10"
    and "4 dvd sint disp" "- (2 ^ 15) \<le> sint disp" "sint disp < 2 ^ 15"
    and "4 dvd sint li" "- (2 ^ 25) \<le> sint li" "sint li < 2 ^ 25"
  shows "imm_form D (asm_ADDI rt ra imm) ''ADDI'' rt ra imm \<and> imm_form D (asm_ADDIS rt ra imm) ''ADDIS'' rt ra imm \<and>
    imm_form D (asm_XORIS rt ra imm) ''XORIS'' rt ra imm \<and> imm_form D (asm_ORI rt ra imm) ''ORI'' rt ra imm \<and>
    imm_form D (asm_ORIS rt ra imm) ''ORIS'' rt ra imm \<and> imm_form D (asm_LWZ rt ra imm) ''LWZ'' rt ra imm \<and>
    imm_form D (asm_STW rt ra imm) ''STW'' rt ra imm \<and> imm_form D (asm_LFD rt ra imm) ''LFD'' rt ra imm \<and>
    imm_form D (asm_STFD rt ra imm) ''STFD'' rt ra imm \<and>
    ds_form D (asm_STD rt ra disp) ''STD'' rt ra disp \<and> ds_form D (asm_STDU rt ra disp) ''STDU'' rt ra disp \<and>
    ds_form D (asm_LD rt ra disp) ''LD'' rt ra disp \<and> ds_form D (asm_LDU rt ra disp) ''LDU'' rt ra disp \<and>
    x_form D (asm_OR ra rt rb rc) (''OR'' @ (if rc then ''_'' else '''')) rt ra rb \<and>
    x_form D (asm_STVX rt ra rb) ''STVX'' rt ra rb \<and> x_form D (asm_LVX rt ra rb) ''LVX'' rt ra rb \<and>
    cmp_form D (asm_CMPI bf l ra imm) ''CMPI'' bf l ra imm \<and> cmp_form D (asm_CMPLI bf l ra imm) ''CMPLI'' bf l ra imm \<and>
    rld_form D (asm_RLDICL ra rt sh mb rc) (''RLDICL'' @ (if rc then ''_'' else '''')) ra rt sh mb \<and>
    rld_form D (asm_RLDICR ra rt sh mb rc) (''RLDICR'' @ (if rc then ''_'' else '''')) ra rt sh mb \<and>
    branch_form D (asm_BC rt ra disp aa lk) ''BC'' rt ra lk \<and> op_bt14 (asm_BC rt ra disp aa lk) = disp \<and>
    op_aa (asm_BC rt ra disp aa lk) = of_flag aa \<and>
    branch_form D (asm_BCLR rt ra bh lk) ''BCLR'' rt ra lk \<and> op_bh (asm_BCLR rt ra bh lk) = bh \<and>
    branch_form D (asm_BCCTR rt ra bh lk) ''BCCTR'' rt ra lk \<and> op_bh (asm_BCCTR rt ra bh lk) = bh \<and>
    decode D (asm_B li aa lk) = D ''B'' \<and> op_bt24 (asm_B li aa lk) = li \<and> op_aa (asm_B li aa lk) = of_flag aa \<and>
    op_lk (asm_B li aa lk) = of_flag lk \<and> decode D (asm_SC lev) = D ''SC'' \<and> op_lev (asm_SC lev) = lev \<and>
    decode D (asm_MFSPR rt spr) = D ''MFSPR'' \<and> op_rd (asm_MFSPR rt spr) = rt \<and> op_spr (asm_MFSPR rt spr) = spr \<and>
    decode D (asm_MTSPR spr rt) = D ''MTSPR'' \<and> op_rs (asm_MTSPR spr rt) = rt \<and> op_spr (asm_MTSPR spr rt) = spr \<and>
    decode D asm_EIEIO = D ''EIEIO'' \<and>
    decode D asm_TRAP = D ''TW'' \<and> op_bo asm_TRAP = 31 \<and> op_ra asm_TRAP = 0 \<and> op_rb asm_TRAP = 0"
proof -
  note ds = asm_ds_form [OF _ _ assms(1,2) _ assms(11-13)]
  have "ds_form D (asm_STD rt ra disp) ''STD'' rt ra disp" "ds_form D (asm_STDU rt ra disp) ''STDU'' rt ra disp"
    "ds_form D (asm_LD rt ra disp) ''LD'' rt ra disp" "ds_form D (asm_LDU rt ra disp) ''LDU'' rt ra disp"
    using ds [of D 0 "''STD''" "group_3e_table D" "0x3e"] ds [of D 1 "''STDU''" "group_3e_table D" "0x3e"]
      ds [of D 0 "''LD''" "group_3a_table D" "0x3a"] ds [of D 1 "''LDU''" "group_3a_table D" "0x3a"]
    by (simp_all add: asm_STD_def asm_STDU_def asm_LD_def asm_LDU_def group_3a_table_def group_3e_table_def)
  moreover note i = asm_imm_form [OF _ assms(1,2), of D]
  have "imm_form D (asm_ADDI rt ra imm) ''ADDI'' rt ra imm" "imm_form D (asm_ADDIS rt ra imm) ''ADDIS'' rt ra imm"
    "imm_form D (asm_XORIS rt ra imm) ''XORIS'' rt ra imm" "imm_form D (asm_ORI rt ra imm) ''ORI'' rt ra imm"
    "imm_form D (asm_ORIS rt ra imm) ''ORIS'' rt ra imm" "imm_form D (asm_LWZ rt ra imm) ''LWZ'' rt ra imm"
    "imm_form D (asm_STW rt ra imm) ''STW'' rt ra imm" "imm_form D (asm_LFD rt ra imm) ''LFD'' rt ra imm"
    "imm_form D (asm_STFD rt ra imm) ''STFD'' rt ra imm"
    unfolding asm_ADDI_def asm_ADDIS_def asm_XORIS_def asm_ORI_def asm_ORIS_def asm_LWZ_def asm_STW_def
      asm_LFD_def asm_STFD_def by (rule i, simp add: main_table_def)+
  ultimately show ?thesis
    using asm_OR_form [OF assms(1,2,3), of D rc] asm_cmp_form [OF assms(4,5,2), of D imm]
      asm_rld_form [OF assms(2,1,8,9), of D rc] asm_BC_form [OF assms(1,2,11-13), of D aa lk]
      asm_branch_form [OF assms(1,2,6), of D lk] asm_B_form [OF assms(14-16), of D aa lk]
      asm_spr_form [OF assms(1,10), of D] asm_vector_form [OF assms(1-3), of D] asm_SC_form [OF assms(7), of D]
      asm_const_forms(1,2) [of D] asm_const_forms(3-5)
    by (simp only: simp_thms)
qed

theorem assembler_decodes_witness:
  "imm_form id (asm_ADDI 3 1 0xfffffff0) ''ADDI'' 3 1 0xfffffff0 \<and>
   ds_form id (asm_STD 3 1 0x10) ''STD'' 3 1 0x10 \<and> op_bt24 (asm_B 0x20 False True) = 0x20 \<and>
   op_bh (asm_BCLR 3 1 2 True) = 2 \<and> op_lev (asm_SC 5) = 5"
  using assembler_decodes [of 3 1 0 0 1 2 5 0 0 8 "0x10" "0x20" id "0xfffffff0" False False True] by simp

end
