(* ===== verification/Ppu_State.thy ===== *)
theory Ppu_State
  imports Ppu_Opcode Guest_Memory
begin

text \<open>
  The architectural state of a PPU thread (\<^verbatim>\<open>ppu_thread\<close>, \<^verbatim>\<open>Emu/Cell/PPUThread.h\<close>) and the
  helpers the instructions of \<^verbatim>\<open>Emu/Cell/PPUInterpreter.cpp\<close> share: condition-register and
  overflow updates, addition with carry, guest loads with the reservation check, guest stores.
  Registers are maps from the 5-bit field values; condition bits are bytes, as in the code, that
  only hold 0 and 1 (\<open>ppu_wf\<close>). Floating-point registers are kept as their 64-bit patterns.
\<close>

record ppu =
  gpr :: "u32 \<Rightarrow> u64"
  fpr :: "u32 \<Rightarrow> u64"
  vr :: "u32 \<Rightarrow> u128"
  cr_bits :: "u32 \<Rightarrow> u8"
  lr :: u64
  ctr :: u64
  vrsave :: u32
  cia :: u32
  xer_so :: bool
  xer_ov :: bool
  xer_ca :: bool
  xer_cnt :: u8
  nj :: bool
  sat :: u128
  jm_mask :: u32
  raddr :: u32
  rdata :: "u8 list"
  use_full_rdata :: bool
  res_cached :: u32
  exec_bytes :: u64
  state_flags :: bool
  vmem :: mem
  res_updates :: "addr list"

text \<open>\<open>state_flags\<close> stands for \<open>!!ppu.state\<close>; \<open>res_updates\<close> records the calls of
  \<open>vm::reservation_update\<close>.\<close>

text \<open>The member initialisers of a new thread.\<close>

definition ppu_init :: "mem \<Rightarrow> ppu" where
  "ppu_init m = \<lparr>gpr = (\<lambda>_. 0), fpr = (\<lambda>_. 0), vr = (\<lambda>_. 0), cr_bits = (\<lambda>_. 0), lr = 0, ctr = 0,
     vrsave = 0xffffffff, cia = 0, xer_so = False, xer_ov = False, xer_ca = False, xer_cnt = 0,
     nj = True, sat = 0, jm_mask = 0x7f800000, raddr = 0, rdata = replicate 128 0, use_full_rdata = False, res_cached = 0, exec_bytes = 0,
     state_flags = False, vmem = m, res_updates = []\<rparr>"

text \<open>How an instruction leaves: to the next one, to the dispatcher at \<open>cia\<close>, into the trap or
  system-call handler, or with a host exception.\<close>

datatype ppu_result = Next ppu | Dispatch ppu | Trap ppu u32 | Syscall ppu u64 | Raise

section \<open>Condition register\<close>

definition b2u :: "bool \<Rightarrow> u8" where "b2u b = (if b then 1 else 0)"

definition put_gpr :: "u32 \<Rightarrow> u64 \<Rightarrow> ppu \<Rightarrow> ppu" where
  "put_gpr r v s = s\<lparr>gpr := (gpr s)(r := v)\<rparr>"

definition put_fpr :: "u32 \<Rightarrow> u64 \<Rightarrow> ppu \<Rightarrow> ppu" where
  "put_fpr r v s = s\<lparr>fpr := (fpr s)(r := v)\<rparr>"

definition put_vr :: "u32 \<Rightarrow> u128 \<Rightarrow> ppu \<Rightarrow> ppu" where
  "put_vr r v s = s\<lparr>vr := (vr s)(r := v)\<rparr>"

definition put_cr :: "u32 \<Rightarrow> u8 \<Rightarrow> ppu \<Rightarrow> ppu" where
  "put_cr i v s = s\<lparr>cr_bits := (cr_bits s)(i := v)\<rparr>"

definition ppu_cr_set :: "u32 \<Rightarrow> bool \<Rightarrow> bool \<Rightarrow> bool \<Rightarrow> bool \<Rightarrow> ppu \<Rightarrow> ppu" where
  "ppu_cr_set field le gt eq so s =
     put_cr (field * 4 + 3) (b2u so) (put_cr (field * 4 + 2) (b2u eq)
       (put_cr (field * 4 + 1) (b2u gt) (put_cr (field * 4 + 0) (b2u le) s)))"

text \<open>The comparing overload at \<open>s64\<close>, \<open>s32\<close>, \<open>u64\<close> and \<open>u32\<close>: unsigned by the word order,
  signed by \<open>sint\<close>.\<close>

definition ppu_cr_cmp_u :: "u32 \<Rightarrow> 'a::len word \<Rightarrow> 'a word \<Rightarrow> ppu \<Rightarrow> ppu" where
  "ppu_cr_cmp_u field a b s = ppu_cr_set field (a < b) (a > b) (a = b) (xer_so s) s"

definition ppu_cr_cmp_s :: "u32 \<Rightarrow> 'a::len word \<Rightarrow> 'a word \<Rightarrow> ppu \<Rightarrow> ppu" where
  "ppu_cr_cmp_s field a b s = ppu_cr_set field (sint a < sint b) (sint a > sint b) (a = b) (xer_so s) s"

text \<open>The record form of an instruction with result \<open>r\<close>.\<close>

definition set_rc0 :: "bool \<Rightarrow> u64 \<Rightarrow> ppu \<Rightarrow> ppu" where
  "set_rc0 rc r s = (if rc then ppu_cr_cmp_s 0 r 0 s else s)"

definition ppu_ov_set :: "bool \<Rightarrow> ppu \<Rightarrow> ppu" where
  "ppu_ov_set b s = s\<lparr>xer_ov := b, xer_so := xer_so s \<or> b\<rparr>"

definition set_oe :: "bool \<Rightarrow> bool \<Rightarrow> ppu \<Rightarrow> ppu" where
  "set_oe oe b s = (if oe then ppu_ov_set b s else s)"

text \<open>\<open>cr_bits::pack\<close> and \<open>cr_bits::unpack\<close>, and the view as eight 32-bit fields.\<close>

definition cr_pack :: "(u32 \<Rightarrow> u8) \<Rightarrow> u32" where
  "cr_pack bits = foldl (\<lambda>result i. push_bit 1 result OR ucast (bits i)) 0 (map of_nat [0..<32])"

fun cr_unpack :: "u32 list \<Rightarrow> u32 \<Rightarrow> (u32 \<Rightarrow> u8) \<Rightarrow> u32 \<Rightarrow> u8" where
  "cr_unpack [] value bits = bits"
| "cr_unpack (i # is) value bits =
     cr_unpack is (push_bit 1 value) (bits(i := b2u (value AND push_bit 31 1 \<noteq> 0)))"

definition copy_field :: "u32 \<Rightarrow> u32 \<Rightarrow> ppu \<Rightarrow> ppu" where
  "copy_field d f s = foldr (\<lambda>k. put_cr (d * 4 + k) (cr_bits s (f * 4 + k))) [3, 2, 1, 0] s"

section \<open>Integer helpers\<close>

definition dup32 :: "u32 \<Rightarrow> u64" where
  "dup32 x = ucast x OR push_bit 32 (ucast x)"

text \<open>\<open>add_flags_result_t\<close>: the sum with the carry out, and the variant with a carry in.\<close>

definition add_flags :: "u64 \<Rightarrow> u64 \<Rightarrow> u64 \<times> bool" where
  "add_flags a b = (let result = a + b in (result, result < a))"

definition add64_flags :: "u64 \<Rightarrow> u64 \<Rightarrow> bool \<Rightarrow> u64 \<times> bool" where
  "add64_flags a b c =
     (let (r1, c1) = add_flags a b; (r2, c2) = add_flags r1 (if c then 1 else 0) in (r2, c1 \<or> c2))"

definition umulh64 :: "u64 \<Rightarrow> u64 \<Rightarrow> u64" where
  "umulh64 x y = ucast (drop_bit 64 ((ucast x :: u128) * ucast y))"

definition mulh64 :: "u64 \<Rightarrow> u64 \<Rightarrow> u64" where
  "mulh64 x y = ucast (signed_drop_bit 64 ((scast x :: u128) * scast y))"

definition s64_div :: "u64 \<Rightarrow> u64 \<Rightarrow> u64" where
  "s64_div a b = word_of_int (sint a sdiv sint b)"

text \<open>\<open>std::countl_zero\<close>: the leading zero bits, counted from the top.\<close>

fun clz_from :: "nat \<Rightarrow> 'a::len word \<Rightarrow> nat" where
  "clz_from 0 w = 0"
| "clz_from (Suc n) w = (if bit w n then 0 else Suc (clz_from n w))"

definition countl_zero :: "'a::len word \<Rightarrow> nat" where
  "countl_zero w = clz_from LENGTH('a) w"

section \<open>Guest memory accesses\<close>

definition le_codec :: "nat \<Rightarrow> 'a::len word codec" where
  "le_codec n = \<lparr>csize = n, cenc = rev \<circ> be_enc n, cdec = be_dec \<circ> rev\<rparr>"

abbreviation be8 :: "u8 codec" where "be8 \<equiv> be_codec 1"
abbreviation be128 :: "u128 codec" where "be128 \<equiv> be_codec 16"
abbreviation le16 :: "u16 codec" where "le16 \<equiv> le_codec 2"
abbreviation le32 :: "u32 codec" where "le32 \<equiv> le_codec 4"
abbreviation le64 :: "u64 codec" where "le64 \<equiv> le_codec 8"

definition reservation_lost :: "nat \<Rightarrow> nat \<Rightarrow> ppu \<Rightarrow> addr \<Rightarrow> bool" where
  "reservation_lost addr n s a =
     (let bytes = read_bytes (vmem s) a n; line = unat (raddr s) div 128
      in if addr div 128 > line \<or> (addr + n - 1) div 128 < line then False
         else if n = 1 \<or> addr div 128 = (addr + n - 1) div 128
         then bytes \<noteq> take n (drop (addr mod 128) (rdata s))
         else if line = addr div 128
         then (let size = min (128 - addr mod 128) n
               in take size bytes \<noteq> take size (drop (addr mod 128) (rdata s)))
         else (let size = (addr + n) mod 128; offs = n - size
               in take size (drop offs bytes) \<noteq> take size (rdata s)))"

text \<open>\<open>ppu_feed_data\<close>: the flag is the template flag \<open>use_feed_data\<close>; the address conversion
  throws for addresses of more than 32 bits.\<close>

definition ppu_feed_data :: "bool \<Rightarrow> 'a codec \<Rightarrow> ppu \<Rightarrow> u64 \<Rightarrow> ('a \<times> ppu) option" where
  "ppu_feed_data fd C s addr =
     (case vm_cast64 addr of
        None \<Rightarrow> None
      | Some a \<Rightarrow>
          (let value = load C (vmem s) a
           in if \<not> fd \<or> \<not> use_full_rdata s then Some (value, s)
              else if reservation_lost (unat addr) (csize C) s a
              then Some (value, s\<lparr>raddr := 0, res_cached := 0\<rparr>)
              else Some (value, s)))"

text \<open>\<open>PPU_WRITE(type, vm::cast(addr), value)\<close>.\<close>

definition ppu_write :: "'a codec \<Rightarrow> u64 \<Rightarrow> 'a \<Rightarrow> ppu \<Rightarrow> ppu option" where
  "ppu_write C addr v s = map_option (\<lambda>a. s\<lparr>vmem := store C (vmem s) a v\<rparr>) (vm_cast64 addr)"

lemma put_vr_simps [simp]:
  "vr (put_vr r v s) = (vr s)(r := v)" "gpr (put_vr r v s) = gpr s" "cr_bits (put_vr r v s) = cr_bits s"
  "rdata (put_vr r v s) = rdata s" "vmem (put_vr r v s) = vmem s" "sat (put_vr r v s) = sat s" "nj (put_vr r v s) = nj s"
  "jm_mask (put_vr r v s) = jm_mask s"
  by (simp_all add: put_vr_def)

text \<open>Well-formed states: condition bits are 0 or 1, and the reservation buffer is a line.\<close>

definition ppu_wf :: "ppu \<Rightarrow> bool" where
  "ppu_wf s \<longleftrightarrow> (\<forall>i. cr_bits s i = 0 \<or> cr_bits s i = 1) \<and> length (rdata s) = 128"

end
