(* ===== verification/Ppu_Fixed.thy ===== *)
theory Ppu_Fixed
  imports Ppu_State
begin

text \<open>
  The fixed-point instructions of \<^verbatim>\<open>Emu/Cell/PPUInterpreter.cpp\<close>: arithmetic with carry and
  overflow, multiplication, division, logic, rotates, shifts, extensions and comparisons. Each
  definition is the \<open>exec\<close> lambda of the function of the same name; \<open>oe\<close> and \<open>rc\<close> are the
  template flags \<open>has_oe\<close> and \<open>has_rc\<close>. C++ signed values are the same words read with \<open>sint\<close>.
\<close>

section \<open>Immediate arithmetic\<close>

definition MULLI :: "ppu_opcode \<Rightarrow> ppu \<Rightarrow> ppu" where
  "MULLI op s = put_gpr (op_rd op) (gpr s (op_ra op) * scast (op_simm16 op)) s"

definition SUBFIC :: "ppu_opcode \<Rightarrow> ppu \<Rightarrow> ppu" where
  "SUBFIC op s =
     (let (r, c) = add64_flags (NOT (gpr s (op_ra op))) (scast (op_simm16 op)) True
      in (put_gpr (op_rd op) r s)\<lparr>xer_ca := c\<rparr>)"

definition ADDIC :: "ppu_opcode \<Rightarrow> ppu \<Rightarrow> ppu" where
  "ADDIC op s =
     (let (r, c) = add_flags (gpr s (op_ra op)) (scast (op_simm16 op))
      in set_rc0 (op_main op AND 1 \<noteq> 0) r ((put_gpr (op_rd op) r s)\<lparr>xer_ca := c\<rparr>))"

definition ADDI :: "ppu_opcode \<Rightarrow> ppu \<Rightarrow> ppu" where
  "ADDI op s =
     put_gpr (op_rd op)
       (if op_ra op \<noteq> 0 then gpr s (op_ra op) + scast (op_simm16 op) else scast (op_simm16 op)) s"

definition ADDIS :: "ppu_opcode \<Rightarrow> ppu \<Rightarrow> ppu" where
  "ADDIS op s =
     put_gpr (op_rd op)
       (if op_ra op \<noteq> 0 then gpr s (op_ra op) + scast (op_simm16 op * 65536)
        else scast (op_simm16 op * 65536)) s"

section \<open>Addition and subtraction\<close>

text \<open>The overflow test of the additions: equal operand signs, another sign in the result.\<close>

definition add_ov :: "u64 \<Rightarrow> u64 \<Rightarrow> u64 \<Rightarrow> bool" where
  "add_ov a b r \<longleftrightarrow> drop_bit 63 a = drop_bit 63 b \<and> drop_bit 63 a \<noteq> drop_bit 63 r"

definition ADD :: "bool \<Rightarrow> bool \<Rightarrow> ppu_opcode \<Rightarrow> ppu \<Rightarrow> ppu" where
  "ADD oe rc op s =
     (let RA = gpr s (op_ra op); RB = gpr s (op_rb op); r = RA + RB
      in set_rc0 rc r (set_oe oe (add_ov RA RB r) (put_gpr (op_rd op) r s)))"

definition SUBF :: "bool \<Rightarrow> bool \<Rightarrow> ppu_opcode \<Rightarrow> ppu \<Rightarrow> ppu" where
  "SUBF oe rc op s =
     (let RA = gpr s (op_ra op); RB = gpr s (op_rb op); r = RB - RA
      in set_rc0 rc r (set_oe oe (add_ov (NOT RA) RB r) (put_gpr (op_rd op) r s)))"

definition NEG :: "bool \<Rightarrow> bool \<Rightarrow> ppu_opcode \<Rightarrow> ppu \<Rightarrow> ppu" where
  "NEG oe rc op s =
     (let RA = gpr s (op_ra op); r = 0 - RA
      in set_rc0 rc r (set_oe oe (RA = push_bit 63 1) (put_gpr (op_rd op) r s)))"

definition SUBFC :: "bool \<Rightarrow> bool \<Rightarrow> ppu_opcode \<Rightarrow> ppu \<Rightarrow> ppu" where
  "SUBFC oe rc op s =
     (let RA = gpr s (op_ra op); RB = gpr s (op_rb op);
          (r, c) = add64_flags (NOT RA) RB True
      in set_rc0 rc r (set_oe oe (add_ov (NOT RA) RB r) ((put_gpr (op_rd op) r s)\<lparr>xer_ca := c\<rparr>)))"

definition ADDC :: "bool \<Rightarrow> bool \<Rightarrow> ppu_opcode \<Rightarrow> ppu \<Rightarrow> ppu" where
  "ADDC oe rc op s =
     (let RA = gpr s (op_ra op); RB = gpr s (op_rb op);
          (r, c) = add_flags RA RB
      in set_rc0 rc r (set_oe oe (add_ov RA RB r) ((put_gpr (op_rd op) r s)\<lparr>xer_ca := c\<rparr>)))"

definition SUBFE :: "bool \<Rightarrow> bool \<Rightarrow> ppu_opcode \<Rightarrow> ppu \<Rightarrow> ppu" where
  "SUBFE oe rc op s =
     (let RA = gpr s (op_ra op); RB = gpr s (op_rb op);
          (r, c) = add64_flags (NOT RA) RB (xer_ca s)
      in set_rc0 rc r (set_oe oe (add_ov (NOT RA) RB r) ((put_gpr (op_rd op) r s)\<lparr>xer_ca := c\<rparr>)))"

definition ADDE :: "bool \<Rightarrow> bool \<Rightarrow> ppu_opcode \<Rightarrow> ppu \<Rightarrow> ppu" where
  "ADDE oe rc op s =
     (let RA = gpr s (op_ra op); RB = gpr s (op_rb op);
          (r, c) = add64_flags RA RB (xer_ca s)
      in set_rc0 rc r (set_oe oe (add_ov RA RB r) ((put_gpr (op_rd op) r s)\<lparr>xer_ca := c\<rparr>)))"

definition SUBFZE :: "bool \<Rightarrow> bool \<Rightarrow> ppu_opcode \<Rightarrow> ppu \<Rightarrow> ppu" where
  "SUBFZE oe rc op s =
     (let RA = gpr s (op_ra op);
          (r, c) = add64_flags (NOT RA) 0 (xer_ca s)
      in set_rc0 rc r (set_oe oe (drop_bit 63 (NOT RA) = 0 \<and> drop_bit 63 (NOT RA) \<noteq> drop_bit 63 r) ((put_gpr (op_rd op) r s)\<lparr>xer_ca := c\<rparr>)))"

definition ADDZE :: "bool \<Rightarrow> bool \<Rightarrow> ppu_opcode \<Rightarrow> ppu \<Rightarrow> ppu" where
  "ADDZE oe rc op s =
     (let RA = gpr s (op_ra op);
          (r, c) = add64_flags RA 0 (xer_ca s)
      in set_rc0 rc r (set_oe oe (drop_bit 63 RA = 0 \<and> drop_bit 63 RA \<noteq> drop_bit 63 r) ((put_gpr (op_rd op) r s)\<lparr>xer_ca := c\<rparr>)))"

definition SUBFME :: "bool \<Rightarrow> bool \<Rightarrow> ppu_opcode \<Rightarrow> ppu \<Rightarrow> ppu" where
  "SUBFME oe rc op s =
     (let RA = gpr s (op_ra op);
          (r, c) = add64_flags (NOT RA) (NOT 0) (xer_ca s)
      in set_rc0 rc r (set_oe oe (drop_bit 63 (NOT RA) = 1 \<and> drop_bit 63 (NOT RA) \<noteq> drop_bit 63 r) ((put_gpr (op_rd op) r s)\<lparr>xer_ca := c\<rparr>)))"

definition ADDME :: "bool \<Rightarrow> bool \<Rightarrow> ppu_opcode \<Rightarrow> ppu \<Rightarrow> ppu" where
  "ADDME oe rc op s =
     (let RA = gpr s (op_ra op);
          (r, c) = add64_flags RA (NOT 0) (xer_ca s)
      in set_rc0 rc r (set_oe oe (drop_bit 63 RA = 1 \<and> drop_bit 63 RA \<noteq> drop_bit 63 r) ((put_gpr (op_rd op) r s)\<lparr>xer_ca := c\<rparr>)))"

section \<open>Multiplication and division\<close>

definition MULHDU :: "bool \<Rightarrow> ppu_opcode \<Rightarrow> ppu \<Rightarrow> ppu" where
  "MULHDU rc op s =
     (let r = umulh64 (gpr s (op_ra op)) (gpr s (op_rb op))
      in set_rc0 rc r (put_gpr (op_rd op) r s))"

definition MULHWU :: "bool \<Rightarrow> ppu_opcode \<Rightarrow> ppu \<Rightarrow> ppu" where
  "MULHWU rc op s =
     (let a = ucast (gpr s (op_ra op)) :: u32; b = ucast (gpr s (op_rb op)) :: u32;
          r = drop_bit 32 (ucast a * ucast b)
      in set_rc0 rc r (put_gpr (op_rd op) r s))"

definition MULHD :: "bool \<Rightarrow> ppu_opcode \<Rightarrow> ppu \<Rightarrow> ppu" where
  "MULHD rc op s =
     (let r = mulh64 (gpr s (op_ra op)) (gpr s (op_rb op))
      in set_rc0 rc r (put_gpr (op_rd op) r s))"

definition MULHW :: "bool \<Rightarrow> ppu_opcode \<Rightarrow> ppu \<Rightarrow> ppu" where
  "MULHW rc op s =
     (let a = ucast (gpr s (op_ra op)) :: u32; b = ucast (gpr s (op_rb op)) :: u32;
          r = signed_drop_bit 32 (scast a * scast b)
      in set_rc0 rc r (put_gpr (op_rd op) r s))"

text \<open>\<open>MULLD\<close> tests the \<open>oe\<close> field of the instruction instead of a template flag.\<close>

definition MULLD :: "bool \<Rightarrow> ppu_opcode \<Rightarrow> ppu \<Rightarrow> ppu" where
  "MULLD rc op s =
     (let RA = gpr s (op_ra op); RB = gpr s (op_rb op); r = RA * RB
      in set_rc0 rc r (set_oe (op_oe op \<noteq> 0) (mulh64 RA RB \<noteq> signed_drop_bit 63 r)
           (put_gpr (op_rd op) r s)))"

definition MULLW :: "bool \<Rightarrow> bool \<Rightarrow> ppu_opcode \<Rightarrow> ppu \<Rightarrow> ppu" where
  "MULLW oe rc op s =
     (let r = scast (ucast (gpr s (op_ra op)) :: u32) * scast (ucast (gpr s (op_rb op)) :: u32)
      in set_rc0 rc r (set_oe oe (sint r < - (2 ^ 31) \<or> sint r > 2 ^ 31 - 1)
           (put_gpr (op_rd op) r s)))"

definition DIVDU :: "bool \<Rightarrow> bool \<Rightarrow> ppu_opcode \<Rightarrow> ppu \<Rightarrow> ppu" where
  "DIVDU oe rc op s =
     (let RA = gpr s (op_ra op); RB = gpr s (op_rb op); r = (if RB = 0 then 0 else RA div RB)
      in set_rc0 rc r (set_oe oe (RB = 0) (put_gpr (op_rd op) r s)))"

definition DIVWU :: "bool \<Rightarrow> bool \<Rightarrow> ppu_opcode \<Rightarrow> ppu \<Rightarrow> ppu" where
  "DIVWU oe rc op s =
     (let RA = ucast (gpr s (op_ra op)) :: u32; RB = ucast (gpr s (op_rb op)) :: u32;
          r = (if RB = 0 then 0 else ucast (RA div RB))
      in set_rc0 rc r (set_oe oe (RB = 0) (put_gpr (op_rd op) r s)))"

definition DIVD :: "bool \<Rightarrow> bool \<Rightarrow> ppu_opcode \<Rightarrow> ppu \<Rightarrow> ppu" where
  "DIVD oe rc op s =
     (let RA = gpr s (op_ra op); RB = gpr s (op_rb op);
          ov = (RB = 0 \<or> RA = push_bit 63 1 \<and> RB = - 1);
          r = (if ov then 0 else s64_div RA RB)
      in set_rc0 rc r (set_oe oe ov (put_gpr (op_rd op) r s)))"

definition DIVW :: "bool \<Rightarrow> bool \<Rightarrow> ppu_opcode \<Rightarrow> ppu \<Rightarrow> ppu" where
  "DIVW oe rc op s =
     (let RA = ucast (gpr s (op_ra op)) :: u32; RB = ucast (gpr s (op_rb op)) :: u32;
          ov = (RB = 0 \<or> RA = push_bit 31 1 \<and> RB = - 1);
          r = (if ov then 0 else ucast (s32_div RA RB))
      in set_rc0 rc r (set_oe oe ov (put_gpr (op_rd op) r s)))"

section \<open>Logic\<close>

definition ORI :: "ppu_opcode \<Rightarrow> ppu \<Rightarrow> ppu" where
  "ORI op s = put_gpr (op_ra op) (gpr s (op_rs op) OR ucast (op_uimm16 op)) s"

definition ORIS :: "ppu_opcode \<Rightarrow> ppu \<Rightarrow> ppu" where
  "ORIS op s = put_gpr (op_ra op) (gpr s (op_rs op) OR push_bit 16 (ucast (op_uimm16 op))) s"

definition XORI :: "ppu_opcode \<Rightarrow> ppu \<Rightarrow> ppu" where
  "XORI op s = put_gpr (op_ra op) (gpr s (op_rs op) XOR ucast (op_uimm16 op)) s"

definition XORIS :: "ppu_opcode \<Rightarrow> ppu \<Rightarrow> ppu" where
  "XORIS op s = put_gpr (op_ra op) (gpr s (op_rs op) XOR push_bit 16 (ucast (op_uimm16 op))) s"

definition ANDI :: "ppu_opcode \<Rightarrow> ppu \<Rightarrow> ppu" where
  "ANDI op s =
     (let r = gpr s (op_rs op) AND ucast (op_uimm16 op)
      in ppu_cr_cmp_s 0 r 0 (put_gpr (op_ra op) r s))"

definition ANDIS :: "ppu_opcode \<Rightarrow> ppu \<Rightarrow> ppu" where
  "ANDIS op s =
     (let r = gpr s (op_rs op) AND push_bit 16 (ucast (op_uimm16 op))
      in ppu_cr_cmp_s 0 r 0 (put_gpr (op_ra op) r s))"

text \<open>\<open>AND\<close>, \<open>OR\<close> and \<open>XOR\<close> are operators of the word library, so these three carry a
  prefix.\<close>

definition ppu_AND :: "bool \<Rightarrow> ppu_opcode \<Rightarrow> ppu \<Rightarrow> ppu" where
  "ppu_AND rc op s =
     (let r = gpr s (op_rs op) AND gpr s (op_rb op)
      in set_rc0 rc r (put_gpr (op_ra op) r s))"

definition ANDC :: "bool \<Rightarrow> ppu_opcode \<Rightarrow> ppu \<Rightarrow> ppu" where
  "ANDC rc op s =
     (let r = gpr s (op_rs op) AND NOT (gpr s (op_rb op))
      in set_rc0 rc r (put_gpr (op_ra op) r s))"

definition NOR :: "bool \<Rightarrow> ppu_opcode \<Rightarrow> ppu \<Rightarrow> ppu" where
  "NOR rc op s =
     (let r = NOT (gpr s (op_rs op) OR gpr s (op_rb op))
      in set_rc0 rc r (put_gpr (op_ra op) r s))"

definition EQV :: "bool \<Rightarrow> ppu_opcode \<Rightarrow> ppu \<Rightarrow> ppu" where
  "EQV rc op s =
     (let r = NOT (gpr s (op_rs op) XOR gpr s (op_rb op))
      in set_rc0 rc r (put_gpr (op_ra op) r s))"

definition ppu_XOR :: "bool \<Rightarrow> ppu_opcode \<Rightarrow> ppu \<Rightarrow> ppu" where
  "ppu_XOR rc op s =
     (let r = gpr s (op_rs op) XOR gpr s (op_rb op)
      in set_rc0 rc r (put_gpr (op_ra op) r s))"

definition ORC :: "bool \<Rightarrow> ppu_opcode \<Rightarrow> ppu \<Rightarrow> ppu" where
  "ORC rc op s =
     (let r = gpr s (op_rs op) OR NOT (gpr s (op_rb op))
      in set_rc0 rc r (put_gpr (op_ra op) r s))"

definition ppu_OR :: "bool \<Rightarrow> ppu_opcode \<Rightarrow> ppu \<Rightarrow> ppu" where
  "ppu_OR rc op s =
     (let r = gpr s (op_rs op) OR gpr s (op_rb op)
      in set_rc0 rc r (put_gpr (op_ra op) r s))"

definition NAND :: "bool \<Rightarrow> ppu_opcode \<Rightarrow> ppu \<Rightarrow> ppu" where
  "NAND rc op s =
     (let r = NOT (gpr s (op_rs op) AND gpr s (op_rb op))
      in set_rc0 rc r (put_gpr (op_ra op) r s))"

definition CNTLZW :: "bool \<Rightarrow> ppu_opcode \<Rightarrow> ppu \<Rightarrow> ppu" where
  "CNTLZW rc op s =
     (let r = of_nat (countl_zero (ucast (gpr s (op_rs op)) :: u32))
      in set_rc0 rc r (put_gpr (op_ra op) r s))"

definition CNTLZD :: "bool \<Rightarrow> ppu_opcode \<Rightarrow> ppu \<Rightarrow> ppu" where
  "CNTLZD rc op s =
     (let r = of_nat (countl_zero (gpr s (op_rs op)))
      in set_rc0 rc r (put_gpr (op_ra op) r s))"

definition EXTSB :: "bool \<Rightarrow> ppu_opcode \<Rightarrow> ppu \<Rightarrow> ppu" where
  "EXTSB rc op s =
     (let r = scast (ucast (gpr s (op_rs op)) :: u8)
      in set_rc0 rc r (put_gpr (op_ra op) r s))"

definition EXTSH :: "bool \<Rightarrow> ppu_opcode \<Rightarrow> ppu \<Rightarrow> ppu" where
  "EXTSH rc op s =
     (let r = scast (ucast (gpr s (op_rs op)) :: u16)
      in set_rc0 rc r (put_gpr (op_ra op) r s))"

definition EXTSW :: "bool \<Rightarrow> ppu_opcode \<Rightarrow> ppu \<Rightarrow> ppu" where
  "EXTSW rc op s =
     (let r = scast (ucast (gpr s (op_rs op)) :: u32)
      in set_rc0 rc r (put_gpr (op_ra op) r s))"

section \<open>Rotates and shifts\<close>

definition RLWIMI :: "bool \<Rightarrow> ppu_opcode \<Rightarrow> ppu \<Rightarrow> ppu" where
  "RLWIMI rc op s =
     (let mask = ppu_rotate_mask (32 + op_mb32 op) (32 + op_me32 op);
          r = (gpr s (op_ra op) AND NOT mask) OR
              (dup32 (word_rotl (unat (op_sh32 op)) (ucast (gpr s (op_rs op)))) AND mask)
      in set_rc0 rc r (put_gpr (op_ra op) r s))"

definition RLWINM :: "bool \<Rightarrow> ppu_opcode \<Rightarrow> ppu \<Rightarrow> ppu" where
  "RLWINM rc op s =
     (let r = dup32 (word_rotl (unat (op_sh32 op)) (ucast (gpr s (op_rs op)))) AND
            ppu_rotate_mask (32 + op_mb32 op) (32 + op_me32 op)
      in set_rc0 rc r (put_gpr (op_ra op) r s))"

definition RLWNM :: "bool \<Rightarrow> ppu_opcode \<Rightarrow> ppu \<Rightarrow> ppu" where
  "RLWNM rc op s =
     (let r = dup32 (word_rotl (unat (gpr s (op_rb op) AND 0x1f)) (ucast (gpr s (op_rs op)))) AND
            ppu_rotate_mask (32 + op_mb32 op) (32 + op_me32 op)
      in set_rc0 rc r (put_gpr (op_ra op) r s))"

definition RLDICL :: "bool \<Rightarrow> ppu_opcode \<Rightarrow> ppu \<Rightarrow> ppu" where
  "RLDICL rc op s =
     (let r = word_rotl (unat (op_sh64 op)) (gpr s (op_rs op)) AND drop_bit (unat (op_mbe64 op)) (NOT 0)
      in set_rc0 rc r (put_gpr (op_ra op) r s))"

definition RLDICR :: "bool \<Rightarrow> ppu_opcode \<Rightarrow> ppu \<Rightarrow> ppu" where
  "RLDICR rc op s =
     (let r = word_rotl (unat (op_sh64 op)) (gpr s (op_rs op)) AND push_bit (unat (op_mbe64 op XOR 63)) (NOT 0)
      in set_rc0 rc r (put_gpr (op_ra op) r s))"

definition RLDIC :: "bool \<Rightarrow> ppu_opcode \<Rightarrow> ppu \<Rightarrow> ppu" where
  "RLDIC rc op s =
     (let r = word_rotl (unat (op_sh64 op)) (gpr s (op_rs op)) AND
            ppu_rotate_mask (op_mbe64 op) (op_sh64 op XOR 63)
      in set_rc0 rc r (put_gpr (op_ra op) r s))"

definition RLDIMI :: "bool \<Rightarrow> ppu_opcode \<Rightarrow> ppu \<Rightarrow> ppu" where
  "RLDIMI rc op s =
     (let mask = ppu_rotate_mask (op_mbe64 op) (op_sh64 op XOR 63);
          r = (gpr s (op_ra op) AND NOT mask) OR (word_rotl (unat (op_sh64 op)) (gpr s (op_rs op)) AND mask)
      in set_rc0 rc r (put_gpr (op_ra op) r s))"

definition RLDCL :: "bool \<Rightarrow> ppu_opcode \<Rightarrow> ppu \<Rightarrow> ppu" where
  "RLDCL rc op s =
     (let r = word_rotl (unat (gpr s (op_rb op) AND 0x3f)) (gpr s (op_rs op)) AND
            drop_bit (unat (op_mbe64 op)) (NOT 0)
      in set_rc0 rc r (put_gpr (op_ra op) r s))"

definition RLDCR :: "bool \<Rightarrow> ppu_opcode \<Rightarrow> ppu \<Rightarrow> ppu" where
  "RLDCR rc op s =
     (let r = word_rotl (unat (gpr s (op_rb op) AND 0x3f)) (gpr s (op_rs op)) AND
            push_bit (unat (op_mbe64 op XOR 63)) (NOT 0)
      in set_rc0 rc r (put_gpr (op_ra op) r s))"

definition SLW :: "bool \<Rightarrow> ppu_opcode \<Rightarrow> ppu \<Rightarrow> ppu" where
  "SLW rc op s =
     (let r = ucast (ucast (push_bit (unat (gpr s (op_rb op) AND 0x3f)) (gpr s (op_rs op))) :: u32)
      in set_rc0 rc r (put_gpr (op_ra op) r s))"

definition SRW :: "bool \<Rightarrow> ppu_opcode \<Rightarrow> ppu \<Rightarrow> ppu" where
  "SRW rc op s =
     (let r = drop_bit (unat (gpr s (op_rb op) AND 0x3f)) (gpr s (op_rs op) AND 0xffffffff)
      in set_rc0 rc r (put_gpr (op_ra op) r s))"

definition SLD :: "bool \<Rightarrow> ppu_opcode \<Rightarrow> ppu \<Rightarrow> ppu" where
  "SLD rc op s =
     (let n = gpr s (op_rb op) AND 0x7f;
          r = if n AND 0x40 \<noteq> 0 then 0 else push_bit (unat n) (gpr s (op_rs op))
      in set_rc0 rc r (put_gpr (op_ra op) r s))"

definition SRD :: "bool \<Rightarrow> ppu_opcode \<Rightarrow> ppu \<Rightarrow> ppu" where
  "SRD rc op s =
     (let n = gpr s (op_rb op) AND 0x7f;
          r = if n AND 0x40 \<noteq> 0 then 0 else drop_bit (unat n) (gpr s (op_rs op))
      in set_rc0 rc r (put_gpr (op_ra op) r s))"

definition SRAW :: "bool \<Rightarrow> ppu_opcode \<Rightarrow> ppu \<Rightarrow> ppu" where
  "SRAW rc op s =
     (let RS = ucast (gpr s (op_rs op)) :: u32; shift = unat (gpr s (op_rb op) AND 63);
          neg = (sint RS < 0);
          r = (if shift > 31 then (if neg then - 1 else 0) else scast (signed_drop_bit shift RS));
          c = (if shift > 31 then neg else neg \<and> push_bit shift r \<noteq> scast RS)
      in set_rc0 rc r ((put_gpr (op_ra op) r s)\<lparr>xer_ca := c\<rparr>))"

definition SRAD :: "bool \<Rightarrow> ppu_opcode \<Rightarrow> ppu \<Rightarrow> ppu" where
  "SRAD rc op s =
     (let RS = gpr s (op_rs op); shift = unat (gpr s (op_rb op) AND 127);
          neg = (sint RS < 0);
          r = (if shift > 63 then (if neg then - 1 else 0) else signed_drop_bit shift RS);
          c = (if shift > 63 then neg else neg \<and> push_bit shift r \<noteq> RS)
      in set_rc0 rc r ((put_gpr (op_ra op) r s)\<lparr>xer_ca := c\<rparr>))"

definition SRAWI :: "bool \<Rightarrow> ppu_opcode \<Rightarrow> ppu \<Rightarrow> ppu" where
  "SRAWI rc op s =
     (let RS = ucast (gpr s (op_rs op)) :: u32; sh = unat (op_sh32 op);
          r = scast (signed_drop_bit sh RS);
          c = (sint RS < 0 \<and> (ucast (push_bit sh r) :: u32) \<noteq> RS)
      in set_rc0 rc r ((put_gpr (op_ra op) r s)\<lparr>xer_ca := c\<rparr>))"

definition SRADI :: "bool \<Rightarrow> ppu_opcode \<Rightarrow> ppu \<Rightarrow> ppu" where
  "SRADI rc op s =
     (let RS = gpr s (op_rs op); sh = unat (op_sh64 op);
          r = signed_drop_bit sh RS;
          c = (sint RS < 0 \<and> push_bit sh r \<noteq> RS)
      in set_rc0 rc r ((put_gpr (op_ra op) r s)\<lparr>xer_ca := c\<rparr>))"

section \<open>Comparison\<close>

definition CMPLI :: "ppu_opcode \<Rightarrow> ppu \<Rightarrow> ppu" where
  "CMPLI op s =
     (if op_l10 op \<noteq> 0 then ppu_cr_cmp_u (op_crfd op) (gpr s (op_ra op)) (ucast (op_uimm16 op)) s
      else ppu_cr_cmp_u (op_crfd op) (ucast (gpr s (op_ra op)) :: u32) (op_uimm16 op) s)"

definition CMPI :: "ppu_opcode \<Rightarrow> ppu \<Rightarrow> ppu" where
  "CMPI op s =
     (if op_l10 op \<noteq> 0 then ppu_cr_cmp_s (op_crfd op) (gpr s (op_ra op)) (scast (op_simm16 op)) s
      else ppu_cr_cmp_s (op_crfd op) (ucast (gpr s (op_ra op)) :: u32) (op_simm16 op) s)"

definition CMP :: "ppu_opcode \<Rightarrow> ppu \<Rightarrow> ppu" where
  "CMP op s =
     (if op_l10 op \<noteq> 0 then ppu_cr_cmp_s (op_crfd op) (gpr s (op_ra op)) (gpr s (op_rb op)) s
      else ppu_cr_cmp_s (op_crfd op) (ucast (gpr s (op_ra op)) :: u32) (ucast (gpr s (op_rb op))) s)"

definition CMPL :: "ppu_opcode \<Rightarrow> ppu \<Rightarrow> ppu" where
  "CMPL op s =
     (if op_l10 op \<noteq> 0 then ppu_cr_cmp_u (op_crfd op) (gpr s (op_ra op)) (gpr s (op_rb op)) s
      else ppu_cr_cmp_u (op_crfd op) (ucast (gpr s (op_ra op)) :: u32) (ucast (gpr s (op_rb op))) s)"

section \<open>State projections\<close>

lemma put_gpr_simps [simp]:
  "gpr (put_gpr r v s) = (gpr s)(r := v)" "cr_bits (put_gpr r v s) = cr_bits s" "xer_ca (put_gpr r v s) = xer_ca s"
  "xer_so (put_gpr r v s) = xer_so s" "xer_ov (put_gpr r v s) = xer_ov s" "rdata (put_gpr r v s) = rdata s"
  "vmem (put_gpr r v s) = vmem s"
  by (simp_all add: put_gpr_def)

lemma put_cr_simps [simp]:
  "gpr (put_cr i v s) = gpr s" "cr_bits (put_cr i v s) = (cr_bits s)(i := v)" "xer_ca (put_cr i v s) = xer_ca s"
  "xer_so (put_cr i v s) = xer_so s" "xer_ov (put_cr i v s) = xer_ov s" "rdata (put_cr i v s) = rdata s"
  "vmem (put_cr i v s) = vmem s"
  by (simp_all add: put_cr_def)

lemma ppu_cr_set_simps [simp]:
  "gpr (ppu_cr_set f l g e o' s) = gpr s" "xer_ca (ppu_cr_set f l g e o' s) = xer_ca s"
  "xer_so (ppu_cr_set f l g e o' s) = xer_so s" "xer_ov (ppu_cr_set f l g e o' s) = xer_ov s"
  "rdata (ppu_cr_set f l g e o' s) = rdata s" "vmem (ppu_cr_set f l g e o' s) = vmem s"
  by (simp_all add: ppu_cr_set_def)

lemma set_rc0_simps [simp]:
  "gpr (set_rc0 rc r s) = gpr s" "xer_ca (set_rc0 rc r s) = xer_ca s" "xer_so (set_rc0 rc r s) = xer_so s"
  "xer_ov (set_rc0 rc r s) = xer_ov s" "rdata (set_rc0 rc r s) = rdata s" "vmem (set_rc0 rc r s) = vmem s"
  by (simp_all add: set_rc0_def ppu_cr_cmp_s_def)

lemma set_oe_simps [simp]:
  "gpr (set_oe oe b s) = gpr s" "xer_ca (set_oe oe b s) = xer_ca s" "cr_bits (set_oe oe b s) = cr_bits s"
  "rdata (set_oe oe b s) = rdata s" "vmem (set_oe oe b s) = vmem s"
  "xer_ov (set_oe oe b s) = (if oe then b else xer_ov s)"
  "xer_so (set_oe oe b s) = (if oe then xer_so s \<or> b else xer_so s)"
  by (simp_all add: set_oe_def ppu_ov_set_def)

section \<open>Carry\<close>

lemma add_flags_exact:
  "unat (fst (add_flags a b)) + 2 ^ 64 * of_bool (snd (add_flags a b)) = unat a + unat b"
proof -
  have "a + b < a \<longleftrightarrow> \<not> unat a + unat b < 2 ^ 64"
    using unat_add_split [of a b] unat_lt [of b] by (auto simp: word_less_nat_alt)
  then show ?thesis using unat_add_split [of a b] by (auto simp: add_flags_def Let_def)
qed

lemma add64_flags_exact:
  "unat (fst (add64_flags a b c)) + 2 ^ 64 * of_bool (snd (add64_flags a b c)) = unat a + unat b + of_bool c"
proof -
  obtain r1 c1 where 1: "add_flags a b = (r1, c1)" by (cases "add_flags a b")
  obtain r2 c2 where 2: "add_flags r1 (if c then 1 else 0) = (r2, c2)" by (cases "add_flags r1 (if c then 1 else 0)")
  have e: "unat r1 + 2 ^ 64 * of_bool c1 = unat a + unat b" "unat r2 + 2 ^ 64 * of_bool c2 = unat r1 + of_bool c"
    using add_flags_exact [of a b] add_flags_exact [of r1 "if c then 1 else 0"] by (auto simp: 1 2)
  have "unat a < 2 ^ 64" "unat b < 2 ^ 64" using unat_lt [of a] unat_lt [of b] by simp_all
  with e have "\<not> (c1 \<and> c2)" by (cases c1; cases c2; cases c) auto
  with e show ?thesis by (cases c1; cases c2) (auto simp: add64_flags_def Let_def 1 2)
qed

lemma add64_flags_value: "fst (add64_flags a b c) = a + b + of_bool c"
  by (simp add: add64_flags_def add_flags_def Let_def)

section \<open>Overflow\<close>

lemma drop_63: "drop_bit 63 (x :: u64) = of_bool (2 ^ 63 \<le> unat x)"
proof -
  have "bit (drop_bit 63 x) n = bit (of_bool (bit x 63) :: u64) n" for n
    by (cases n) (auto simp: bit_simps dest: bit_imp_le_length)
  then have "drop_bit 63 x = of_bool (bit x 63)" by (simp add: bit_eq_iff)
  then show ?thesis using msb_unat [of x] by simp
qed

text \<open>Signed overflow: the exact sum is not representable in 64 bits.\<close>

definition fits64 :: "int \<Rightarrow> bool" where
  "fits64 k \<longleftrightarrow> - (2 ^ 63) \<le> k \<and> k < 2 ^ 63"

lemma overflow_nat:
  fixes x y z :: nat
  assumes "x < 2 ^ 64" "y < 2 ^ 64" "z < 2 ^ 64" "z + 2 ^ 64 * of_bool k = x + y + of_bool c"
  defines "sg \<equiv> \<lambda>n :: nat. if n < 2 ^ 63 then int n else int n - 2 ^ 64"
  shows "(2 ^ 63 \<le> x) = (2 ^ 63 \<le> y) \<and> (2 ^ 63 \<le> x) \<noteq> (2 ^ 63 \<le> z) \<longleftrightarrow> \<not> fits64 (sg x + sg y + of_bool c)"
  using assms(1-4) by (cases c; cases k) (auto simp: sg_def fits64_def)

lemma add_ov_exact: "add_ov a b (a + b + of_bool c) \<longleftrightarrow> \<not> fits64 (sint a + sint b + of_bool c)"
proof -
  have u: "unat (a + b + of_bool c) + 2 ^ 64 * of_bool (snd (add64_flags a b c)) = unat a + unat b + of_bool c"
    using add64_flags_exact [of a b c] by (simp only: add64_flags_value)
  have l: "unat a < 2 ^ 64" "unat b < 2 ^ 64" "unat (a + b + of_bool c) < 2 ^ 64"
    using unat_lt [of a] unat_lt [of b] unat_lt [of "a + b + of_bool c"] by simp_all
  have "add_ov a b (a + b + of_bool c) \<longleftrightarrow> (2 ^ 63 \<le> unat a) = (2 ^ 63 \<le> unat b) \<and>
      (2 ^ 63 \<le> unat a) \<noteq> (2 ^ 63 \<le> unat (a + b + of_bool c))"
    by (simp only: add_ov_def drop_63 of_bool_eq_iff)
  with overflow_nat [OF l u] show ?thesis by (simp only: sint_unat) simp
qed

lemmas carry_defs = SUBFC_def ADDC_def SUBFE_def ADDE_def SUBFZE_def ADDZE_def SUBFME_def ADDME_def ADDIC_def SUBFIC_def

lemma unat_not: "unat (NOT a) + unat a = 2 ^ 64 - 1" for a :: u64
proof -
  have "NOT a = - 1 - a" by (simp add: not_eq_complement)
  moreover have "unat (- 1 - a) = unat (- 1 :: u64) - unat a"
    by (subst unat_diff_split) (simp add: word_order.extremum flip: word_le_nat_alt)
  moreover have "unat a \<le> unat (- 1 :: u64)" by (simp flip: word_le_nat_alt)
  ultimately show ?thesis by (simp add: unsigned_minus_1_eq_mask mask_eq_exp_minus_1)
qed

lemma carry_results:
  "unat (gpr (ADDC oe rc op s) (op_rd op)) + 2 ^ 64 * of_bool (xer_ca (ADDC oe rc op s)) =
    unat (gpr s (op_ra op)) + unat (gpr s (op_rb op))"
  "unat (gpr (ADDE oe rc op s) (op_rd op)) + 2 ^ 64 * of_bool (xer_ca (ADDE oe rc op s)) =
    unat (gpr s (op_ra op)) + unat (gpr s (op_rb op)) + of_bool (xer_ca s)"
  "unat (gpr (SUBFC oe rc op s) (op_rd op)) + unat (gpr s (op_ra op)) + 2 ^ 64 * of_bool (xer_ca (SUBFC oe rc op s)) =
    unat (gpr s (op_rb op)) + 2 ^ 64"
  "unat (gpr (SUBFE oe rc op s) (op_rd op)) + unat (gpr s (op_ra op)) + 2 ^ 64 * of_bool (xer_ca (SUBFE oe rc op s)) + 1 =
    unat (gpr s (op_rb op)) + 2 ^ 64 + of_bool (xer_ca s)"
  using add_flags_exact [of "gpr s (op_ra op)" "gpr s (op_rb op)"]
    add64_flags_exact [of "gpr s (op_ra op)" "gpr s (op_rb op)" "xer_ca s"]
    add64_flags_exact [of "NOT (gpr s (op_ra op))" "gpr s (op_rb op)" True]
    add64_flags_exact [of "NOT (gpr s (op_ra op))" "gpr s (op_rb op)" "xer_ca s"] unat_not [of "gpr s (op_ra op)"]
  by (simp_all add: carry_defs Let_def split_beta)

lemma carry_others:
  "r \<noteq> op_rd op \<Longrightarrow> gpr (ADDC oe rc op s) r = gpr s r" "r \<noteq> op_rd op \<Longrightarrow> gpr (ADDE oe rc op s) r = gpr s r"
  "r \<noteq> op_rd op \<Longrightarrow> gpr (SUBFC oe rc op s) r = gpr s r" "r \<noteq> op_rd op \<Longrightarrow> gpr (SUBFE oe rc op s) r = gpr s r"
  by (simp_all add: carry_defs Let_def split_beta)

text \<open>C13: multi-precision arithmetic composes. When the low result register is not used by the
  high instruction, \<open>ADDC\<close> on the low halves followed by \<open>ADDE\<close> on the high halves leaves the
  exact 129-bit sum in the two result registers and the carry, and \<open>SUBFC\<close> followed by \<open>SUBFE\<close>
  leaves the exact difference modulo 2^128, the final carry being clear exactly when it borrows.\<close>

theorem add_sub_128:
  assumes "op_rd lo \<notin> {op_ra hi, op_rb hi, op_rd hi}"
  shows "let x = 2 ^ 64 * unat (gpr s (op_ra hi)) + unat (gpr s (op_ra lo));
      y = 2 ^ 64 * unat (gpr s (op_rb hi)) + unat (gpr s (op_rb lo));
      a = ADDE oe rc hi (ADDC oe' rc' lo s);
      d = SUBFE oe rc hi (SUBFC oe' rc' lo s)
    in 2 ^ 64 * unat (gpr a (op_rd hi)) + unat (gpr a (op_rd lo)) + 2 ^ 128 * of_bool (xer_ca a) = x + y \<and>
       2 ^ 64 * unat (gpr d (op_rd hi)) + unat (gpr d (op_rd lo)) + x = y + 2 ^ 128 * of_bool (\<not> xer_ca d)"
proof -
  have n: "op_rd lo \<noteq> op_ra hi" "op_rd lo \<noteq> op_rb hi" "op_rd lo \<noteq> op_rd hi" using assms by auto
  let ?a = "ADDC oe' rc' lo s" and ?d = "SUBFC oe' rc' lo s"
  note a = carry_results(1) [of oe' rc' lo s] carry_results(2) [of oe rc hi ?a]
  note d = carry_results(3) [of oe' rc' lo s] carry_results(4) [of oe rc hi ?d]
  have "2 ^ 64 * unat (gpr (ADDE oe rc hi ?a) (op_rd hi)) + unat (gpr ?a (op_rd lo)) +
      2 ^ 128 * of_bool (xer_ca (ADDE oe rc hi ?a)) =
    2 ^ 64 * unat (gpr s (op_ra hi)) + unat (gpr s (op_ra lo)) +
      (2 ^ 64 * unat (gpr s (op_rb hi)) + unat (gpr s (op_rb lo)))"
    using a n by (simp add: carry_others)
  moreover have "2 ^ 64 * unat (gpr (SUBFE oe rc hi ?d) (op_rd hi)) + unat (gpr ?d (op_rd lo)) +
      (2 ^ 64 * unat (gpr s (op_ra hi)) + unat (gpr s (op_ra lo))) =
    2 ^ 64 * unat (gpr s (op_rb hi)) + unat (gpr s (op_rb lo)) +
      2 ^ 128 * of_bool (\<not> xer_ca (SUBFE oe rc hi ?d))"
    using d n by (cases "xer_ca ?d"; cases "xer_ca (SUBFE oe rc hi ?d)") (simp_all add: carry_others)
  ultimately show ?thesis using n by (simp add: Let_def carry_others)
qed

theorem add_sub_128_witness:
  "let lo = 6563840; hi = 13058048; s = put_gpr 5 1 (put_gpr 4 (- 1) (ppu_init (\<lambda>_. 0)));
     a = ADDE False False hi (ADDC False False lo s)
   in 2 ^ 64 * unat (gpr a 6) + unat (gpr a 3) + 2 ^ 128 * of_bool (xer_ca a) = 2 ^ 64"
proof -
  have f: "op_rd 6563840 = 3" "op_ra 6563840 = 4" "op_rb 6563840 = 5"
    "op_rd 13058048 = 6" "op_ra 13058048 = 7" "op_rb 13058048 = 8" by code_simp+
  show ?thesis
    using add_sub_128 [of 6563840 13058048 "put_gpr 5 1 (put_gpr 4 (- 1) (ppu_init (\<lambda>_. 0)))" False False False False]
    by (simp add: f Let_def ppu_init_def unsigned_minus_1_eq_mask mask_eq_exp_minus_1)
qed

lemma sint_not: "sint (NOT a) = - sint a - 1" for a :: u64
proof -
  have "int (unat (NOT a)) = 2 ^ 64 - 1 - int (unat a)"
    using arg_cong [OF unat_not [of a], of int] by simp
  moreover have "unat (NOT a) < 2 ^ 63 \<longleftrightarrow> \<not> unat a < 2 ^ 63" using unat_not [of a] by auto
  ultimately show ?thesis by (simp only: sint_unat len_of_numeral_defs) simp
qed

lemma overflow_add: "add_ov a b (a + b) \<longleftrightarrow> \<not> fits64 (sint a + sint b)"
  using add_ov_exact [of a b False] by simp

lemma overflow_sub: "add_ov (NOT a) b (b - a) \<longleftrightarrow> \<not> fits64 (sint b - sint a)"
proof -
  have "NOT a + b + of_bool True = b - a" by (simp add: not_eq_complement)
  then show ?thesis using add_ov_exact [of "NOT a" b True] by (simp only: sint_not) simp
qed

lemma overflow_neg: "a = push_bit 63 1 \<longleftrightarrow> \<not> fits64 (- sint a)" for a :: u64
proof -
  have "unat (push_bit 63 1 :: u64) = 2 ^ 63" by simp
  then have "a = push_bit 63 1 \<longleftrightarrow> unat a = 2 ^ 63" by (metis word_unat_eq_iff)
  moreover have "x = 2 ^ 63 \<longleftrightarrow> \<not> fits64 (- (if x < 2 ^ 63 then int x else int x - 2 ^ 64))" if "x < 2 ^ 64" for x :: nat
    using that by (auto simp: fits64_def)
  from this [of "unat a"] have "unat a = 2 ^ 63 \<longleftrightarrow> \<not> fits64 (- sint a)"
    using unat_lt [of a] by (simp only: sint_unat) simp
  ultimately show ?thesis by simp
qed

lemma overflow_zero: "drop_bit 63 a = 0 \<and> drop_bit 63 a \<noteq> drop_bit 63 r \<longleftrightarrow> add_ov a 0 r"
  and overflow_ones: "drop_bit 63 a = 1 \<and> drop_bit 63 a \<noteq> drop_bit 63 r \<longleftrightarrow> add_ov a (NOT 0) r"
proof -
  have "drop_bit 63 (0 :: u64) = 0" "drop_bit 63 (NOT 0 :: u64) = 1" by code_simp+
  then show "drop_bit 63 a = 0 \<and> drop_bit 63 a \<noteq> drop_bit 63 r \<longleftrightarrow> add_ov a 0 r"
    "drop_bit 63 a = 1 \<and> drop_bit 63 a \<noteq> drop_bit 63 r \<longleftrightarrow> add_ov a (NOT 0) r"
    by (simp_all only: add_ov_def)
qed

text \<open>The contract of an overflow-recording instruction with exact result \<open>k\<close>: the register
  holds \<open>k\<close> modulo 2^64, \<open>OV\<close> tells whether \<open>k\<close> is out of range, \<open>SO\<close> accumulates it.\<close>

definition ov_result :: "ppu_opcode \<Rightarrow> ppu \<Rightarrow> ppu \<Rightarrow> int \<Rightarrow> bool" where
  "ov_result op s s' k \<longleftrightarrow> gpr s' (op_rd op) = word_of_int k \<and> xer_ov s' = (\<not> fits64 k) \<and>
     xer_so s' = (xer_so s \<or> \<not> fits64 k)"

lemma ov_resultI:
  assumes "gpr s' (op_rd op) = a + b + of_bool c" "xer_ov s' = add_ov a b (a + b + of_bool c)"
    and "xer_so s' = (xer_so s \<or> add_ov a b (a + b + of_bool c))" "k = sint a + sint b + of_bool c"
  shows "ov_result op s s' k"
  using assms by (simp add: ov_result_def add_ov_exact)

text \<open>C14: overflow recording is exact. For every addition, subtraction and negation with \<open>OE\<close>
  set, the target register holds the exact signed result modulo 2^64, \<open>OV\<close> is set exactly when
  that result does not fit in 64 bits, and \<open>SO\<close> keeps every overflow seen.\<close>

theorem overflow_exact:
  "let RA = sint (gpr s (op_ra op)); RB = sint (gpr s (op_rb op)); c = of_bool (xer_ca s)
   in ov_result op s (ADD True rc op s) (RA + RB) \<and> ov_result op s (SUBF True rc op s) (RB - RA) \<and>
      ov_result op s (NEG True rc op s) (- RA) \<and>
      ov_result op s (ADDC True rc op s) (RA + RB) \<and> ov_result op s (SUBFC True rc op s) (RB - RA) \<and>
      ov_result op s (ADDE True rc op s) (RA + RB + c) \<and> ov_result op s (SUBFE True rc op s) (RB - RA - 1 + c) \<and>
      ov_result op s (ADDZE True rc op s) (RA + c) \<and> ov_result op s (SUBFZE True rc op s) (- RA - 1 + c) \<and>
      ov_result op s (ADDME True rc op s) (RA - 1 + c) \<and> ov_result op s (SUBFME True rc op s) (- RA - 2 + c)"
proof -
  let ?a = "gpr s (op_ra op)" and ?b = "gpr s (op_rb op)" and ?c = "xer_ca s"
  note defs = carry_defs ADD_def SUBF_def NEG_def Let_def split_beta add64_flags_value add_flags_def
    overflow_zero overflow_ones sint_not
  have b: "NOT ?a + ?b + of_bool True = ?b - ?a" "- ?a = NOT ?a + 0 + of_bool True" by (simp_all add: not_eq_complement)
  have "ov_result op s (ADD True rc op s) (sint ?a + sint ?b)"
    by (rule ov_resultI [of _ _ ?a ?b False]) (simp_all add: defs)
  moreover have "ov_result op s (SUBF True rc op s) (sint ?b - sint ?a)"
    by (rule ov_resultI [of _ _ "NOT ?a" ?b True]) (simp_all only: b, simp_all add: defs)
  moreover have "ov_result op s (NEG True rc op s) (- sint ?a)"
    using overflow_neg [of ?a] by (simp add: defs ov_result_def)
  moreover have "ov_result op s (ADDC True rc op s) (sint ?a + sint ?b)"
    by (rule ov_resultI [of _ _ ?a ?b False]) (simp_all add: defs)
  moreover have "ov_result op s (SUBFC True rc op s) (sint ?b - sint ?a)"
    by (rule ov_resultI [of _ _ "NOT ?a" ?b True]) (simp_all add: defs)
  moreover have "ov_result op s (ADDE True rc op s) (sint ?a + sint ?b + of_bool ?c)"
    by (rule ov_resultI [of _ _ ?a ?b ?c]) (simp_all add: defs)
  moreover have "ov_result op s (SUBFE True rc op s) (sint ?b - sint ?a - 1 + of_bool ?c)"
    by (rule ov_resultI [of _ _ "NOT ?a" ?b ?c]) (simp_all add: defs)
  moreover have "ov_result op s (ADDZE True rc op s) (sint ?a + of_bool ?c)"
    by (rule ov_resultI [of _ _ ?a 0 ?c]) (simp_all add: defs)
  moreover have "ov_result op s (SUBFZE True rc op s) (- sint ?a - 1 + of_bool ?c)"
    by (rule ov_resultI [of _ _ "NOT ?a" 0 ?c]) (simp_all add: defs)
  moreover have "ov_result op s (ADDME True rc op s) (sint ?a - 1 + of_bool ?c)"
    by (rule ov_resultI [of _ _ ?a "NOT 0" ?c]) (simp_all add: defs)
  moreover have "ov_result op s (SUBFME True rc op s) (- sint ?a - 2 + of_bool ?c)"
    by (rule ov_resultI [of _ _ "NOT ?a" "NOT 0" ?c]) (simp_all add: defs)
  ultimately show ?thesis by (simp only: Let_def simp_thms)
qed

section \<open>Shifts\<close>

lemma unat_and_mask: "unat (w AND mask n) = unat w mod 2 ^ n" for w :: u64
  by (simp only: take_bit_eq_mask [symmetric] unsigned_take_bit_eq) (simp add: take_bit_eq_mod)

lemma count_masks:
  "unat (w AND 0x3f) = unat w mod 64" "unat (w AND 0x7f) = unat w mod 128" for w :: u64
  using unat_and_mask [of w 6] unat_and_mask [of w 7] by (simp_all add: mask_eq_exp_minus_1)

lemma bit_6_of_count: "(w AND 0x7f) AND 0x40 \<noteq> 0 \<longleftrightarrow> 64 \<le> unat w mod 128" for w :: u64
proof -
  have "(w AND 0x7f) AND 0x40 \<noteq> 0 \<longleftrightarrow> bit (w AND mask 7) 6"
    using and_exp_eq_0_iff_not_bit [of "w AND 0x7f" 6] by (simp add: mask_eq_exp_minus_1)
  also have "\<dots> \<longleftrightarrow> bit w 6" by (simp add: bit_simps)
  also have "\<dots> \<longleftrightarrow> odd (unat w div 64)" by (simp add: bit_iff_odd_unat)
  also have "\<dots> \<longleftrightarrow> 64 \<le> unat w mod 128"
  proof -
    have "x mod 128 = 64 * (x div 64 mod 2) + x mod 64" for x :: nat
      using mod_mult2_eq [of x 64 2] by simp
    then have "odd (x div 64) \<longleftrightarrow> 64 \<le> x mod 128" for x :: nat
      by (cases "even (x div 64)") (simp_all add: odd_iff_mod_2_eq_one not_le)
    then show ?thesis .
  qed
  finally show ?thesis .
qed

lemma unat_push_bit: "unat (push_bit n x) = unat x * 2 ^ n mod 2 ^ LENGTH('a)" for x :: "'a::len word"
  by (simp only: unsigned_push_bit_eq) (simp add: push_bit_eq_mult take_bit_eq_mod)

text \<open>Whether an arithmetic right shift loses bits, as the code tests it.\<close>

lemma shift_back_exact:
  fixes k :: int
  assumes "n < LENGTH('a)" "- (2 ^ (LENGTH('a) - 1)) \<le> k" "k < 2 ^ (LENGTH('a) - 1)"
  shows "(word_of_int (2 ^ n * (k div 2 ^ n)) :: 'a::len word) = word_of_int k \<longleftrightarrow> 2 ^ n dvd k"
proof -
  have "0 \<le> k mod 2 ^ n" by simp
  then have le: "2 ^ n * (k div 2 ^ n) \<le> k"
    using mult_div_mod_eq [of "2 ^ n" k] by linarith
  have ge: "- (2 ^ (LENGTH('a) - 1)) \<le> 2 ^ n * (k div 2 ^ n)"
  proof -
    have p: "(2 :: int) ^ (LENGTH('a) - 1) = 2 ^ n * 2 ^ (LENGTH('a) - 1 - n)"
      using assms(1) by (simp flip: power_add)
    define m :: int where "m = 2 ^ (LENGTH('a) - 1 - n)"
    have "2 ^ n * (- m) \<le> k" using assms(2) by (simp only: p m_def mult_minus_right)
    then have "2 ^ n * (- m) div 2 ^ n \<le> k div 2 ^ n" by (rule zdiv_mono1) simp
    then have "- m \<le> k div 2 ^ n" by (simp only: nonzero_mult_div_cancel_left power_not_zero zero_neq_numeral not_False_eq_True)
    then have "2 ^ n * (- m) \<le> 2 ^ n * (k div 2 ^ n)" by (rule mult_left_mono) simp
    then show ?thesis by (simp only: p m_def mult_minus_right)
  qed
  have s: "sint (word_of_int x :: 'a word) = x" if "- (2 ^ (LENGTH('a) - 1)) \<le> x" "x < 2 ^ (LENGTH('a) - 1)" for x
    using that by (simp add: signed_of_int signed_take_bit_int_eq_self)
  have "(word_of_int (2 ^ n * (k div 2 ^ n)) :: 'a word) = word_of_int k \<longleftrightarrow> 2 ^ n * (k div 2 ^ n) = k"
    using s [OF assms(2,3)] s [OF ge] le assms(3) by (metis le_less_trans)
  then show ?thesis by (metis dvd_mult_div_cancel dvd_triv_left)
qed

lemma word_of_scast: "(scast (x :: u32) :: u64) = word_of_int (sint x)" by simp

lemma push_of_shift:
  "push_bit n (word_of_int k :: 'a::len word) = word_of_int (2 ^ n * k)"
  by (simp add: push_bit_eq_mult mult.commute)

lemma sint_scast_32: "sint (scast (x :: u32) :: u64) = sint x"
  using sint_range [of x] by (simp add: signed_scast_eq signed_take_bit_int_eq_self)

lemma unat_low32: "unat (ucast (w :: u64) :: u32) = unat w mod 2 ^ 32"
  by (simp only: unsigned_ucast_eq) (simp add: take_bit_eq_mod)

lemma unat_drop: "unat (drop_bit n w) = unat w div 2 ^ n" for w :: u64
  by (simp only: unat_drop_bit_eq) (simp add: drop_bit_eq_div)

lemma logical_shifts:
  "unat (gpr (SLW rc op s) (op_ra op)) =
    unat (gpr s (op_rs op)) * 2 ^ (unat (gpr s (op_rb op)) mod 64) mod 2 ^ 32"
  "unat (gpr (SRW rc op s) (op_ra op)) =
    unat (gpr s (op_rs op)) mod 2 ^ 32 div 2 ^ (unat (gpr s (op_rb op)) mod 64)"
  "unat (gpr (SLD rc op s) (op_ra op)) =
    unat (gpr s (op_rs op)) * 2 ^ (unat (gpr s (op_rb op)) mod 128) mod 2 ^ 64"
  "unat (gpr (SRD rc op s) (op_ra op)) =
    unat (gpr s (op_rs op)) div 2 ^ (unat (gpr s (op_rb op)) mod 128)"
proof -
  have big: "(2 :: nat) ^ 64 dvd 2 ^ n" if "64 \<le> n" for n using that by (rule le_imp_power_dvd)
  show "unat (gpr (SLW rc op s) (op_ra op)) =
    unat (gpr s (op_rs op)) * 2 ^ (unat (gpr s (op_rb op)) mod 64) mod 2 ^ 32"
    by (simp add: SLW_def Let_def count_masks unat_low32 unat_push_bit mod_mod_cancel)
  have m: "(0xffffffff :: u64) = mask 32" by (simp add: mask_eq_exp_minus_1)
  show "unat (gpr (SRW rc op s) (op_ra op)) =
    unat (gpr s (op_rs op)) mod 2 ^ 32 div 2 ^ (unat (gpr s (op_rb op)) mod 64)"
    unfolding SRW_def Let_def m by (simp add: count_masks unat_drop unat_and_mask del: drop_bit_and)
  show "unat (gpr (SLD rc op s) (op_ra op)) =
    unat (gpr s (op_rs op)) * 2 ^ (unat (gpr s (op_rb op)) mod 128) mod 2 ^ 64"
    using big [of "unat (gpr s (op_rb op)) mod 128"]
    by (simp add: SLD_def Let_def bit_6_of_count count_masks unat_push_bit)
  have "unat (gpr s (op_rs op)) < 2 ^ (unat (gpr s (op_rb op)) mod 128)" if "64 \<le> unat (gpr s (op_rb op)) mod 128"
    using unat_lt [of "gpr s (op_rs op)"] power_increasing [OF that, of "2 :: nat"] by simp
  then show "unat (gpr (SRD rc op s) (op_ra op)) =
    unat (gpr s (op_rs op)) div 2 ^ (unat (gpr s (op_rb op)) mod 128)"
    by (simp add: SRD_def Let_def bit_6_of_count count_masks unat_drop)
qed

text \<open>An arithmetic right shift with its carry: the floor of the quotient, and whether a
  negative value lost bits.\<close>

definition shift_result :: "ppu_opcode \<Rightarrow> ppu \<Rightarrow> int \<Rightarrow> nat \<Rightarrow> bool" where
  "shift_result op s' k n \<longleftrightarrow>
     sint (gpr s' (op_ra op)) = k div 2 ^ n \<and> (xer_ca s' \<longleftrightarrow> k < 0 \<and> \<not> 2 ^ n dvd k)"

lemma big_shift:
  fixes k :: int
  assumes "- (2 ^ m) \<le> k" "k < 2 ^ m" "m < n"
  shows "k div 2 ^ n = (if k < 0 then - 1 else 0)" "k < 0 \<Longrightarrow> \<not> 2 ^ n dvd k"
proof -
  have p: "(2 :: int) ^ m < 2 ^ n" using assms(3) by simp
  show "k div 2 ^ n = (if k < 0 then - 1 else 0)"
  proof (cases "k < 0")
    case True
    then have "(k + 2 ^ n) div 2 ^ n = 0" using assms(1) p by (intro div_pos_pos_trivial) linarith+
    with True show ?thesis by (simp add: div_add_self2)
  next
    case False
    then have "k div 2 ^ n = 0" using assms(2) p by (intro div_pos_pos_trivial) linarith+
    with False show ?thesis by simp
  qed
  show "\<not> 2 ^ n dvd k" if "k < 0"
  proof
    assume "2 ^ n dvd k"
    then have "2 ^ n \<le> - k" using that by (intro zdvd_imp_le) simp_all
    with assms(1) p show False by linarith
  qed
qed

lemma shift_resultI:
  assumes "gpr s' (op_ra op) = word_of_int (k div 2 ^ n)" "- (2 ^ 63) \<le> k" "k < 2 ^ 63"
    and "xer_ca s' \<longleftrightarrow> k < 0 \<and> \<not> 2 ^ n dvd k"
  shows "shift_result op s' k n"
proof -
  have "- (2 ^ 63) \<le> k div 2 ^ n"
  proof (cases "k < 0")
    case True
    have "k div 1 \<le> k div 2 ^ n" using True by (intro zdiv_mono2_neg) simp_all
    with assms(2) show ?thesis by simp
  qed (simp add: pos_imp_zdiv_nonneg_iff order_trans [of _ 0])
  moreover have "k div 2 ^ n < 2 ^ 63"
  proof (cases "k < 0")
    case True
    then have "k div 2 ^ n < 0" by (simp add: pos_imp_zdiv_neg_iff)
    then show ?thesis by simp
  next
    case False
    have "k div 2 ^ n \<le> k div 1" using False by (intro zdiv_mono2) simp_all
    with assms(3) show ?thesis by simp
  qed
  ultimately show ?thesis
    using assms(1,4) by (simp add: shift_result_def signed_of_int signed_take_bit_int_eq_self)
qed

lemma sh64_bound: "unat (op_sh64 op) < 64"
proof -
  have "op_sh64 op = take_bit 6 (op_sh64 op)"
    by (rule bit_word_eqI) (auto simp: op_sh64_def bf_extract_def bit_simps)
  then have "unat (op_sh64 op) = take_bit 6 (unat (op_sh64 op))" by (metis unsigned_take_bit_eq)
  with take_bit_nat_less_exp [of 6 "unat (op_sh64 op)"] show ?thesis by simp
qed

lemma drop_word_of_int: "signed_drop_bit n w = word_of_int (sint w div 2 ^ n)" for w :: "'a::len word"
proof -
  have "signed_drop_bit n w = word_of_int (sint (signed_drop_bit n w))" by simp
  then show ?thesis by (simp only: sint_shift)
qed

lemma push_back:
  "n < LENGTH('a) \<Longrightarrow> push_bit n (word_of_int (sint w div 2 ^ n) :: 'a word) = w \<longleftrightarrow> 2 ^ n dvd sint w"
  for w :: "'a::len word"
  using shift_back_exact [where ?'a = 'a, of n "sint w"] sint_range [of w] by (simp add: push_of_shift)

lemma arith_shifts_64:
  "shift_result op (SRAD rc op s) (sint (gpr s (op_rs op))) (unat (gpr s (op_rb op)) mod 128)"
  "shift_result op (SRADI rc op s) (sint (gpr s (op_rs op))) (unat (op_sh64 op))"
proof -
  let ?w = "gpr s (op_rs op)" and ?n = "unat (gpr s (op_rb op)) mod 128"
  have r: "- (2 ^ 63) \<le> sint ?w" "sint ?w < 2 ^ 63" using sint_range [of ?w] by simp_all
  have c: "unat (gpr s (op_rb op) AND 127) = ?n" using count_masks(2) [of "gpr s (op_rb op)"] by simp
  show "shift_result op (SRAD rc op s) (sint ?w) ?n"
  proof (cases "?n > 63")
    case True
    with big_shift [OF r, of ?n] r show ?thesis
      by (intro shift_resultI) (auto simp: SRAD_def Let_def c)
  next
    case False
    with push_back [of ?n ?w] r show ?thesis
      by (intro shift_resultI) (auto simp: SRAD_def Let_def c drop_word_of_int)
  qed
  show "shift_result op (SRADI rc op s) (sint ?w) (unat (op_sh64 op))"
    using push_back [of "unat (op_sh64 op)" ?w] sh64_bound [of op] r
    by (intro shift_resultI) (auto simp: SRADI_def Let_def drop_word_of_int)
qed

lemma ucast_word_of_int_32: "(ucast (word_of_int k :: u64) :: u32) = word_of_int k"
  by (rule bit_word_eqI) (simp add: bit_simps)

lemma arith_shifts_32:
  "shift_result op (SRAW rc op s) (sint (ucast (gpr s (op_rs op)) :: u32)) (unat (gpr s (op_rb op)) mod 64)"
  "shift_result op (SRAWI rc op s) (sint (ucast (gpr s (op_rs op)) :: u32)) (unat (op_sh32 op))"
proof -
  let ?w = "ucast (gpr s (op_rs op)) :: u32" and ?n = "unat (gpr s (op_rb op)) mod 64" and ?m = "unat (op_sh32 op)"
  have r: "- (2 ^ 31) \<le> sint ?w" "sint ?w < 2 ^ 31" using sint_range [of ?w] by simp_all
  then have r': "- (2 ^ 63) \<le> sint ?w" "sint ?w < 2 ^ 63" by simp_all
  have v: "(scast (signed_drop_bit n ?w) :: u64) = word_of_int (sint ?w div 2 ^ n)" for n
    by (simp only: word_of_scast sint_shift)
  show "shift_result op (SRAW rc op s) (sint ?w) ?n"
  proof (cases "?n > 31")
    case True
    with big_shift [OF r, of ?n] r' show ?thesis
      by (intro shift_resultI) (auto simp: SRAW_def Let_def count_masks)
  next
    case False
    have "push_bit ?n (word_of_int (sint ?w div 2 ^ ?n) :: u64) = scast ?w \<longleftrightarrow> 2 ^ ?n dvd sint ?w"
      unfolding push_of_shift word_of_scast by (rule shift_back_exact) (use r' in auto)
    with False r' show ?thesis
      by (intro shift_resultI) (auto simp: SRAW_def Let_def count_masks v)
  qed
  have m: "?m < 32" using unat_ppu_bf [of 16 5 op] by (simp add: op_sh32_def)
  have "(ucast (push_bit ?m (word_of_int (sint ?w div 2 ^ ?m) :: u64)) :: u32) = word_of_int (2 ^ ?m * (sint ?w div 2 ^ ?m))"
    unfolding push_of_shift by (rule ucast_word_of_int_32)
  then have "(ucast (push_bit ?m (word_of_int (sint ?w div 2 ^ ?m) :: u64)) :: u32) = ?w \<longleftrightarrow> 2 ^ ?m dvd sint ?w"
    using shift_back_exact [where ?'a = 32, of ?m "sint ?w"] m r by simp
  with r' show "shift_result op (SRAWI rc op s) (sint ?w) ?m"
    by (intro shift_resultI) (auto simp: SRAWI_def Let_def v)
qed

text \<open>C15: shifts compute quotients and products. With the shift count taken modulo 64 (words)
  or 128 (doublewords) the logical shifts multiply or divide the unsigned value, and the
  arithmetic right shifts give the floor of the signed quotient and set the carry exactly when a
  negative value is not a multiple of the divisor, counts beyond the width included.\<close>

theorem shifts_exact:
  "let x = gpr s (op_rs op); w = ucast x :: u32; n = unat (gpr s (op_rb op)) mod 64; m = unat (gpr s (op_rb op)) mod 128
   in unat (gpr (SLW rc op s) (op_ra op)) = unat x * 2 ^ n mod 2 ^ 32 \<and>
      unat (gpr (SRW rc op s) (op_ra op)) = unat x mod 2 ^ 32 div 2 ^ n \<and>
      unat (gpr (SLD rc op s) (op_ra op)) = unat x * 2 ^ m mod 2 ^ 64 \<and>
      unat (gpr (SRD rc op s) (op_ra op)) = unat x div 2 ^ m \<and>
      shift_result op (SRAW rc op s) (sint w) n \<and> shift_result op (SRAWI rc op s) (sint w) (unat (op_sh32 op)) \<and>
      shift_result op (SRAD rc op s) (sint x) m \<and> shift_result op (SRADI rc op s) (sint x) (unat (op_sh64 op))"
  using logical_shifts [of rc op s] arith_shifts_32 [of op rc s] arith_shifts_64 [of op rc s]
  by (simp only: Let_def simp_thms)

section \<open>Rotates\<close>

lemma mbe64_bound: "unat (op_mbe64 op) < 64"
proof -
  have "op_mbe64 op = take_bit 6 (op_mbe64 op)"
    by (rule bit_word_eqI) (auto simp: op_mbe64_def bf_extract_def bit_simps)
  then have "unat (op_mbe64 op) = take_bit 6 (unat (op_mbe64 op))" by (metis unsigned_take_bit_eq)
  with take_bit_nat_less_exp [of 6 "unat (op_mbe64 op)"] show ?thesis by simp
qed

lemma unat_xor_63:
  fixes w :: u32
  assumes "unat w < 64"
  shows "unat (w XOR 63) = 63 - unat w"
proof -
  have m: "(63 :: u32) = mask 6" by (simp add: mask_eq_exp_minus_1)
  have "unat (take_bit 6 w) = unat w"
    using assms by (simp add: unsigned_take_bit_eq take_bit_nat_eq_self_iff)
  then have w: "take_bit 6 w = w" by (simp add: word_unat_eq_iff)
  have b: "bit w n \<Longrightarrow> n < 6" for n using arg_cong [OF w, of "\<lambda>x. bit x n"] by (simp add: bit_take_bit_iff)
  have "w + (w XOR 63) = w OR (w XOR 63)" unfolding m
    by (rule disjunctive_add) (auto simp: bit_simps dest: b)
  also have "\<dots> = 63" unfolding m by (rule bit_word_eqI) (auto simp: bit_simps dest: b)
  finally have "w XOR 63 = 63 - w" by (simp add: eq_diff_eq add.commute)
  moreover have "w \<le> 63" using assms by (simp add: word_le_nat_alt)
  ultimately show ?thesis by (simp add: unat_sub)
qed

lemma mask_fields:
  "unat (32 + op_mb32 op) = 32 + unat (op_mb32 op)" "unat (32 + op_me32 op) = 32 + unat (op_me32 op)"
  "unat (op_mb32 op) < 32" "unat (op_me32 op) < 32"
proof -
  show *: "unat (op_mb32 op) < 32" "unat (op_me32 op) < 32"
    using unat_ppu_bf [of 21 5 op] unat_ppu_bf [of 26 5 op] by (simp_all add: op_mb32_def op_me32_def)
  then show "unat (32 + op_mb32 op) = 32 + unat (op_mb32 op)" "unat (32 + op_me32 op) = 32 + unat (op_me32 op)"
    by (simp_all add: unat_word_ariths)
qed

lemma bit_dup32: "i < 64 \<Longrightarrow> bit (dup32 x) (63 - i) \<longleftrightarrow> bit x (31 - i mod 32)"
  by (cases "i < 32") (auto simp: dup32_def bit_simps mod_if dest: bit_imp_le_length)

text \<open>Bits in the architecture's order: bit 0 is the most significant one.\<close>

definition be_bit :: "u64 \<Rightarrow> nat \<Rightarrow> bool" where
  "be_bit x i \<longleftrightarrow> bit x (63 - i)"

lemma rotl_index:
  fixes i m N :: nat
  assumes "i < N"
  shows "(N - Suc i + (N - m mod N)) mod N = N - Suc ((i + m) mod N)"
proof -
  obtain k where k: "k = m mod N" "k < N" using assms by (cases N) simp_all
  have m: "(i + m) mod N = (i + k) mod N" by (simp add: k mod_simps)
  show ?thesis
  proof (cases "i + k < N")
    case True
    then have "N - Suc i + (N - k) = (N - Suc (i + k)) + N" using assms k by simp
    then have "(N - Suc i + (N - k)) mod N = (N - Suc (i + k)) mod N" by (simp only: mod_add_self2)
    then have "(N - Suc i + (N - k)) mod N = N - Suc (i + k)" using assms by simp
    then show ?thesis using True by (simp add: m flip: k(1))
  next
    case False
    moreover have "i + k - N < N" using assms k(2) by linarith
    ultimately have "(i + k) mod N = i + k - N" by (simp add: le_mod_geq)
    moreover have "N - Suc i + (N - k) = N - Suc (i + k - N)" using False assms k(2) by linarith
    ultimately show ?thesis using assms by (simp add: m flip: k(1))
  qed
qed

lemma be_bit_rotl: "i < 64 \<Longrightarrow> be_bit (word_rotl m x) i \<longleftrightarrow> be_bit x ((i + m) mod 64)"
  using rotl_index [of i 64 m] by (auto simp: be_bit_def bit_word_rotl_iff)

lemma be_bit_rotl32:
  assumes "i < 64"
  shows "be_bit (dup32 (word_rotl m (ucast x))) i \<longleftrightarrow> be_bit x (32 + (i + m) mod 32)"
proof -
  have i: "i mod 32 < 32" by simp
  have "be_bit (dup32 (word_rotl m (ucast x))) i \<longleftrightarrow> bit (word_rotl m (ucast x) :: u32) (31 - i mod 32)"
    using bit_dup32 [OF assms] by (simp add: be_bit_def)
  also have "\<dots> \<longleftrightarrow> bit (ucast x :: u32) (31 - (i + m) mod 32)"
    using rotl_index [OF i, of m] by (auto simp: bit_word_rotl_iff mod_simps)
  also have "\<dots> \<longleftrightarrow> be_bit x (32 + (i + m) mod 32)" by (auto simp: be_bit_def bit_simps)
  finally show ?thesis .
qed

lemma be_bit_simps:
  "be_bit (x AND y) i \<longleftrightarrow> be_bit x i \<and> be_bit y i" "be_bit (x OR y) i \<longleftrightarrow> be_bit x i \<or> be_bit y i"
  "i < 64 \<Longrightarrow> be_bit (NOT x) i \<longleftrightarrow> \<not> be_bit x i"
  by (auto simp: be_bit_def bit_simps)

lemmas rotate_defs = RLWINM_def RLWNM_def RLWIMI_def RLDICL_def RLDICR_def RLDIC_def RLDIMI_def RLDCL_def RLDCR_def

lemma be_bit_masks:
  assumes "i < 64"
  shows "be_bit (ppu_rotate_mask (32 + op_mb32 op) (32 + op_me32 op)) i \<longleftrightarrow>
      mask_bit (32 + unat (op_mb32 op)) (32 + unat (op_me32 op)) i"
    and "be_bit (ppu_rotate_mask (op_mbe64 op) (op_sh64 op XOR 63)) i \<longleftrightarrow>
      mask_bit (unat (op_mbe64 op)) (63 - unat (op_sh64 op)) i"
    and "be_bit (mask (64 - unat (op_mbe64 op))) i \<longleftrightarrow> mask_bit (unat (op_mbe64 op)) 63 i"
    and "be_bit (mask (unat (op_mbe64 op XOR 63))) i \<longleftrightarrow> \<not> mask_bit 0 (unat (op_mbe64 op)) i"
  using assms mask_fields [of op] mbe64_bound [of op] sh64_bound [of op]
  by (simp_all add: be_bit_def bit_rotate_mask unat_xor_63 bit_mask_iff) (auto simp: mask_bit_def)

text \<open>C16: rotate and mask. For every bit position, the result of each rotate instruction is the
  source rotated left by the instruction's amount where the position lies in the (possibly
  wrapping) mask its fields name, and elsewhere zero, or for the two insert forms the old target
  bit. Word rotates act on the low word, replicated into both halves.\<close>

theorem rotates_exact:
  assumes "i < 64"
  shows "let x = be_bit (gpr s (op_rs op)); a = be_bit (gpr s (op_ra op));
      target = (\<lambda>s'. be_bit (gpr s' (op_ra op)) i);
      rot32 = (\<lambda>n. x (32 + (i + n) mod 32)); rot64 = (\<lambda>n. x ((i + n) mod 64));
      m32 = mask_bit (32 + unat (op_mb32 op)) (32 + unat (op_me32 op)) i;
      b = unat (op_mbe64 op); n32 = unat (op_sh32 op); n64 = unat (op_sh64 op);
      n = unat (gpr s (op_rb op))
    in target (RLWINM rc op s) = (m32 \<and> rot32 n32) \<and>
       target (RLWNM rc op s) = (m32 \<and> rot32 (n mod 32)) \<and>
       target (RLWIMI rc op s) = (if m32 then rot32 n32 else a i) \<and>
       target (RLDICL rc op s) = (mask_bit b 63 i \<and> rot64 n64) \<and>
       target (RLDICR rc op s) = (mask_bit 0 b i \<and> rot64 n64) \<and>
       target (RLDIC rc op s) = (mask_bit b (63 - n64) i \<and> rot64 n64) \<and>
       target (RLDIMI rc op s) = (if mask_bit b (63 - n64) i then rot64 n64 else a i) \<and>
       target (RLDCL rc op s) = (mask_bit b 63 i \<and> rot64 (n mod 64)) \<and>
       target (RLDCR rc op s) = (mask_bit 0 b i \<and> rot64 (n mod 64))"
proof -
  have "unat (gpr s (op_rb op) AND 31) = unat (gpr s (op_rb op)) mod 32"
    "unat (gpr s (op_rb op) AND 63) = unat (gpr s (op_rb op)) mod 64"
    using unat_and_mask [of "gpr s (op_rb op)" 5] count_masks [of "gpr s (op_rb op)"] by (simp_all add: mask_eq_exp_minus_1)
  then show ?thesis
    unfolding Let_def
    by (intro conjI)
      (simp_all add: rotate_defs Let_def be_bit_simps be_bit_masks be_bit_rotl be_bit_rotl32 assms conj_commute)
qed

theorem rotates_exact_witness:
  "(59 :: nat) < 64 \<and> be_bit (gpr (RLWINM False 0x5483463E (put_gpr 4 0x12345678 (ppu_init (\<lambda>_. 0)))) 3) 59"
proof -
  have f: "op_rs 0x5483463E = 4" "op_ra 0x5483463E = 3" "op_sh32 0x5483463E = 8" "op_mb32 0x5483463E = 24"
    "op_me32 0x5483463E = 31" by code_simp+
  have b: "be_bit 0x12345678 35" by code_simp
  show ?thesis
    using rotates_exact [of 59 "put_gpr 4 0x12345678 (ppu_init (\<lambda>_. 0))" "0x5483463E" False] b
    by (simp add: f Let_def mask_bit_def)
qed

text \<open>The assembler's \<open>EXTRDI\<close> should extract \<open>n\<close> bits from bit \<open>b\<close> on, but clears \<open>64 - b\<close>
  high bits instead of \<open>64 - n\<close>: extracting the top byte keeps the rest of the register.\<close>

lemma extrdi_wrong:
  "gpr (RLDICL False (asm_EXTRDI 3 4 8 0) (put_gpr 4 0xAB00000000000001 (ppu_init (\<lambda>_. 0)))) 3 = 0x1AB"
proof -
  have f: "op_rs (asm_EXTRDI 3 4 8 0) = 4" "op_ra (asm_EXTRDI 3 4 8 0) = 3" "op_sh64 (asm_EXTRDI 3 4 8 0) = 8"
    "op_mbe64 (asm_EXTRDI 3 4 8 0) = 0" by code_simp+
  have "word_rotl 8 (0xAB00000000000001 :: u64) = 0x1AB" by code_simp
  then show ?thesis by (simp add: RLDICL_def f Let_def)
qed

section \<open>Multiplication and division\<close>

lemma umulh_exact: "unat (umulh64 x y) = unat x * unat y div 2 ^ 64"
proof -
  have "unat x * unat y < 2 ^ 64 * 2 ^ 64" using unat_lt [of x] unat_lt [of y] by (intro mult_strict_mono) simp_all
  then have "unat ((ucast x :: u128) * ucast y) = unat x * unat y" by (simp add: unat_word_ariths unsigned_ucast_eq take_bit_eq_mod mod_mult_eq)
  then have "unat (drop_bit 64 ((ucast x :: u128) * ucast y)) = unat x * unat y div 2 ^ 64"
    by (simp only: unat_drop_bit_eq) (simp add: drop_bit_eq_div)
  moreover have "unat x * unat y div 2 ^ 64 < 2 ^ 64"
    using \<open>unat x * unat y < 2 ^ 64 * 2 ^ 64\<close> by (rule less_mult_imp_div_less)
  ultimately show ?thesis by (simp add: umulh64_def unsigned_ucast_eq take_bit_eq_mod)
qed

lemma sint_product_range:
  fixes a b :: "'a::len word"
  shows "- (2 ^ (LENGTH('a) - 1) * 2 ^ (LENGTH('a) - 1)) \<le> sint a * sint b"
    "sint a * sint b \<le> 2 ^ (LENGTH('a) - 1) * 2 ^ (LENGTH('a) - 1)"
proof -
  have "\<bar>sint a\<bar> \<le> 2 ^ (LENGTH('a) - 1)" "\<bar>sint b\<bar> \<le> 2 ^ (LENGTH('a) - 1)"
    using sint_range [of a] sint_range [of b] by simp_all
  then have "\<bar>sint a * sint b\<bar> \<le> 2 ^ (LENGTH('a) - 1) * 2 ^ (LENGTH('a) - 1)"
    unfolding abs_mult by (intro mult_mono) simp_all
  then show "- (2 ^ (LENGTH('a) - 1) * 2 ^ (LENGTH('a) - 1)) \<le> sint a * sint b"
    "sint a * sint b \<le> 2 ^ (LENGTH('a) - 1) * 2 ^ (LENGTH('a) - 1)" by linarith+
qed

lemma sint_small:
  "- (2 ^ (LENGTH('a) - 1)) \<le> x \<Longrightarrow> x < 2 ^ (LENGTH('a) - 1) \<Longrightarrow> sint (word_of_int x :: 'a::len word) = x"
  by (simp add: signed_of_int signed_take_bit_int_eq_self)

lemma mulh_exact: "sint (mulh64 x y) = sint x * sint y div 2 ^ 64"
proof -
  have p: "- (2 ^ 63 * 2 ^ 63) \<le> sint x * sint y" "sint x * sint y \<le> 2 ^ 63 * 2 ^ 63"
    using sint_product_range [of x y] by simp_all
  have m: "(scast x :: u128) * scast y = word_of_int (sint x * sint y)"
    by (simp flip: wi_hom_mult)
  have "sint ((scast x :: u128) * scast y) = sint x * sint y"
    unfolding m using p by (intro sint_small) simp_all
  then have d: "signed_drop_bit 64 ((scast x :: u128) * scast y) = word_of_int (sint x * sint y div 2 ^ 64)"
    by (simp only: drop_word_of_int)
  have "- (2 ^ 62) \<le> sint x * sint y div 2 ^ 64" "sint x * sint y div 2 ^ 64 \<le> 2 ^ 62"
    using zdiv_mono1 [OF p(1), of "2 ^ 64"] zdiv_mono1 [OF p(2), of "2 ^ 64"] by simp_all
  moreover have "mulh64 x y = word_of_int (sint x * sint y div 2 ^ 64)"
    unfolding mulh64_def d by (rule bit_word_eqI) (simp add: bit_simps)
  ultimately show ?thesis by (simp only:) (rule sint_small; simp)
qed

lemma low_product: "x * y = word_of_int (sint x * sint y)" for x y :: "'a::len word"
  by (simp flip: wi_hom_mult)

lemma high_part_test:
  fixes p :: int
  shows "p div 2 ^ 64 = sint (word_of_int p :: u64) div 2 ^ 63 \<longleftrightarrow> fits64 p"
proof
  let ?r = "word_of_int p :: u64"
  have "uint ?r = p mod 2 ^ 64" by (simp add: uint_word_of_int)
  then have e: "p = 2 ^ 64 * (p div 2 ^ 64) + int (unat ?r)" by simp
  have u: "unat ?r < 2 ^ 64" using unat_lt [of ?r] by simp
  have s: "sint ?r = (if unat ?r < 2 ^ 63 then int (unat ?r) else int (unat ?r) - 2 ^ 64)" by (simp only: sint_unat) simp
  have q: "sint ?r div 2 ^ 63 = (if unat ?r < 2 ^ 63 then 0 else - 1)"
  proof (cases "unat ?r < 2 ^ 63")
    case True
    have "int n div 2 ^ 63 = 0" if "n < 2 ^ 63" for n :: nat using that by simp
    from this [OF True] show ?thesis unfolding s using True by (simp only: if_True)
  next
    case False
    have "(int n - 2 ^ 64) div 2 ^ 63 = - 1" if "\<not> n < 2 ^ 63" "n < 2 ^ 64" for n :: nat
    proof -
      have "(int n - 2 ^ 64 + 2 ^ 63) div 2 ^ 63 = 0" using that by (intro div_pos_pos_trivial) simp_all
      then show ?thesis by (simp add: div_add_self2)
    qed
    from this [OF False u] show ?thesis unfolding s using False by (simp only: if_False)
  qed
  assume "p div 2 ^ 64 = sint ?r div 2 ^ 63"
  then have "p div 2 ^ 64 = (if unat ?r < 2 ^ 63 then 0 else - 1)" by (simp only: q)
  moreover have "fits64 k" if "k = 2 ^ 64 * h + int n" "n < 2 ^ 64" "h = (if n < 2 ^ 63 then 0 else - 1)"
    for k h :: int and n using that by (auto simp: fits64_def split: if_splits)
  ultimately show "fits64 p" using e u by blast
next
  assume f: "fits64 p"
  then have "sint (word_of_int p :: u64) = p" unfolding fits64_def by (intro sint_small) simp_all
  moreover have "p div 2 ^ 64 = p div 2 ^ 63"
    using big_shift(1) [of 63 p 64] big_shift(1) [of 63 p 63] f
    by (cases "p < 0") (auto simp: fits64_def div_eq_minus1 div_pos_pos_trivial)
  ultimately show "p div 2 ^ 64 = sint (word_of_int p :: u64) div 2 ^ 63" by simp
qed

lemma sint_sdiv:
  fixes a b :: "'a::len word"
  assumes "\<not> (a = word_of_int (- (2 ^ (LENGTH('a) - 1))) \<and> b = - 1)"
  shows "sint (word_of_int (sint a sdiv sint b) :: 'a word) = sint a sdiv sint b"
proof (rule sint_small)
  let ?q = "sint a sdiv sint b" and ?m = "2 ^ (LENGTH('a) - 1) :: int"
  have r: "- \<bar>sint a\<bar> \<le> ?q" "?q \<le> \<bar>sint a\<bar>" using sdiv_int_range [of "sint a" "sint b"] by simp_all
  have a: "- ?m \<le> sint a" "sint a < ?m" using sint_range [of a] by simp_all
  show "- ?m \<le> ?q" using r a by linarith
  show "?q < ?m"
  proof (rule ccontr)
    assume "\<not> ?q < ?m"
    then have m: "?q = - sint a" "sint a = - ?m" using r a by linarith+
    then have "sint b = - 1" using int_sdiv_negated_is_minus1 [of "sint a" "sint b"] by simp
    then have "b = - 1" by (metis signed_minus_1 signed_word_eqI)
    moreover have "a = word_of_int (sint a)" by simp
    then have "a = word_of_int (- ?m)" by (simp only: m(2))
    ultimately show False using assms by simp
  qed
qed

lemma min_words: "push_bit 63 1 = (word_of_int (- (2 ^ 63)) :: u64)" "push_bit 31 1 = (word_of_int (- (2 ^ 31)) :: u32)"
  by simp_all

text \<open>The contract of a division with quotient \<open>q\<close>: an undefined quotient leaves 0 and records
  an overflow.\<close>

definition recorded :: "bool \<Rightarrow> ppu \<Rightarrow> ppu \<Rightarrow> bool \<Rightarrow> bool" where
  "recorded oe s s' ov \<longleftrightarrow> xer_ov s' = (if oe then ov else xer_ov s) \<and> xer_so s' = (xer_so s \<or> oe \<and> ov)"

definition div_result :: "bool \<Rightarrow> ppu_opcode \<Rightarrow> ppu \<Rightarrow> ppu \<Rightarrow> bool \<Rightarrow> bool \<Rightarrow> bool" where
  "div_result oe op s s' undefined_quotient value_ok \<longleftrightarrow>
     (if undefined_quotient then gpr s' (op_rd op) = 0 else value_ok) \<and> recorded oe s s' undefined_quotient"

lemma unat_mult_32: "unat ((ucast (x :: u32) :: u64) * ucast y) = unat x * unat (y :: u32)"
proof -
  have "unat x * unat y < 2 ^ 32 * 2 ^ 32" using unat_lt [of x] unat_lt [of y] by (intro mult_strict_mono) simp_all
  then show ?thesis by (simp add: unat_word_ariths unsigned_ucast_eq take_bit_eq_mod mod_mult_eq)
qed

lemma sint_mult_32: "sint ((scast (x :: u32) :: u64) * scast y) = sint x * sint (y :: u32)"
proof -
  have "(scast x :: u64) * scast y = word_of_int (sint x * sint y)" by (simp flip: wi_hom_mult)
  then show ?thesis using sint_product_range [of x y] by (simp only:) (intro sint_small; simp)
qed

lemmas mul_defs = MULHDU_def MULHWU_def MULHD_def MULHW_def MULLD_def MULLW_def
lemmas div_defs = DIVDU_def DIVWU_def DIVD_def DIVW_def

lemma mul_results:
  "unat (gpr (MULHDU rc op s) (op_rd op)) = unat (gpr s (op_ra op)) * unat (gpr s (op_rb op)) div 2 ^ 64"
  "unat (gpr (MULHWU rc op s) (op_rd op)) =
    unat (ucast (gpr s (op_ra op)) :: u32) * unat (ucast (gpr s (op_rb op)) :: u32) div 2 ^ 32"
  "sint (gpr (MULHD rc op s) (op_rd op)) = sint (gpr s (op_ra op)) * sint (gpr s (op_rb op)) div 2 ^ 64"
  "sint (gpr (MULHW rc op s) (op_rd op)) =
    sint (ucast (gpr s (op_ra op)) :: u32) * sint (ucast (gpr s (op_rb op)) :: u32) div 2 ^ 32"
  "sint (gpr (MULLW oe rc op s) (op_rd op)) =
    sint (ucast (gpr s (op_ra op)) :: u32) * sint (ucast (gpr s (op_rb op)) :: u32)"
  by (simp_all add: mul_defs Let_def umulh_exact mulh_exact sint_shift sint_mult_32 del: ucast_id)
    (simp only: unat_drop unat_mult_32, simp)

lemma mulld_result:
  "gpr (MULLD rc op s) (op_rd op) = word_of_int (sint (gpr s (op_ra op)) * sint (gpr s (op_rb op)))"
  "recorded (op_oe op \<noteq> 0) s (MULLD rc op s) (\<not> fits64 (sint (gpr s (op_ra op)) * sint (gpr s (op_rb op))))"
proof -
  let ?x = "gpr s (op_ra op)" and ?y = "gpr s (op_rb op)"
  have "mulh64 ?x ?y = signed_drop_bit 63 (?x * ?y) \<longleftrightarrow> sint (mulh64 ?x ?y) = sint (signed_drop_bit 63 (?x * ?y))"
    by (metis signed_word_eqI)
  also have "\<dots> \<longleftrightarrow> fits64 (sint ?x * sint ?y)"
    using high_part_test [of "sint ?x * sint ?y"] by (simp only: mulh_exact sint_shift low_product)
  finally show "recorded (op_oe op \<noteq> 0) s (MULLD rc op s) (\<not> fits64 (sint ?x * sint ?y))"
    by (simp add: recorded_def MULLD_def Let_def)
  show "gpr (MULLD rc op s) (op_rd op) = word_of_int (sint ?x * sint ?y)"
    by (simp add: MULLD_def Let_def flip: low_product)
qed

lemma mullw_recorded: "recorded oe s (MULLW oe rc op s)
    (\<not> (- (2 ^ 31) \<le> sint (gpr (MULLW oe rc op s) (op_rd op)) \<and> sint (gpr (MULLW oe rc op s) (op_rd op)) < 2 ^ 31))"
  by (auto simp: recorded_def MULLW_def Let_def)

lemma div_results:
  "div_result oe op s (DIVDU oe rc op s) (gpr s (op_rb op) = 0)
    (unat (gpr (DIVDU oe rc op s) (op_rd op)) = unat (gpr s (op_ra op)) div unat (gpr s (op_rb op)))"
  "div_result oe op s (DIVWU oe rc op s) ((ucast (gpr s (op_rb op)) :: u32) = 0)
    (unat (gpr (DIVWU oe rc op s) (op_rd op)) =
      unat (ucast (gpr s (op_ra op)) :: u32) div unat (ucast (gpr s (op_rb op)) :: u32))"
  by (simp_all add: div_result_def recorded_def div_defs Let_def unat_div)

lemma sint_cases:
  "w = 0 \<longleftrightarrow> sint w = 0" "w = - 1 \<longleftrightarrow> sint w = - 1"
  "w = word_of_int (- (2 ^ (LENGTH('a) - 1))) \<longleftrightarrow> sint w = - (2 ^ (LENGTH('a) - 1))" for w :: "'a::len word"
proof -
  have m: "sint (word_of_int (- (2 ^ (LENGTH('a) - 1))) :: 'a word) = - (2 ^ (LENGTH('a) - 1))"
    by (rule sint_small) simp_all
  show "w = 0 \<longleftrightarrow> sint w = 0" "w = - 1 \<longleftrightarrow> sint w = - 1" by (metis signed_0 signed_word_eqI) (metis signed_minus_1 signed_word_eqI)
  show "w = word_of_int (- (2 ^ (LENGTH('a) - 1))) \<longleftrightarrow> sint w = - (2 ^ (LENGTH('a) - 1))"
    by (metis m signed_word_eqI)
qed

lemma ucast_up_down: "ucast (ucast x :: u64) = (x :: u32)"
  by (rule bit_word_eqI) (simp add: bit_simps)

lemma sdiv_results:
  "div_result oe op s (DIVD oe rc op s)
    (sint (gpr s (op_rb op)) = 0 \<or> sint (gpr s (op_ra op)) = - (2 ^ 63) \<and> sint (gpr s (op_rb op)) = - 1)
    (sint (gpr (DIVD oe rc op s) (op_rd op)) = sint (gpr s (op_ra op)) sdiv sint (gpr s (op_rb op)))"
  "div_result oe op s (DIVW oe rc op s)
    (sint (ucast (gpr s (op_rb op)) :: u32) = 0 \<or>
      sint (ucast (gpr s (op_ra op)) :: u32) = - (2 ^ 31) \<and> sint (ucast (gpr s (op_rb op)) :: u32) = - 1)
    (sint (ucast (gpr (DIVW oe rc op s) (op_rd op)) :: u32) =
      sint (ucast (gpr s (op_ra op)) :: u32) sdiv sint (ucast (gpr s (op_rb op)) :: u32))"
  unfolding div_result_def recorded_def div_defs Let_def s64_div_def s32_div_def min_words
  using sint_sdiv [of "gpr s (op_ra op)" "gpr s (op_rb op)"]
    sint_sdiv [of "ucast (gpr s (op_ra op)) :: u32" "ucast (gpr s (op_rb op))"]
    sint_cases [of "gpr s (op_rb op)"] sint_cases(3) [of "gpr s (op_ra op)"]
    sint_cases [of "ucast (gpr s (op_rb op)) :: u32"] sint_cases(3) [of "ucast (gpr s (op_ra op)) :: u32"]
  by (auto simp: ucast_up_down)

text \<open>C17: multiplication and division, in the plain and in the overflow-recording forms. The high
  multiplications give the high half of the exact signed or unsigned product, \<open>MULLW\<close> the exact product
  of the low words, \<open>MULLD\<close> the product modulo 2^64; every division gives the exact (truncated)
  quotient, and 0 when the quotient is undefined or not representable. A recording form (for
  \<open>MULLD\<close> the \<open>OE\<close> bit of the word) sets \<open>OV\<close> exactly when the product does not fit, or the quotient
  is undefined or not representable, and adds that to \<open>SO\<close>; a plain form keeps both.\<close>

theorem mul_div_exact:
  "let RA = gpr s (op_ra op); RB = gpr s (op_rb op); A = sint RA; B = sint RB;
      wa = ucast RA :: u32; wb = ucast RB :: u32; WA = sint wa; WB = sint wb; rd = (\<lambda>s'. gpr s' (op_rd op))
    in unat (rd (MULHDU rc op s)) = unat RA * unat RB div 2 ^ 64 \<and> sint (rd (MULHD rc op s)) = A * B div 2 ^ 64 \<and>
       unat (rd (MULHWU rc op s)) = unat wa * unat wb div 2 ^ 32 \<and> sint (rd (MULHW rc op s)) = WA * WB div 2 ^ 32 \<and>
       rd (MULLD rc op s) = word_of_int (A * B) \<and> recorded (op_oe op \<noteq> 0) s (MULLD rc op s) (\<not> fits64 (A * B)) \<and>
       sint (rd (MULLW oe rc op s)) = WA * WB \<and>
       recorded oe s (MULLW oe rc op s) (\<not> (- (2 ^ 31) \<le> WA * WB \<and> WA * WB < 2 ^ 31)) \<and>
       div_result oe op s (DIVDU oe rc op s) (RB = 0) (unat (rd (DIVDU oe rc op s)) = unat RA div unat RB) \<and>
       div_result oe op s (DIVWU oe rc op s) (wb = 0) (unat (rd (DIVWU oe rc op s)) = unat wa div unat wb) \<and>
       div_result oe op s (DIVD oe rc op s) (B = 0 \<or> A = - (2 ^ 63) \<and> B = - 1)
         (sint (rd (DIVD oe rc op s)) = A sdiv B) \<and>
       div_result oe op s (DIVW oe rc op s) (WB = 0 \<or> WA = - (2 ^ 31) \<and> WB = - 1)
         (sint (ucast (rd (DIVW oe rc op s)) :: u32) = WA sdiv WB)"
  using mul_results(1-4) [of rc op s] mul_results(5) [of oe rc op s] mulld_result [where rc = rc and op = op and s = s]
    mullw_recorded [of oe s rc op] div_results [of oe op s rc] sdiv_results [of oe op s rc]
  by (simp only: Let_def simp_thms)

end
