(* ===== verification/Ppu_Branch.thy ===== *)
theory Ppu_Branch
  imports Ppu_Fixed
begin

text \<open>
  The control instructions of \<^verbatim>\<open>Emu/Cell/PPUInterpreter.cpp\<close>: condition-register logic and
  moves, special-purpose registers, branches, traps and the system call. Branches and traps take
  the address of the instruction, as the code does. \<open>Next\<close> continues with the following
  instruction of the threaded code, \<open>Dispatch\<close> returns to the dispatcher at \<open>cia\<close>. The call
  history (\<open>ppu_record_call\<close>) is a debugging aid and is left out.
\<close>

section \<open>Condition register logic\<close>

definition MCRF :: "ppu_opcode \<Rightarrow> ppu \<Rightarrow> ppu" where
  "MCRF op s = copy_field (op_crfd op) (op_crfs op) s"

definition CRNOR :: "ppu_opcode \<Rightarrow> ppu \<Rightarrow> ppu" where
  "CRNOR op s = put_cr (op_crbd op) ((cr_bits s (op_crba op) OR cr_bits s (op_crbb op)) XOR 1) s"

definition CRANDC :: "ppu_opcode \<Rightarrow> ppu \<Rightarrow> ppu" where
  "CRANDC op s = put_cr (op_crbd op) (cr_bits s (op_crba op) AND (cr_bits s (op_crbb op) XOR 1)) s"

definition CRXOR :: "ppu_opcode \<Rightarrow> ppu \<Rightarrow> ppu" where
  "CRXOR op s = put_cr (op_crbd op) (cr_bits s (op_crba op) XOR cr_bits s (op_crbb op)) s"

definition CRNAND :: "ppu_opcode \<Rightarrow> ppu \<Rightarrow> ppu" where
  "CRNAND op s = put_cr (op_crbd op) ((cr_bits s (op_crba op) AND cr_bits s (op_crbb op)) XOR 1) s"

definition CRAND :: "ppu_opcode \<Rightarrow> ppu \<Rightarrow> ppu" where
  "CRAND op s = put_cr (op_crbd op) (cr_bits s (op_crba op) AND cr_bits s (op_crbb op)) s"

definition CREQV :: "ppu_opcode \<Rightarrow> ppu \<Rightarrow> ppu" where
  "CREQV op s = put_cr (op_crbd op) ((cr_bits s (op_crba op) XOR cr_bits s (op_crbb op)) XOR 1) s"

definition CRORC :: "ppu_opcode \<Rightarrow> ppu \<Rightarrow> ppu" where
  "CRORC op s = put_cr (op_crbd op) (cr_bits s (op_crba op) OR (cr_bits s (op_crbb op) XOR 1)) s"

definition CROR :: "ppu_opcode \<Rightarrow> ppu \<Rightarrow> ppu" where
  "CROR op s = put_cr (op_crbd op) (cr_bits s (op_crba op) OR cr_bits s (op_crbb op)) s"

text \<open>A memory fence: no effect on the thread's own state.\<close>

definition ISYNC :: "ppu_opcode \<Rightarrow> ppu \<Rightarrow> ppu" where
  "ISYNC op s = s"

section \<open>Condition register moves\<close>

definition MFOCRF :: "u32 \<Rightarrow> ppu_opcode \<Rightarrow> ppu \<Rightarrow> ppu" where
  "MFOCRF N op s =
     (let p = N * 4; bit = (\<lambda>k. ucast (cr_bits s (p + k)) :: u32);
          v = push_bit 3 (bit 0) OR push_bit 2 (bit 1) OR push_bit 1 (bit 2) OR bit 3
      in put_gpr (op_rd op) (ucast (push_bit (unat (p XOR 0x1c)) v)) s)"

text \<open>\<open>MFCR\<close> has two variants: \<open>cr_bits::pack\<close>, and on x86 a byte-mask extraction from the
  byte-reversed halves.\<close>

definition MFCR :: "ppu_opcode \<Rightarrow> ppu \<Rightarrow> ppu" where
  "MFCR op s = put_gpr (op_rd op) (ucast (cr_pack (cr_bits s))) s"

definition lane_mask :: "u32 \<Rightarrow> ppu \<Rightarrow> u32" where
  "lane_mask base s =
     foldl (\<lambda>m j. m OR (if odd (cr_bits s (base + 15 - of_nat j)) then push_bit j 1 else 0)) 0 [0..<16]"

definition MFCR_x64 :: "ppu_opcode \<Rightarrow> ppu \<Rightarrow> ppu" where
  "MFCR_x64 op s =
     (let mh = lane_mask 0 s; ml = lane_mask 16 s
      in put_gpr (op_rd op) (ucast (push_bit 16 mh OR ml)) s)"

definition s_table :: "u8 list list" where
  "s_table = [[0, 0, 0, 0], [0, 0, 0, 1], [0, 0, 1, 0], [0, 0, 1, 1], [0, 1, 0, 0], [0, 1, 0, 1],
     [0, 1, 1, 0], [0, 1, 1, 1], [1, 0, 0, 0], [1, 0, 0, 1], [1, 0, 1, 0], [1, 0, 1, 1],
     [1, 1, 0, 0], [1, 1, 0, 1], [1, 1, 1, 0], [1, 1, 1, 1]]"

text \<open>\<open>cr.fields[n] = s_table[v]\<close> for the nibble \<open>v\<close> of the source.\<close>

definition put_field :: "u64 \<Rightarrow> u32 \<Rightarrow> ppu \<Rightarrow> ppu" where
  "put_field v n s =
     (let row = s_table ! unat (drop_bit (unat ((n * 4) XOR 0x1c)) v AND 0xf)
      in put_cr (n * 4 + 3) (row ! 3) (put_cr (n * 4 + 2) (row ! 2)
           (put_cr (n * 4 + 1) (row ! 1) (put_cr (n * 4) (row ! 0) s))))"

definition MTOCRF :: "ppu_opcode \<Rightarrow> ppu \<Rightarrow> ppu" where
  "MTOCRF op s =
     (let v = gpr s (op_rs op)
      in if op_l11 op \<noteq> 0
         then put_field v (of_nat (countl_zero (op_crm op)) AND 7) s
         else fold (\<lambda>i. if op_crm op AND drop_bit i 128 \<noteq> 0 then put_field v (of_nat i) else id) [0..<8] s)"

section \<open>Special-purpose registers\<close>

definition spr_number :: "ppu_opcode \<Rightarrow> u32" where
  "spr_number op = drop_bit 5 (op_spr op) OR push_bit 5 (op_spr op AND 0x1f)"

text \<open>The word the code assembles for the XER.\<close>

definition xer_word :: "ppu \<Rightarrow> u32" where
  "xer_word s = push_bit 31 (ucast (b2u (xer_so s))) OR push_bit 30 (ucast (b2u (xer_ov s))) OR
     push_bit 29 (ucast (b2u (xer_ca s))) OR ucast (xer_cnt s)"

text \<open>\<open>tb\<close> is the value of \<open>get_timebased_time\<close>; an unknown register is a host exception.\<close>

definition MFSPR :: "u64 \<Rightarrow> ppu_opcode \<Rightarrow> ppu \<Rightarrow> ppu option" where
  "MFSPR tb op s =
     (let n = spr_number op; d = (\<lambda>v. Some (put_gpr (op_rd op) v s))
      in if n = 0x001 then d (ucast (xer_word s))
         else if n = 0x008 then d (lr s)
         else if n = 0x009 then d (ctr s)
         else if n = 0x100 then d (ucast (vrsave s))
         else if n = 0x10C then d tb
         else if n = 0x10D then d (drop_bit 32 tb)
         else None)"

definition MFTB :: "u64 \<Rightarrow> ppu_opcode \<Rightarrow> ppu \<Rightarrow> ppu option" where
  "MFTB tb op s =
     (let n = spr_number op
      in if n = 0x10C then Some (put_gpr (op_rd op) tb s)
         else if n = 0x10D then Some (put_gpr (op_rd op) (drop_bit 32 tb) s)
         else None)"

definition MTSPR :: "ppu_opcode \<Rightarrow> ppu \<Rightarrow> ppu option" where
  "MTSPR op s =
     (let n = spr_number op; v = gpr s (op_rs op)
      in if n = 0x001
         then Some (s\<lparr>xer_so := v AND 0x80000000 \<noteq> 0, xer_ov := v AND 0x40000000 \<noteq> 0,
                xer_ca := v AND 0x20000000 \<noteq> 0, xer_cnt := ucast (v AND 0x7f)\<rparr>)
         else if n = 0x008 then Some (s\<lparr>lr := v\<rparr>)
         else if n = 0x009 then Some (s\<lparr>ctr := v\<rparr>)
         else if n = 0x100 then Some (s\<lparr>vrsave := ucast v\<rparr>)
         else None)"

section \<open>Branches\<close>

text \<open>The common end of the conditional branches: to the target, on to the next instruction, or,
  when the thread has pending state, back to the dispatcher behind this instruction.\<close>

definition leave :: "bool \<Rightarrow> u32 \<Rightarrow> u32 \<Rightarrow> u32 \<Rightarrow> ppu \<Rightarrow> ppu_result" where
  "leave taken target link old_cia s =
     (if taken then Dispatch (s\<lparr>cia := target, exec_bytes := exec_bytes s + ucast (link - old_cia)\<rparr>)
      else if \<not> state_flags s then Next s
      else Dispatch (s\<lparr>cia := link, exec_bytes := exec_bytes s + ucast (link - old_cia)\<rparr>))"

definition BC :: "u32 \<Rightarrow> ppu_opcode \<Rightarrow> ppu \<Rightarrow> ppu_result" where
  "BC this_op op s =
     (let bo0 = (op_bo op AND 0x10 \<noteq> 0); bo1 = (op_bo op AND 0x08 \<noteq> 0);
          bo2 = (op_bo op AND 0x04 \<noteq> 0); bo3 = (op_bo op AND 0x02 \<noteq> 0);
          s1 = s\<lparr>ctr := ctr s - of_bool (\<not> bo2)\<rparr>;
          link = this_op + 4;
          s2 = (if op_lk op \<noteq> 0 then s1\<lparr>lr := ucast link\<rparr> else s1);
          ctr_ok = (bo2 \<or> (ctr s2 \<noteq> 0) \<noteq> bo3);
          cond_ok = (bo0 \<or> (cr_bits s2 (op_bi op) \<noteq> 0) \<noteq> (\<not> bo1))
      in leave (ctr_ok \<and> cond_ok) ((if op_aa op \<noteq> 0 then 0 else this_op) + op_bt14 op) link (cia s) s2)"

definition B :: "u32 \<Rightarrow> ppu_opcode \<Rightarrow> ppu \<Rightarrow> ppu_result" where
  "B this_op op s =
     (let old_cia = cia s; link = this_op + 4;
          s1 = s\<lparr>cia := (if op_aa op \<noteq> 0 then 0 else this_op) + op_bt24 op\<rparr>;
          s2 = (if op_lk op \<noteq> 0 then s1\<lparr>lr := ucast link\<rparr> else s1)
      in Dispatch (s2\<lparr>exec_bytes := exec_bytes s2 + ucast (link - old_cia)\<rparr>))"

definition BCLR :: "u32 \<Rightarrow> ppu_opcode \<Rightarrow> ppu \<Rightarrow> ppu_result" where
  "BCLR this_op op s =
     (let bo0 = (op_bo op AND 0x10 \<noteq> 0); bo1 = (op_bo op AND 0x08 \<noteq> 0);
          bo2 = (op_bo op AND 0x04 \<noteq> 0); bo3 = (op_bo op AND 0x02 \<noteq> 0);
          s1 = s\<lparr>ctr := ctr s - of_bool (\<not> bo2)\<rparr>;
          ctr_ok = (bo2 \<or> (ctr s1 \<noteq> 0) \<noteq> bo3);
          cond_ok = (bo0 \<or> (cr_bits s1 (op_bi op) \<noteq> 0) \<noteq> (\<not> bo1));
          target = ucast (lr s1) AND NOT 3; link = this_op + 4;
          s2 = (if op_lk op \<noteq> 0 then s1\<lparr>lr := ucast link\<rparr> else s1)
      in leave (ctr_ok \<and> cond_ok) target link (cia s) s2)"

definition BCCTR :: "u32 \<Rightarrow> ppu_opcode \<Rightarrow> ppu \<Rightarrow> ppu_result" where
  "BCCTR this_op op s =
     (let link = this_op + 4;
          s1 = (if op_lk op \<noteq> 0 then s\<lparr>lr := ucast link\<rparr> else s);
          taken = (op_bo op AND 0x10 \<noteq> 0 \<or> cr_bits s1 (op_bi op) = b2u (op_bo op AND 0x8 \<noteq> 0))
      in leave taken (ucast (ctr s1) AND NOT 3) link (cia s1) s1)"

definition SC :: "u32 \<Rightarrow> ppu_opcode \<Rightarrow> ppu \<Rightarrow> ppu_result" where
  "SC this_op op s =
     (let s1 = s\<lparr>cia := this_op, exec_bytes := exec_bytes s + ucast (this_op - cia s)\<rparr>
      in if op \<noteq> asm_SC 0 then Raise else Syscall s1 (gpr s1 11))"

section \<open>Traps\<close>

text \<open>The five conditions of the \<open>TO\<close> field, tested by each trap instruction on its operands.\<close>

definition trap_if :: "ppu_opcode \<Rightarrow> 'a::len word \<Rightarrow> 'a word \<Rightarrow> bool" where
  "trap_if op a b \<longleftrightarrow>
     op_bo op AND 0x10 \<noteq> 0 \<and> sint a < sint b \<or> op_bo op AND 0x8 \<noteq> 0 \<and> sint a > sint b \<or>
     op_bo op AND 0x4 \<noteq> 0 \<and> a = b \<or> op_bo op AND 0x2 \<noteq> 0 \<and> a < b \<or> op_bo op AND 0x1 \<noteq> 0 \<and> a > b"

definition TDI :: "u32 \<Rightarrow> ppu_opcode \<Rightarrow> ppu \<Rightarrow> ppu_result" where
  "TDI this_op op s =
     (if trap_if op (gpr s (op_ra op)) (scast (op_simm16 op)) then Trap s this_op else Next s)"

definition TWI :: "u32 \<Rightarrow> ppu_opcode \<Rightarrow> ppu \<Rightarrow> ppu_result" where
  "TWI this_op op s =
     (if trap_if op (ucast (gpr s (op_ra op)) :: u32) (op_simm16 op) then Trap s this_op else Next s)"

definition TW :: "u32 \<Rightarrow> ppu_opcode \<Rightarrow> ppu \<Rightarrow> ppu_result" where
  "TW this_op op s =
     (if trap_if op (ucast (gpr s (op_ra op)) :: u32) (ucast (gpr s (op_rb op)))
      then Trap s this_op else Next s)"

definition TD :: "u32 \<Rightarrow> ppu_opcode \<Rightarrow> ppu \<Rightarrow> ppu_result" where
  "TD this_op op s =
     (if trap_if op (gpr s (op_ra op)) (gpr s (op_rb op)) then Trap s this_op else Next s)"

text \<open>\<open>ppu_trap\<close>: \<open>stub\<close> is the setting \<open>stub_ppu_traps\<close>, \<open>exec_ok\<close> the page check; \<open>None\<close> is the
  host exception (also of the alignment assertion).\<close>

definition ppu_trap :: "u32 \<Rightarrow> (u32 \<Rightarrow> bool) \<Rightarrow> u64 \<Rightarrow> ppu \<Rightarrow> ppu option" where
  "ppu_trap stub exec_ok addr s =
     (if addr AND (NOT 0xffffffff OR 3) \<noteq> 0 then None
      else let s1 = s\<lparr>cia := ucast addr\<rparr>; add = stub * 4
           in if add = 0 \<or> \<not> exec_ok (cia s1) \<or> \<not> exec_ok (cia s1 + add) then None
              else Some (s1\<lparr>cia := cia s1 + add\<rparr>))"

section \<open>Condition register moves\<close>

lemma small_of_nat_eq: "a < 32 \<Longrightarrow> b < 32 \<Longrightarrow> (of_nat a :: u32) = of_nat b \<longleftrightarrow> a = b"
  by (simp add: word_of_nat_eq_iff take_bit_nat_eq_self)

lemma bit_of_packed:
  assumes "list_all (\<lambda>b. b = 0 \<or> b = 1) xs" "length xs \<le> 32"
  shows "bit (foldl (\<lambda>r b. push_bit 1 r OR ucast (b :: u8)) (0 :: u32) xs) k \<longleftrightarrow> k < length xs \<and> xs ! (length xs - 1 - k) \<noteq> 0"
  using assms
proof (induction xs arbitrary: k rule: rev_induct)
  case (snoc b xs)
  have b: "bit (ucast b :: u32) k \<longleftrightarrow> k = 0 \<and> b \<noteq> 0" for k using snoc.prems(1) by (auto simp: bit_1_iff)
  have p: "bit (push_bit 1 R OR ucast b :: u32) k \<longleftrightarrow> (if k = 0 then b \<noteq> 0 else k < 32 \<and> bit R (k - 1))" for R k
    unfolding bit_or_iff bit_push_bit_iff b by auto
  show ?case
    unfolding foldl_append foldl.simps p using snoc.prems snoc.IH [of "k - 1"]
    by (cases k) (auto simp: nth_append)
qed simp

lemma cr_pack_fold: "cr_pack bits = foldl (\<lambda>r b. push_bit 1 r OR ucast b) 0 (map (\<lambda>i. bits (of_nat i)) [0..<32])"
  unfolding cr_pack_def foldl_map by (simp only:)

lemma bit_cr_pack: "ppu_wf s \<Longrightarrow> bit (cr_pack (cr_bits s)) k \<longleftrightarrow> k < 32 \<and> cr_bits s (of_nat (31 - k)) \<noteq> 0"
  unfolding cr_pack_fold
  by (subst bit_of_packed) (auto simp: list_all_iff ppu_wf_def)

lemma bit_lane_mask: "bit (lane_mask base s) k \<longleftrightarrow> k < 16 \<and> odd (cr_bits s (base + 15 - of_nat k))"
proof -
  have "n \<le> 32 \<Longrightarrow> bit (foldl (\<lambda>m j. m OR (if P j then push_bit j 1 else 0)) (0 :: u32) [0..<n]) k \<longleftrightarrow> k < n \<and> P k" for n P
    by (induction n) (auto simp: bit_simps less_Suc_eq)
  from this [of 16] show ?thesis unfolding lane_mask_def by simp
qed

lemma odd_cr: "ppu_wf s \<Longrightarrow> odd (cr_bits s i) \<longleftrightarrow> cr_bits s i \<noteq> 0"
  unfolding ppu_wf_def by (metis odd_one even_zero)

lemma mfcr_x64: "ppu_wf s \<Longrightarrow> MFCR_x64 op s = MFCR op s"
proof -
  assume wf: "ppu_wf s"
  have "bit (push_bit 16 (lane_mask 0 s) OR lane_mask 16 s) k = bit (cr_pack (cr_bits s)) k" if "k < 32" for k
  proof (cases "k < 16")
    case True
    then have "(16 + 15 - of_nat k :: u32) = of_nat (31 - k)" by (simp add: of_nat_diff)
    with True show ?thesis by (simp add: bit_simps bit_lane_mask bit_cr_pack wf odd_cr)
  next
    case False
    then have "(0 + 15 - of_nat (k - 16) :: u32) = of_nat (31 - k)" using that by (simp add: of_nat_diff)
    with False that show ?thesis by (auto simp: bit_simps bit_lane_mask bit_cr_pack wf odd_cr)
  qed
  then have "push_bit 16 (lane_mask 0 s) OR lane_mask 16 s = cr_pack (cr_bits s)" by (intro bit_word_eqI) simp
  then show ?thesis by (simp add: MFCR_x64_def MFCR_def)
qed

lemma field_shift: "n < 8 \<Longrightarrow> unat (((of_nat n :: u32) * 4) XOR 0x1c) = 28 - 4 * n"
proof -
  have "list_all (\<lambda>n. ((of_nat n :: u32) * 4) XOR 0x1c = of_nat (28 - 4 * n)) [0..<8]" by code_simp
  then have "n < 8 \<Longrightarrow> ((of_nat n :: u32) * 4) XOR 0x1c = of_nat (28 - 4 * n)" by (simp add: list_all_iff)
  then show "n < 8 \<Longrightarrow> ?thesis" by (simp add: unat_of_nat take_bit_nat_eq_self del: of_nat_diff of_nat_mult)
qed

lemma s_table_bits:
  assumes "v < 16" "k < 4"
  shows "s_table ! v ! k = b2u (odd (v div 2 ^ (3 - k)))"
proof -
  have "s_table = map (\<lambda>v :: nat. map (\<lambda>k. b2u (odd (v div 2 ^ (3 - k)))) [0, 1, 2, 3]) [0, 1, 2, 3, 4, 5, 6, 7, 8, 9, 10, 11, 12, 13, 14, 15]"
    by (simp add: s_table_def b2u_def)
  also have "\<dots> = map (\<lambda>v :: nat. map (\<lambda>k. b2u (odd (v div 2 ^ (3 - k)))) [0..<4]) [0..<16]"
    by (simp add: upt_rec)
  finally have t: "s_table = map (\<lambda>v :: nat. map (\<lambda>k. b2u (odd (v div 2 ^ (3 - k)))) [0..<4]) [0..<16]" .
  show ?thesis unfolding t using assms by simp
qed

lemma nibble_row:
  assumes "n < 8" "k < 4"
  shows "s_table ! unat (drop_bit (28 - 4 * n) v AND 0xf) ! k = b2u (bit (v :: u64) (31 - (4 * n + k)))"
proof -
  have f: "(0xf :: u64) = mask 4" by (simp add: mask_eq_exp_minus_1)
  have "unat (drop_bit (28 - 4 * n) v AND 0xf) < 16"
    unfolding f unat_and_mask by simp
  then have "s_table ! unat (drop_bit (28 - 4 * n) v AND 0xf) ! k =
      b2u (bit (drop_bit (28 - 4 * n) v AND 0xf) (3 - k))"
    using assms(2) by (simp only: s_table_bits bit_iff_odd_unat)
  moreover have "28 - 4 * n + (3 - k) = 31 - (4 * n + k)" using assms by linarith
  ultimately show ?thesis unfolding f using assms by (simp add: bit_simps less_imp_diff_less)
qed

lemma put_field_bits:
  assumes "n < 8" "j < 32"
  shows "cr_bits (put_field v (of_nat n) s) (of_nat j) = (if j div 4 = n then b2u (bit v (31 - j)) else cr_bits s (of_nat j))"
proof -
  have c: "(of_nat j :: u32) = of_nat n * 4 + 3 \<longleftrightarrow> j = 4 * n + 3" "(of_nat j :: u32) = of_nat n * 4 + 2 \<longleftrightarrow> j = 4 * n + 2"
    "(of_nat j :: u32) = of_nat n * 4 + 1 \<longleftrightarrow> j = 4 * n + 1" "(of_nat j :: u32) = of_nat n * 4 \<longleftrightarrow> j = 4 * n"
    using small_of_nat_eq [of j "4 * n + 3"] small_of_nat_eq [of j "4 * n + 2"] small_of_nat_eq [of j "4 * n + 1"]
      small_of_nat_eq [of j "4 * n"] assms by (simp_all add: mult.commute add.commute)
  define row where "row = s_table ! unat (drop_bit (28 - 4 * n) v AND 0xf)"
  have r: "row ! k = b2u (bit v (31 - (4 * n + k)))" if "k < 4" for k
    unfolding row_def using assms(1) that by (rule nibble_row)
  have "cr_bits (put_field v (of_nat n) s) (of_nat j) =
      (if j = 4 * n + 3 then row ! 3 else if j = 4 * n + 2 then row ! 2 else if j = 4 * n + 1 then row ! 1
       else if j = 4 * n then row ! 0 else cr_bits s (of_nat j))"
    unfolding put_field_def Let_def field_shift [OF assms(1)] put_cr_simps fun_upd_apply row_def [symmetric] c ..
  moreover have "j div 4 = n \<longleftrightarrow> j = 4 * n + 3 \<or> j = 4 * n + 2 \<or> j = 4 * n + 1 \<or> j = 4 * n" by linarith
  ultimately show ?thesis by (simp add: r [of 0] r)
qed

lemma put_fields_bits:
  assumes "n \<le> 8" "j < 32"
  shows "cr_bits (fold (\<lambda>i. if P i then put_field v (of_nat i) else id) [0..<n] s) (of_nat j) =
    (if j div 4 < n \<and> P (j div 4) then b2u (bit v (31 - j)) else cr_bits s (of_nat j))"
  using assms by (induction n) (auto simp: put_field_bits less_Suc_eq)

lemma first_field: "N < 8 \<Longrightarrow> (of_nat (countl_zero (drop_bit N 128 :: u32)) :: u32) AND 7 = of_nat N"
proof -
  have "list_all (\<lambda>N. (of_nat (countl_zero (drop_bit N 128 :: u32)) :: u32) AND 7 = of_nat N) [0..<8]" by code_simp
  then show "N < 8 \<Longrightarrow> ?thesis" by (simp add: list_all_iff)
qed

lemma all_fields: "i < 8 \<Longrightarrow> 0xff AND drop_bit i (128 :: u32) \<noteq> 0"
proof -
  have "list_all (\<lambda>i. 0xff AND drop_bit i (128 :: u32) \<noteq> 0) [0..<8]" by code_simp
  then show "i < 8 \<Longrightarrow> ?thesis" by (simp add: list_all_iff)
qed

lemma nibble_bits:
  fixes b0 b1 b2 b3 :: u8
  assumes "b0 = 0 \<or> b0 = 1" "b1 = 0 \<or> b1 = 1" "b2 = 0 \<or> b2 = 1" "b3 = 0 \<or> b3 = 1"
  defines "v \<equiv> push_bit 3 (ucast b0) OR push_bit 2 (ucast b1) OR push_bit 1 (ucast b2) OR ucast b3 :: u32"
  shows "bit v 3 \<longleftrightarrow> b0 \<noteq> 0" "bit v 2 \<longleftrightarrow> b1 \<noteq> 0" "bit v 1 \<longleftrightarrow> b2 \<noteq> 0" "bit v 0 \<longleftrightarrow> b3 \<noteq> 0"
  using assms(1-4) unfolding v_def by (elim disjE; simp add: bit_simps)+

lemma bit_placed: "m + i < 32 \<Longrightarrow> bit (ucast (push_bit m v :: u32) :: u64) (m + i) \<longleftrightarrow> bit v i"
  by (simp add: bit_simps)

lemma bit_mfocrf:
  assumes "ppu_wf s" "N < 8" "j < 32" "j div 4 = N"
  shows "bit (gpr (MFOCRF (of_nat N) op s) (op_rd op)) (31 - j) \<longleftrightarrow> cr_bits s (of_nat j) \<noteq> 0"
proof -
  let ?c = "\<lambda>k. cr_bits s (of_nat N * 4 + k)"
  define v :: u32 where "v = push_bit 3 (ucast (?c 0)) OR push_bit 2 (ucast (?c 1)) OR push_bit 1 (ucast (?c 2)) OR ucast (?c 3)"
  have "?c k = 0 \<or> ?c k = 1" for k using assms(1) by (simp add: ppu_wf_def)
  note n = nibble_bits [OF this [of 0] this [of 1] this [of 2] this [of 3], folded v_def]
  have g: "gpr (MFOCRF (of_nat N) op s) (op_rd op) = ucast (push_bit (28 - 4 * N) v)"
    unfolding MFOCRF_def Let_def field_shift [OF assms(2)] v_def put_gpr_simps by (simp only: fun_upd_same)
  have b: "bit (gpr (MFOCRF (of_nat N) op s) (op_rd op)) (28 - 4 * N + i) \<longleftrightarrow> bit v i" if "i < 4" for i
    unfolding g using that assms(2) by (intro bit_placed) linarith
  have "of_nat j = (of_nat N * 4 + of_nat (j mod 4) :: u32)"
    using mult_div_mod_eq [of 4 j] unfolding assms(4) by (metis mult.commute of_nat_add of_nat_mult of_nat_numeral)
  moreover have "31 - j = 28 - 4 * N + (3 - j mod 4)" using assms(2,4) mod_less_divisor [of 4 j] mult_div_mod_eq [of 4 j] by linarith
  moreover have "j mod 4 = 0 \<or> j mod 4 = 1 \<or> j mod 4 = 2 \<or> j mod 4 = 3" by linarith
  ultimately show ?thesis using n b [of 3] b [of 2] b [of 1] b [of 0] by (elim disjE) simp_all
qed

lemma mtocrf_all:
  "op_l11 op = 0 \<Longrightarrow> op_crm op = 0xff \<Longrightarrow> j < 32 \<Longrightarrow> cr_bits (MTOCRF op s) (of_nat j) = b2u (bit (gpr s (op_rs op)) (31 - j))"
  using put_fields_bits [of 8 j "\<lambda>i. 0xff AND drop_bit i (128 :: u32) \<noteq> 0" "gpr s (op_rs op)" s] all_fields [of "j div 4"]
  by (simp add: MTOCRF_def Let_def less_mult_imp_div_less)

lemma mtocrf_one:
  "op_l11 op \<noteq> 0 \<Longrightarrow> op_crm op = drop_bit N 128 \<Longrightarrow> N < 8 \<Longrightarrow> j < 32 \<Longrightarrow> cr_bits (MTOCRF op s) (of_nat j) =
    (if j div 4 = N then b2u (bit (gpr s (op_rs op)) (31 - j)) else cr_bits s (of_nat j))"
  by (simp add: MTOCRF_def Let_def first_field put_field_bits)

lemma b2u_cr: "ppu_wf s \<Longrightarrow> b2u (cr_bits s i \<noteq> 0) = cr_bits s i"
  unfolding ppu_wf_def b2u_def by auto

text \<open>C18: the condition register survives a save and restore. After \<open>MFCR\<close>, moving the saved word
  back with a full \<open>MTCRF\<close> restores every bit whatever happened in between; saving field \<open>N\<close> with
  \<open>MFOCRF\<close> and restoring it with \<open>MTOCRF\<close> restores that field and leaves the others alone; and the
  x86 variant of \<open>MFCR\<close> computes the same word.\<close>

theorem cr_save_restore:
  assumes "ppu_wf s" "N < 8" "j < 32"
    and "op_l11 all = 0" "op_crm all = 0xff" "gpr t (op_rs all) = gpr (MFCR op s) (op_rd op)"
    and "op_l11 one \<noteq> 0" "op_crm one = drop_bit N 128" "gpr u (op_rs one) = gpr (MFOCRF (of_nat N) op s) (op_rd op)"
  shows "MFCR_x64 op s = MFCR op s \<and> cr_bits (MTOCRF all t) (of_nat j) = cr_bits s (of_nat j) \<and>
    cr_bits (MTOCRF one u) (of_nat j) = (if j div 4 = N then cr_bits s (of_nat j) else cr_bits u (of_nat j))"
proof -
  have "bit (gpr (MFCR op s) (op_rd op)) (31 - j) \<longleftrightarrow> cr_bits s (of_nat j) \<noteq> 0"
    using assms(1,3) by (auto simp: MFCR_def bit_simps bit_cr_pack)
  with assms show ?thesis by (simp add: mfcr_x64 mtocrf_all mtocrf_one bit_mfocrf b2u_cr)
qed

theorem cr_save_restore_witness:
  "let s = put_cr 2 1 (ppu_init (\<lambda>_. 0)); t = put_cr 2 0 (MFCR 0x7C600026 s)
   in ppu_wf s \<and> cr_bits (MTOCRF 0x7C6FF120 t) 2 = 1"
proof -
  let ?s = "put_cr 2 1 (ppu_init (\<lambda>_. 0))"
  have f: "op_l11 0x7C6FF120 = 0" "op_crm 0x7C6FF120 = 0xff" "op_rs 0x7C6FF120 = 3" "op_rd 0x7C600026 = 3"
    "op_l11 0x7C780120 \<noteq> 0" "op_crm 0x7C780120 = drop_bit 0 128" "op_rs 0x7C780120 = 3" by code_simp+
  have wf: "ppu_wf ?s" by (simp add: ppu_wf_def ppu_init_def)
  have "(of_nat 2 :: u32) = 2" by simp
  then show ?thesis
    using cr_save_restore [OF wf, of 0 2 "0x7C6FF120" "put_cr 2 0 (MFCR 0x7C600026 ?s)" "0x7C600026" "0x7C780120"
        "MFOCRF (of_nat 0) 0x7C600026 ?s"] f wf
    by (simp add: Let_def)
qed

section \<open>Special-purpose registers\<close>

text \<open>The bits of a source register that a special-purpose register keeps; none for an unknown
  register.\<close>

definition spr_mask :: "u32 \<Rightarrow> u64 option" where
  "spr_mask n = (if n = 0x001 then Some 0xE000007F else if n = 0x008 \<or> n = 0x009 then Some (- 1)
     else if n = 0x100 then Some 0xffffffff else None)"

lemma xer_bits_test: "v AND 0x80000000 \<noteq> 0 \<longleftrightarrow> bit v 31" "v AND 0x40000000 \<noteq> 0 \<longleftrightarrow> bit v 30"
  "v AND 0x20000000 \<noteq> 0 \<longleftrightarrow> bit v 29" for v :: u64
  using and_exp_eq_0_iff_not_bit [of v 31] and_exp_eq_0_iff_not_bit [of v 30] and_exp_eq_0_iff_not_bit [of v 29]
  by simp_all

lemma bit_b2u: "bit (b2u b) k \<longleftrightarrow> k = 0 \<and> b"
  by (auto simp: b2u_def bit_1_iff)

lemma bit_xer_word:
  "bit (xer_word s) k \<longleftrightarrow> (if k = 31 then xer_so s else if k = 30 then xer_ov s else if k = 29 then xer_ca s else bit (xer_cnt s) k)"
proof -
  consider "k = 29" | "k = 30" | "k = 31" | "k < 29" | "31 < k" by linarith
  then show ?thesis
    by cases (auto simp: xer_word_def bit_simps bit_b2u dest: bit_imp_le_length)
qed

lemma xer_word_of:
  "ucast (xer_word (s\<lparr>xer_so := v AND 0x80000000 \<noteq> 0, xer_ov := v AND 0x40000000 \<noteq> 0,
     xer_ca := v AND 0x20000000 \<noteq> 0, xer_cnt := ucast (v AND 0x7f)\<rparr>)) = v AND (0xE000007F :: u64)"
proof -
  have m: "(0x7f :: u64) = mask 7" "(0xE000007F :: u64) = mask 7 OR push_bit 29 (mask 3)" by (simp_all add: mask_eq_exp_minus_1)
  show ?thesis unfolding xer_bits_test m
    by (rule bit_word_eqI) (auto simp: bit_xer_word bit_simps)
qed

text \<open>C19: special-purpose register moves. \<open>MTSPR\<close> raises exactly for a register other than XER,
  LR, CTR and VRSAVE, and after it \<open>MFSPR\<close> of the same register returns the moved value, cut to the
  bits the register keeps (the three flags and the 7-bit count for XER, 32 bits for VRSAVE).\<close>

theorem spr_roundtrip:
  assumes "spr_number op' = spr_number op"
  shows "case MTSPR op s of
      None \<Rightarrow> spr_mask (spr_number op) = None
    | Some t \<Rightarrow> (\<exists>m u. spr_mask (spr_number op) = Some m \<and> MFSPR tb op' t = Some u \<and>
        gpr u (op_rd op') = gpr s (op_rs op) AND m)"
proof -
  have "ucast (ucast v :: u32) = v AND 0xffffffff" for v :: u64
    using take_bit_eq_mask [of 32 v] by (simp add: mask_eq_exp_minus_1 unsigned_ucast_eq flip: ucast_eq)
  then show ?thesis
    using assms xer_word_of by (simp add: MTSPR_def MFSPR_def spr_mask_def Let_def)
qed

theorem spr_roundtrip_witness:
  "\<exists>u. MFSPR 0 0x7C8802A6 (the (MTSPR 0x7C6803A6 (put_gpr 3 0x12345678 (ppu_init (\<lambda>_. 0))))) = Some u \<and>
     gpr u 4 = 0x12345678"
proof -
  have f: "spr_number 0x7C8802A6 = 8" "spr_number 0x7C6803A6 = 8" "op_rd 0x7C8802A6 = 4" "op_rs 0x7C6803A6 = 3" by code_simp+
  show ?thesis
    using spr_roundtrip [where op' = "0x7C8802A6" and op = "0x7C6803A6" and tb = 0 and s = "put_gpr 3 0x12345678 (ppu_init (\<lambda>_. 0))"] f
    by (simp add: spr_mask_def MTSPR_def)
qed

section \<open>Branches\<close>

text \<open>Where execution goes on, and the state it goes on with.\<close>

fun next_pc :: "u32 \<Rightarrow> ppu_result \<Rightarrow> u32 option" where
  "next_pc this_op (Next s) = Some (this_op + 4)"
| "next_pc this_op (Dispatch s) = Some (cia s)"
| "next_pc this_op r = None"

fun result_state :: "ppu_result \<Rightarrow> ppu option" where
  "result_state (Next s) = Some s"
| "result_state (Dispatch s) = Some s"
| "result_state (Trap s a) = Some s"
| "result_state (Syscall s n) = Some s"
| "result_state Raise = None"

text \<open>The architecture's table of \<open>BO\<close> encodings: whether the branch is taken, given the count
  register after the decrement and the condition bit, and whether it decrements.\<close>

definition bo_taken :: "nat \<Rightarrow> bool \<Rightarrow> bool \<Rightarrow> bool" where
  "bo_taken bo ctr_zero c = ([\<not> ctr_zero \<and> \<not> c, ctr_zero \<and> \<not> c, \<not> c, \<not> c, \<not> ctr_zero \<and> c, ctr_zero \<and> c, c, c,
     \<not> ctr_zero, ctr_zero, True, True, \<not> ctr_zero, ctr_zero, True, True] ! (bo div 2))"

definition bo_decrements :: "nat \<Rightarrow> bool" where
  "bo_decrements bo \<longleftrightarrow> even (bo div 4)"

definition bo_agrees :: "u32 \<Rightarrow> bool \<Rightarrow> bool \<Rightarrow> bool" where
  "bo_agrees w z c \<longleftrightarrow> (bo_decrements (unat w) \<longleftrightarrow> w AND 4 = 0) \<and>
     (bo_taken (unat w) z c \<longleftrightarrow> (w AND 4 \<noteq> 0 \<or> (\<not> z) \<noteq> (w AND 2 \<noteq> 0)) \<and> (w AND 0x10 \<noteq> 0 \<or> c \<noteq> (w AND 8 = 0)))"

lemma bo_cases: "unat w < 32 \<Longrightarrow> bo_agrees w z c"
proof -
  have "list_all (\<lambda>n. bo_agrees (of_nat n) False False \<and> bo_agrees (of_nat n) False True \<and>
      bo_agrees (of_nat n) True False \<and> bo_agrees (of_nat n) True True) [0..<32]" by code_simp
  then have "n < 32 \<Longrightarrow> bo_agrees (of_nat n) z c" for n unfolding list_all_iff by (cases z; cases c) simp_all
  from this [of "unat w"] show "unat w < 32 \<Longrightarrow> ?thesis" by simp
qed

lemma leave_result:
  "next_pc this_op (leave taken target (this_op + 4) old s) = Some (if taken then target else this_op + 4)"
  "\<exists>c e. result_state (leave taken target (this_op + 4) old s) = Some (s\<lparr>cia := c, exec_bytes := e\<rparr>)"
proof -
  have "s = s\<lparr>cia := cia s, exec_bytes := exec_bytes s\<rparr>" by simp
  then have "\<exists>c e. s = s\<lparr>cia := c, exec_bytes := e\<rparr>" by blast
  then show "next_pc this_op (leave taken target (this_op + 4) old s) = Some (if taken then target else this_op + 4)"
    "\<exists>c e. result_state (leave taken target (this_op + 4) old s) = Some (s\<lparr>cia := c, exec_bytes := e\<rparr>)"
    unfolding leave_def by auto
qed

lemma bo_bound: "unat (op_bo op) < 32"
  using unat_ppu_bf [of 6 5 op] by (simp add: op_bo_def)

lemma bo_tests:
  "op_bo op AND 4 = 0 \<longleftrightarrow> bo_decrements (unat (op_bo op))"
  "(op_bo op AND 4 \<noteq> 0 \<or> (\<not> z) \<noteq> (op_bo op AND 2 \<noteq> 0)) \<and> (op_bo op AND 0x10 \<noteq> 0 \<or> c \<noteq> (op_bo op AND 8 = 0)) \<longleftrightarrow>
    bo_taken (unat (op_bo op)) z c"
  using bo_cases [OF bo_bound, of op z c] by (simp_all add: bo_agrees_def)

text \<open>What a branch does: it goes to \<open>target\<close> or to the next instruction, and changes nothing but the
  two given registers (and the bookkeeping of the dispatcher).\<close>

definition branches_to :: "u32 \<Rightarrow> ppu \<Rightarrow> ppu_result \<Rightarrow> bool \<Rightarrow> u32 \<Rightarrow> u64 \<Rightarrow> u64 \<Rightarrow> bool" where
  "branches_to this_op s r taken target new_ctr new_lr \<longleftrightarrow>
     next_pc this_op r = Some (if taken then target else this_op + 4) \<and>
     (\<exists>c e. result_state r = Some (s\<lparr>ctr := new_ctr, lr := new_lr, cia := c, exec_bytes := e\<rparr>))"

lemma branches_to_leave:
  "s' = s\<lparr>ctr := new_ctr, lr := new_lr\<rparr> \<Longrightarrow> taken' = taken \<Longrightarrow> target' = target \<Longrightarrow>
    branches_to this_op s (leave taken' target' (this_op + 4) old s') taken target new_ctr new_lr"
  using leave_result [where this_op = this_op and s = s' and taken = taken and target = target and old = old] by (auto simp: branches_to_def)

text \<open>C20: branches follow the architecture's encoding table. \<open>BC\<close> and \<open>BCLR\<close> decrement the count
  register, test it and the condition bit exactly as the \<open>BO\<close> table says; \<open>BCCTR\<close> tests only the
  condition bit; each goes to its displacement, link or count target, or on to the next instruction,
  whether or not the thread has pending state, and \<open>lk\<close> saves the following address after the old
  link register has been read.\<close>

theorem branches_exact:
  assumes "ppu_wf s"
  shows "let bo = unat (op_bo op); c = (cr_bits s (op_bi op) \<noteq> 0);
      n = (if bo_decrements bo then ctr s - 1 else ctr s); taken = bo_taken bo (n = 0) c;
      base = (if op_aa op \<noteq> 0 then 0 else a); l = (if op_lk op \<noteq> 0 then ucast (a + 4) else lr s)
    in branches_to a s (BC a op s) taken (base + op_bt14 op) n l \<and>
       branches_to a s (BCLR a op s) taken (ucast (lr s) AND NOT 3) n l \<and>
       branches_to a s (BCCTR a op s) (16 \<le> bo \<or> c = odd (bo div 8)) (ucast (ctr s) AND NOT 3) (ctr s) l \<and>
       branches_to a s (B a op s) True (base + op_bt24 op) (ctr s) l"
proof -
  let ?bo = "unat (op_bo op)" and ?c = "cr_bits s (op_bi op) \<noteq> 0"
  have "odd (n div 16) \<longleftrightarrow> 16 \<le> n" if "n < 32" for n :: nat
    using that by (cases "16 \<le> n") (simp_all add: div_nat_eqI [of 16 1 n])
  from this [OF bo_bound] have t: "16 \<le> ?bo \<longleftrightarrow> op_bo op AND 0x10 \<noteq> 0" "odd (?bo div 8) \<longleftrightarrow> op_bo op AND 8 \<noteq> 0"
    using and_exp_eq_0_iff_not_bit [of "op_bo op" 4] and_exp_eq_0_iff_not_bit [of "op_bo op" 3] bo_bound [of op]
    by (auto simp: bit_iff_odd_unat) 
  have c: "cr_bits s (op_bi op) = b2u b \<longleftrightarrow> ?c = b" for b using assms by (auto simp: ppu_wf_def b2u_def)
  have "branches_to a s (BC a op s) (bo_taken ?bo ((if bo_decrements ?bo then ctr s - 1 else ctr s) = 0) ?c)
      ((if op_aa op \<noteq> 0 then 0 else a) + op_bt14 op) (if bo_decrements ?bo then ctr s - 1 else ctr s)
      (if op_lk op \<noteq> 0 then ucast (a + 4) else lr s)"
    unfolding BC_def Let_def by (rule branches_to_leave) (auto simp: bo_tests [symmetric])
  moreover have "branches_to a s (BCLR a op s) (bo_taken ?bo ((if bo_decrements ?bo then ctr s - 1 else ctr s) = 0) ?c)
      (ucast (lr s) AND NOT 3) (if bo_decrements ?bo then ctr s - 1 else ctr s)
      (if op_lk op \<noteq> 0 then ucast (a + 4) else lr s)"
    unfolding BCLR_def Let_def by (rule branches_to_leave) (auto simp: bo_tests [symmetric])
  moreover have "branches_to a s (BCCTR a op s) (16 \<le> ?bo \<or> ?c = odd (?bo div 8)) (ucast (ctr s) AND NOT 3) (ctr s)
      (if op_lk op \<noteq> 0 then ucast (a + 4) else lr s)"
    unfolding BCCTR_def Let_def t by (rule branches_to_leave) (auto simp: c)
  moreover have "branches_to a s (B a op s) True ((if op_aa op \<noteq> 0 then 0 else a) + op_bt24 op) (ctr s)
      (if op_lk op \<noteq> 0 then ucast (a + 4) else lr s)"
  proof -
    have "B a op s = leave True ((if op_aa op \<noteq> 0 then 0 else a) + op_bt24 op) (a + 4) (cia s)
        (if op_lk op \<noteq> 0 then s\<lparr>lr := ucast (a + 4)\<rparr> else s)"
      by (simp add: B_def leave_def Let_def)
    then show ?thesis by (simp only:) (rule branches_to_leave; simp)
  qed
  ultimately show ?thesis by (simp only: Let_def simp_thms)
qed

theorem branches_exact_witness:
  "ppu_wf (ppu_init (\<lambda>_. 0)) \<and> next_pc 0x10000 (BC 0x10000 0x4200FFFC (ppu_init (\<lambda>_. 0))) = Some 0xFFFC"
proof -
  have wf: "ppu_wf (ppu_init (\<lambda>_. 0))" by (simp add: ppu_wf_def ppu_init_def)
  have f: "op_bo 0x4200FFFC = 16" "op_aa 0x4200FFFC = 0" "op_bt14 0x4200FFFC = - 4" by code_simp+
  show ?thesis
    using branches_exact [OF wf, of "0x4200FFFC" "0x10000"] wf
    by (simp add: Let_def branches_to_def f bo_taken_def bo_decrements_def) (simp add: ppu_init_def)
qed

text \<open>A counted loop: the body at the target, closed by the branch at \<open>a\<close>.\<close>

partial_function (option) counted_loop :: "(ppu \<Rightarrow> ppu) \<Rightarrow> u32 \<Rightarrow> ppu_opcode \<Rightarrow> ppu \<Rightarrow> ppu option" where
  "counted_loop body a op s =
     (case BC a op (body s) of
        Next t \<Rightarrow> Some t
      | Dispatch t \<Rightarrow> if cia t = a + 4 then Some t else counted_loop body a op t
      | _ \<Rightarrow> None)"

lemma bdnz_step:
  assumes "op_bo op = 16" "op_lk op = 0"
  shows "BC a op s = leave (ctr s - 1 \<noteq> 0) ((if op_aa op \<noteq> 0 then 0 else a) + op_bt14 op) (a + 4) (cia s) (s\<lparr>ctr := ctr s - 1\<rparr>)"
  using assms by (simp add: BC_def Let_def)

text \<open>C21: counted loops end. A loop closed by \<open>bdnz\<close>, whose body keeps the count register, leaves
  after exactly the count register's value of iterations (2^64 for a zero count) with the count at 0
  and continues behind the branch: every observation the body transforms by \<open>g\<close> has been transformed
  that many times.\<close>

theorem counted_loop_ends:
  fixes obs :: "ppu \<Rightarrow> 'a"
  assumes "op_bo op = 16" "op_lk op = 0" "(if op_aa op \<noteq> 0 then 0 else a) + op_bt14 op \<noteq> a + 4"
    and "\<And>s. ctr (body s) = ctr s" "\<And>s. obs (body s) = g (obs s)"
    and "\<And>s n c e. obs (s\<lparr>ctr := n, cia := c, exec_bytes := e\<rparr>) = obs s"
  shows "\<exists>t. counted_loop body a op s = Some t \<and> ctr t = 0 \<and> obs t = (g ^^ Suc (unat (ctr s - 1))) (obs s)"
proof (induction "unat (ctr s - 1)" arbitrary: s)
  case 0
  then have z: "ctr s - 1 = 0" by (simp add: unat_eq_0)
  have o: "obs (s\<lparr>ctr := 0\<rparr>) = obs s" for s using assms(6) [of "exec_bytes s" "cia s" 0 s] by simp
  from 0 z assms(4,5) show ?case
    by (subst counted_loop.simps) (auto simp: bdnz_step [OF assms(1,2)] leave_def o assms(6))
next
  case (Suc k)
  then have nz: "ctr s - 1 \<noteq> 0" by auto
  have "unat (ctr s - 1 - 1) = k" by (simp only: unat_minus_one [OF nz] Suc.hyps(2) [symmetric] diff_Suc_1)
  then have ih: "\<exists>t. counted_loop body a op s' = Some t \<and> ctr t = 0 \<and> obs t = (g ^^ Suc k) (obs s')" if "ctr s' = ctr s - 1" for s'
    using Suc.hyps(1) [of s'] that by simp
  define s' where "s' = (body s)\<lparr>ctr := ctr s - 1, cia := (if op_aa op \<noteq> 0 then 0 else a) + op_bt14 op,
    exec_bytes := exec_bytes (body s) + ucast (a + 4 - cia (body s))\<rparr>"
  have "counted_loop body a op s = counted_loop body a op s'"
    using nz assms(3,4) by (subst counted_loop.simps) (simp add: bdnz_step [OF assms(1,2)] leave_def s'_def)
  moreover have "obs s' = g (obs s)" unfolding s'_def by (simp only: assms(5,6))
  moreover have "ctr s' = ctr s - 1" by (simp add: s'_def)
  ultimately show ?case using ih [of s'] Suc.hyps(2) by (simp add: funpow_Suc_right del: funpow.simps(2))
qed

theorem counted_loop_ends_witness:
  "\<exists>t. counted_loop (ADDI 0x38630002) 0x10000 0x4200FFFC ((ppu_init (\<lambda>_. 0))\<lparr>ctr := 3\<rparr>) = Some t \<and> ctr t = 0 \<and> gpr t 3 = 6"
proof -
  have f: "op_bo 0x4200FFFC = 16" "op_lk 0x4200FFFC = 0" "op_aa 0x4200FFFC = 0" "op_bt14 0x4200FFFC = - 4"
    "op_rd 0x38630002 = 3" "op_ra 0x38630002 = 3" "op_simm16 0x38630002 = 2" by code_simp+
  have "\<exists>t. counted_loop (ADDI 0x38630002) 0x10000 0x4200FFFC ((ppu_init (\<lambda>_. 0))\<lparr>ctr := 3\<rparr>) = Some t \<and> ctr t = 0 \<and>
      gpr t 3 = ((\<lambda>x. x + 2) ^^ Suc (unat (ctr ((ppu_init (\<lambda>_. 0))\<lparr>ctr := 3\<rparr>) - 1))) (gpr ((ppu_init (\<lambda>_. 0))\<lparr>ctr := 3\<rparr>) 3)"
    by (rule counted_loop_ends [where obs = "\<lambda>s. gpr s 3"]) (simp_all add: f ADDI_def put_gpr_def)
  moreover have "Suc (unat (ctr ((ppu_init (\<lambda>_. 0))\<lparr>ctr := 3\<rparr>) - 1)) = Suc (Suc (Suc 0))"
    "gpr ((ppu_init (\<lambda>_. 0))\<lparr>ctr := 3\<rparr>) 3 = 0" by (simp_all add: ppu_init_def)
  moreover have "((\<lambda>x :: u64. x + 2) ^^ Suc (Suc (Suc 0))) 0 = 6" by simp
  ultimately show ?thesis by (simp only:)
qed

end
