(* ===== verification/Ppu_LoadStore.thy ===== *)
theory Ppu_LoadStore
  imports Ppu_Branch
begin

text \<open>
  The load and store instructions of \<^verbatim>\<open>Emu/Cell/PPUInterpreter.cpp\<close>: fixed-point,
  byte-reversed, multiple, string, vector and double-precision transfers, and the cache
  instructions. Every address goes through \<open>vm::cast\<close>, whose exception is \<open>None\<close>; \<open>fd\<close> is the
  template flag \<open>use_feed_data\<close> of the loads. Single-precision transfers convert the value and
  are left out, as are the reserved ones (\<open>LWARX\<close> and its family), whose work is done in
  \<^verbatim>\<open>PPUThread.cpp\<close>.
\<close>

section \<open>Addresses and transfers\<close>

text \<open>The address expressions the instructions use: indexed, indexed without the \<open>r0\<close> rule,
  displacement without it (\<open>op.ra || 1\<close>), displacement with it, and the two doubleword forms.\<close>

definition ea_x :: "ppu_opcode \<Rightarrow> ppu \<Rightarrow> u64" where
  "ea_x op s = (if op_ra op \<noteq> 0 then gpr s (op_ra op) + gpr s (op_rb op) else gpr s (op_rb op))"

definition ea_xu :: "ppu_opcode \<Rightarrow> ppu \<Rightarrow> u64" where
  "ea_xu op s = gpr s (op_ra op) + gpr s (op_rb op)"

definition ea_d :: "ppu_opcode \<Rightarrow> ppu \<Rightarrow> u64" where
  "ea_d op s = gpr s (op_ra op) + scast (op_simm16 op)"

definition ea_d0 :: "ppu_opcode \<Rightarrow> ppu \<Rightarrow> u64" where
  "ea_d0 op s = (if op_ra op \<noteq> 0 then gpr s (op_ra op) + scast (op_simm16 op) else scast (op_simm16 op))"

definition ea_ds :: "ppu_opcode \<Rightarrow> ppu \<Rightarrow> u64" where
  "ea_ds op s = scast (op_simm16 op AND NOT 3) + (if op_ra op \<noteq> 0 then gpr s (op_ra op) else 0)"

definition ea_dsu :: "ppu_opcode \<Rightarrow> ppu \<Rightarrow> u64" where
  "ea_dsu op s = gpr s (op_ra op) + scast (op_simm16 op AND NOT 3)"

text \<open>\<open>ppu.gpr[op.rd] = ppu_feed_data<T>(ppu, addr)\<close> with the conversion of \<open>T\<close> to 64 bits, and
  the same for the other register files; then the store of a converted register, and the update
  of the base register.\<close>

definition feed_gpr :: "bool \<Rightarrow> 'a codec \<Rightarrow> ('a \<Rightarrow> u64) \<Rightarrow> ppu_opcode \<Rightarrow> u64 \<Rightarrow> ppu \<Rightarrow> ppu option" where
  "feed_gpr fd C f op addr s = map_option (\<lambda>(v, t). put_gpr (op_rd op) (f v) t) (ppu_feed_data fd C s addr)"

definition feed_fpr :: "bool \<Rightarrow> ppu_opcode \<Rightarrow> u64 \<Rightarrow> ppu \<Rightarrow> ppu option" where
  "feed_fpr fd op addr s = map_option (\<lambda>(v, t). put_fpr (op_frd op) v t) (ppu_feed_data fd be64 s addr)"

definition feed_vr :: "bool \<Rightarrow> ppu_opcode \<Rightarrow> u64 \<Rightarrow> ppu \<Rightarrow> ppu option" where
  "feed_vr fd op addr s = map_option (\<lambda>(v, t). put_vr (op_vd op) v t) (ppu_feed_data fd be128 s addr)"

definition update_ra :: "ppu_opcode \<Rightarrow> u64 \<Rightarrow> ppu option \<Rightarrow> ppu option" where
  "update_ra op addr r = map_option (put_gpr (op_ra op) addr) r"

section \<open>Fixed-point loads\<close>

definition LDX :: "bool \<Rightarrow> ppu_opcode \<Rightarrow> ppu \<Rightarrow> ppu option" where
  "LDX fd op s = feed_gpr fd be64 id op (ea_x op s) s"

definition LWZX :: "bool \<Rightarrow> ppu_opcode \<Rightarrow> ppu \<Rightarrow> ppu option" where
  "LWZX fd op s = feed_gpr fd be32 ucast op (ea_x op s) s"

definition LBZX :: "bool \<Rightarrow> ppu_opcode \<Rightarrow> ppu \<Rightarrow> ppu option" where
  "LBZX fd op s = feed_gpr fd be8 ucast op (ea_x op s) s"

definition LHZX :: "bool \<Rightarrow> ppu_opcode \<Rightarrow> ppu \<Rightarrow> ppu option" where
  "LHZX fd op s = feed_gpr fd be16 ucast op (ea_x op s) s"

definition LWAX :: "bool \<Rightarrow> ppu_opcode \<Rightarrow> ppu \<Rightarrow> ppu option" where
  "LWAX fd op s = feed_gpr fd be32 scast op (ea_x op s) s"

definition LHAX :: "bool \<Rightarrow> ppu_opcode \<Rightarrow> ppu \<Rightarrow> ppu option" where
  "LHAX fd op s = feed_gpr fd be16 scast op (ea_x op s) s"

definition LDUX :: "bool \<Rightarrow> ppu_opcode \<Rightarrow> ppu \<Rightarrow> ppu option" where
  "LDUX fd op s = (let addr = ea_xu op s in update_ra op addr (feed_gpr fd be64 id op addr s))"

definition LWZUX :: "bool \<Rightarrow> ppu_opcode \<Rightarrow> ppu \<Rightarrow> ppu option" where
  "LWZUX fd op s = (let addr = ea_xu op s in update_ra op addr (feed_gpr fd be32 ucast op addr s))"

definition LBZUX :: "bool \<Rightarrow> ppu_opcode \<Rightarrow> ppu \<Rightarrow> ppu option" where
  "LBZUX fd op s = (let addr = ea_xu op s in update_ra op addr (feed_gpr fd be8 ucast op addr s))"

definition LHZUX :: "bool \<Rightarrow> ppu_opcode \<Rightarrow> ppu \<Rightarrow> ppu option" where
  "LHZUX fd op s = (let addr = ea_x op s in update_ra op addr (feed_gpr fd be16 ucast op addr s))"

definition LWAUX :: "bool \<Rightarrow> ppu_opcode \<Rightarrow> ppu \<Rightarrow> ppu option" where
  "LWAUX fd op s = (let addr = ea_x op s in update_ra op addr (feed_gpr fd be32 scast op addr s))"

definition LHAUX :: "bool \<Rightarrow> ppu_opcode \<Rightarrow> ppu \<Rightarrow> ppu option" where
  "LHAUX fd op s = (let addr = ea_x op s in update_ra op addr (feed_gpr fd be16 scast op addr s))"

definition LWZ :: "bool \<Rightarrow> ppu_opcode \<Rightarrow> ppu \<Rightarrow> ppu option" where
  "LWZ fd op s = feed_gpr fd be32 ucast op (ea_d op s) s"

definition LBZ :: "bool \<Rightarrow> ppu_opcode \<Rightarrow> ppu \<Rightarrow> ppu option" where
  "LBZ fd op s = feed_gpr fd be8 ucast op (ea_d op s) s"

definition LHZ :: "bool \<Rightarrow> ppu_opcode \<Rightarrow> ppu \<Rightarrow> ppu option" where
  "LHZ fd op s = feed_gpr fd be16 ucast op (ea_d op s) s"

definition LHA :: "bool \<Rightarrow> ppu_opcode \<Rightarrow> ppu \<Rightarrow> ppu option" where
  "LHA fd op s = feed_gpr fd be16 scast op (ea_d op s) s"

definition LWZU :: "bool \<Rightarrow> ppu_opcode \<Rightarrow> ppu \<Rightarrow> ppu option" where
  "LWZU fd op s = (let addr = ea_d op s in update_ra op addr (feed_gpr fd be32 ucast op addr s))"

definition LBZU :: "bool \<Rightarrow> ppu_opcode \<Rightarrow> ppu \<Rightarrow> ppu option" where
  "LBZU fd op s = (let addr = ea_d op s in update_ra op addr (feed_gpr fd be8 ucast op addr s))"

definition LHZU :: "bool \<Rightarrow> ppu_opcode \<Rightarrow> ppu \<Rightarrow> ppu option" where
  "LHZU fd op s = (let addr = ea_d op s in update_ra op addr (feed_gpr fd be16 ucast op addr s))"

definition LHAU :: "bool \<Rightarrow> ppu_opcode \<Rightarrow> ppu \<Rightarrow> ppu option" where
  "LHAU fd op s = (let addr = ea_d op s in update_ra op addr (feed_gpr fd be16 scast op addr s))"

definition LD :: "bool \<Rightarrow> ppu_opcode \<Rightarrow> ppu \<Rightarrow> ppu option" where
  "LD fd op s = feed_gpr fd be64 id op (ea_ds op s) s"

definition LDU :: "bool \<Rightarrow> ppu_opcode \<Rightarrow> ppu \<Rightarrow> ppu option" where
  "LDU fd op s = (let addr = ea_dsu op s in update_ra op addr (feed_gpr fd be64 id op addr s))"

definition LWA :: "bool \<Rightarrow> ppu_opcode \<Rightarrow> ppu \<Rightarrow> ppu option" where
  "LWA fd op s = feed_gpr fd be32 scast op (ea_ds op s) s"

definition LDBRX :: "bool \<Rightarrow> ppu_opcode \<Rightarrow> ppu \<Rightarrow> ppu option" where
  "LDBRX fd op s = feed_gpr fd le64 id op (ea_x op s) s"

definition LWBRX :: "bool \<Rightarrow> ppu_opcode \<Rightarrow> ppu \<Rightarrow> ppu option" where
  "LWBRX fd op s = feed_gpr fd le32 ucast op (ea_x op s) s"

definition LHBRX :: "bool \<Rightarrow> ppu_opcode \<Rightarrow> ppu \<Rightarrow> ppu option" where
  "LHBRX fd op s = feed_gpr fd le16 ucast op (ea_x op s) s"

section \<open>Fixed-point stores\<close>

text \<open>\<open>STW\<close> also announces a reservation change for one magic value.\<close>

definition STW :: "ppu_opcode \<Rightarrow> ppu \<Rightarrow> ppu option" where
  "STW op s =
     (let addr = ea_d op s; value = ucast (gpr s (op_rs op)) :: u32
      in map_option (\<lambda>t. if value = 0xAAAAAAAA then t\<lparr>res_updates := res_updates t @ [ucast addr]\<rparr> else t)
           (ppu_write be32 addr value s))"

definition STDX :: "ppu_opcode \<Rightarrow> ppu \<Rightarrow> ppu option" where
  "STDX op s = ppu_write be64 (ea_x op s) (gpr s (op_rs op)) s"

definition STWX :: "ppu_opcode \<Rightarrow> ppu \<Rightarrow> ppu option" where
  "STWX op s = ppu_write be32 (ea_x op s) (ucast (gpr s (op_rs op))) s"

definition STBX :: "ppu_opcode \<Rightarrow> ppu \<Rightarrow> ppu option" where
  "STBX op s = ppu_write be8 (ea_x op s) (ucast (gpr s (op_rs op))) s"

definition STHX :: "ppu_opcode \<Rightarrow> ppu \<Rightarrow> ppu option" where
  "STHX op s = ppu_write be16 (ea_x op s) (ucast (gpr s (op_rs op))) s"

definition STDUX :: "ppu_opcode \<Rightarrow> ppu \<Rightarrow> ppu option" where
  "STDUX op s = (let addr = ea_xu op s in update_ra op addr (ppu_write be64 addr (gpr s (op_rs op)) s))"

definition STWUX :: "ppu_opcode \<Rightarrow> ppu \<Rightarrow> ppu option" where
  "STWUX op s = (let addr = ea_xu op s in update_ra op addr (ppu_write be32 addr (ucast (gpr s (op_rs op))) s))"

definition STBUX :: "ppu_opcode \<Rightarrow> ppu \<Rightarrow> ppu option" where
  "STBUX op s = (let addr = ea_xu op s in update_ra op addr (ppu_write be8 addr (ucast (gpr s (op_rs op))) s))"

definition STHUX :: "ppu_opcode \<Rightarrow> ppu \<Rightarrow> ppu option" where
  "STHUX op s = (let addr = ea_xu op s in update_ra op addr (ppu_write be16 addr (ucast (gpr s (op_rs op))) s))"

definition STB :: "ppu_opcode \<Rightarrow> ppu \<Rightarrow> ppu option" where
  "STB op s = ppu_write be8 (ea_d op s) (ucast (gpr s (op_rs op))) s"

definition STH :: "ppu_opcode \<Rightarrow> ppu \<Rightarrow> ppu option" where
  "STH op s = ppu_write be16 (ea_d op s) (ucast (gpr s (op_rs op))) s"

definition STWU :: "ppu_opcode \<Rightarrow> ppu \<Rightarrow> ppu option" where
  "STWU op s = (let addr = ea_d op s in update_ra op addr (ppu_write be32 addr (ucast (gpr s (op_rs op))) s))"

definition STBU :: "ppu_opcode \<Rightarrow> ppu \<Rightarrow> ppu option" where
  "STBU op s = (let addr = ea_d op s in update_ra op addr (ppu_write be8 addr (ucast (gpr s (op_rs op))) s))"

definition STHU :: "ppu_opcode \<Rightarrow> ppu \<Rightarrow> ppu option" where
  "STHU op s = (let addr = ea_d op s in update_ra op addr (ppu_write be16 addr (ucast (gpr s (op_rs op))) s))"

definition STD :: "ppu_opcode \<Rightarrow> ppu \<Rightarrow> ppu option" where
  "STD op s = ppu_write be64 (ea_ds op s) (gpr s (op_rs op)) s"

definition STDU :: "ppu_opcode \<Rightarrow> ppu \<Rightarrow> ppu option" where
  "STDU op s = (let addr = ea_dsu op s in update_ra op addr (ppu_write be64 addr (gpr s (op_rs op)) s))"

definition STDBRX :: "ppu_opcode \<Rightarrow> ppu \<Rightarrow> ppu option" where
  "STDBRX op s = ppu_write le64 (ea_x op s) (gpr s (op_rs op)) s"

definition STWBRX :: "ppu_opcode \<Rightarrow> ppu \<Rightarrow> ppu option" where
  "STWBRX op s = ppu_write le32 (ea_x op s) (ucast (gpr s (op_rs op))) s"

definition STHBRX :: "ppu_opcode \<Rightarrow> ppu \<Rightarrow> ppu option" where
  "STHBRX op s = ppu_write le16 (ea_x op s) (ucast (gpr s (op_rs op))) s"

section \<open>Floating-point transfers\<close>

definition LFD :: "bool \<Rightarrow> ppu_opcode \<Rightarrow> ppu \<Rightarrow> ppu option" where
  "LFD fd op s = feed_fpr fd op (ea_d op s) s"

definition LFDU :: "bool \<Rightarrow> ppu_opcode \<Rightarrow> ppu \<Rightarrow> ppu option" where
  "LFDU fd op s = (let addr = ea_d op s in update_ra op addr (feed_fpr fd op addr s))"

definition LFDX :: "bool \<Rightarrow> ppu_opcode \<Rightarrow> ppu \<Rightarrow> ppu option" where
  "LFDX fd op s = feed_fpr fd op (ea_x op s) s"

definition LFDUX :: "bool \<Rightarrow> ppu_opcode \<Rightarrow> ppu \<Rightarrow> ppu option" where
  "LFDUX fd op s = (let addr = ea_xu op s in update_ra op addr (feed_fpr fd op addr s))"

definition STFD :: "ppu_opcode \<Rightarrow> ppu \<Rightarrow> ppu option" where
  "STFD op s = ppu_write be64 (ea_d op s) (fpr s (op_frs op)) s"

definition STFDU :: "ppu_opcode \<Rightarrow> ppu \<Rightarrow> ppu option" where
  "STFDU op s = (let addr = ea_d op s in update_ra op addr (ppu_write be64 addr (fpr s (op_frs op)) s))"

definition STFDX :: "ppu_opcode \<Rightarrow> ppu \<Rightarrow> ppu option" where
  "STFDX op s = ppu_write be64 (ea_x op s) (fpr s (op_frs op)) s"

definition STFDUX :: "ppu_opcode \<Rightarrow> ppu \<Rightarrow> ppu option" where
  "STFDUX op s = (let addr = ea_xu op s in update_ra op addr (ppu_write be64 addr (fpr s (op_frs op)) s))"

definition STFIWX :: "ppu_opcode \<Rightarrow> ppu \<Rightarrow> ppu option" where
  "STFIWX op s = ppu_write be32 (ea_x op s) (ucast (fpr s (op_frs op))) s"

section \<open>Multiple and string transfers\<close>

text \<open>The loop of \<open>LMW\<close>: registers \<open>i\<close> to 31.\<close>

function lmw_loop :: "bool \<Rightarrow> nat \<Rightarrow> u64 \<Rightarrow> ppu \<Rightarrow> ppu option" where
  "lmw_loop fd i addr s =
     (if i < 32
      then case ppu_feed_data fd be32 s addr of
             None \<Rightarrow> None
           | Some (v, t) \<Rightarrow> lmw_loop fd (i + 1) (addr + 4) (put_gpr (of_nat i) (ucast v) t)
      else Some s)"
  by pat_completeness auto
termination by (relation "measure (\<lambda>(fd, i, addr, s). 32 - i)") auto

definition LMW :: "bool \<Rightarrow> ppu_opcode \<Rightarrow> ppu \<Rightarrow> ppu option" where
  "LMW fd op s = lmw_loop fd (unat (op_rd op)) (ea_d0 op s) s"

function stmw_loop :: "nat \<Rightarrow> u64 \<Rightarrow> ppu \<Rightarrow> ppu option" where
  "stmw_loop i addr s =
     (if i < 32
      then case ppu_write be32 addr (ucast (gpr s (of_nat i))) s of
             None \<Rightarrow> None
           | Some t \<Rightarrow> stmw_loop (i + 1) (addr + 4) t
      else Some s)"
  by pat_completeness auto
termination by (relation "measure (\<lambda>(i, addr, s). 32 - i)") auto

definition STMW :: "ppu_opcode \<Rightarrow> ppu \<Rightarrow> ppu option" where
  "STMW op s = stmw_loop (unat (op_rs op)) (ea_d0 op s) s"

text \<open>The tail of a string load: \<open>n < 4\<close> bytes from \<open>addr\<close>, placed from the top of the word down;
  \<open>i\<close> is the byte's place.\<close>

fun feed_tail :: "bool \<Rightarrow> nat \<Rightarrow> nat \<Rightarrow> u64 \<Rightarrow> u32 \<Rightarrow> ppu \<Rightarrow> (u32 \<times> ppu) option" where
  "feed_tail fd 0 i addr buf s = Some (buf, s)"
| "feed_tail fd (Suc n) i addr buf s =
     (case ppu_feed_data fd be8 s addr of
        None \<Rightarrow> None
      | Some (v, t) \<Rightarrow> feed_tail fd n (i - 1) (addr + 1) (buf OR push_bit (i * 8) (ucast v)) t)"

text \<open>The loop of \<open>LSWX\<close> and \<open>LSWI\<close>: whole words while four bytes are left, then the tail.\<close>

function lsw_loop :: "bool \<Rightarrow> nat \<Rightarrow> u64 \<Rightarrow> u32 \<Rightarrow> ppu \<Rightarrow> ppu option" where
  "lsw_loop fd n addr reg s =
     (if n > 3
      then case ppu_feed_data fd be32 s addr of
             None \<Rightarrow> None
           | Some (v, t) \<Rightarrow> lsw_loop fd (n - 4) (addr + 4) ((reg + 1) AND 31) (put_gpr reg (ucast v) t)
      else if n > 0
      then map_option (\<lambda>(buf, t). put_gpr reg (ucast buf) t) (feed_tail fd n 3 addr 0 s)
      else Some s)"
  by pat_completeness auto
termination by (relation "measure (\<lambda>(fd, n, addr, reg, s). n)") auto

definition LSWX :: "bool \<Rightarrow> ppu_opcode \<Rightarrow> ppu \<Rightarrow> ppu option" where
  "LSWX fd op s = lsw_loop fd (unat (xer_cnt s AND 0x7f)) (ea_x op s) (op_rd op) s"

definition string_addr :: "ppu_opcode \<Rightarrow> ppu \<Rightarrow> u64" where
  "string_addr op s = (if op_ra op \<noteq> 0 then gpr s (op_ra op) else 0)"

definition string_count :: "ppu_opcode \<Rightarrow> nat" where
  "string_count op = (if op_rb op \<noteq> 0 then unat (op_rb op) else 32)"

definition LSWI :: "bool \<Rightarrow> ppu_opcode \<Rightarrow> ppu \<Rightarrow> ppu option" where
  "LSWI fd op s = lsw_loop fd (string_count op) (string_addr op s) (op_rd op) s"

fun write_tail :: "nat \<Rightarrow> nat \<Rightarrow> u64 \<Rightarrow> u32 \<Rightarrow> ppu \<Rightarrow> ppu option" where
  "write_tail 0 i addr value s = Some s"
| "write_tail (Suc n) i addr value s =
     (case ppu_write be8 addr (ucast (drop_bit (i * 8) value)) s of
        None \<Rightarrow> None
      | Some t \<Rightarrow> write_tail n (i - 1) (addr + 1) value t)"

function stsw_loop :: "nat \<Rightarrow> u64 \<Rightarrow> u32 \<Rightarrow> ppu \<Rightarrow> ppu option" where
  "stsw_loop n addr reg s =
     (if n > 3
      then case ppu_write be32 addr (ucast (gpr s reg)) s of
             None \<Rightarrow> None
           | Some t \<Rightarrow> stsw_loop (n - 4) (addr + 4) ((reg + 1) AND 31) t
      else if n > 0 then write_tail n 3 addr (ucast (gpr s reg)) s
      else Some s)"
  by pat_completeness auto
termination by (relation "measure (\<lambda>(n, addr, reg, s). n)") auto

definition STSWX :: "ppu_opcode \<Rightarrow> ppu \<Rightarrow> ppu option" where
  "STSWX op s = stsw_loop (unat (xer_cnt s AND 0x7f)) (ea_x op s) (op_rs op) s"

definition STSWI :: "ppu_opcode \<Rightarrow> ppu \<Rightarrow> ppu option" where
  "STSWI op s = stsw_loop (string_count op) (string_addr op s) (op_rd op) s"

section \<open>Vector transfers\<close>

definition LVX :: "bool \<Rightarrow> ppu_opcode \<Rightarrow> ppu \<Rightarrow> ppu option" where
  "LVX fd op s = feed_vr fd op (ea_x op s AND NOT 0xf) s"

definition LVXL :: "bool \<Rightarrow> ppu_opcode \<Rightarrow> ppu \<Rightarrow> ppu option" where
  "LVXL fd op s = feed_vr fd op (ea_x op s AND NOT 0xf) s"

definition LVEBX :: "bool \<Rightarrow> ppu_opcode \<Rightarrow> ppu \<Rightarrow> ppu option" where
  "LVEBX fd op s = feed_vr fd op (ea_x op s AND NOT 0xf) s"

definition LVEHX :: "bool \<Rightarrow> ppu_opcode \<Rightarrow> ppu \<Rightarrow> ppu option" where
  "LVEHX fd op s = feed_vr fd op (ea_x op s AND NOT 0xf) s"

definition LVEWX :: "bool \<Rightarrow> ppu_opcode \<Rightarrow> ppu \<Rightarrow> ppu option" where
  "LVEWX fd op s = feed_vr fd op (ea_x op s AND NOT 0xf) s"

definition STVX :: "ppu_opcode \<Rightarrow> ppu \<Rightarrow> ppu option" where
  "STVX op s = ppu_write be128 (ea_x op s AND NOT 0xf) (vr s (op_vs op)) s"

definition STVXL :: "ppu_opcode \<Rightarrow> ppu \<Rightarrow> ppu option" where
  "STVXL op s = ppu_write be128 (ea_x op s AND NOT 0xf) (vr s (op_vs op)) s"

text \<open>One element of a vector register: \<open>_u8[15 - eb]\<close>, \<open>_u16[7 - eb]\<close>, \<open>_u32[3 - eb]\<close>.\<close>

definition STVEBX :: "ppu_opcode \<Rightarrow> ppu \<Rightarrow> ppu option" where
  "STVEBX op s =
     (let addr = ea_x op s; eb = unat (addr AND 0xf)
      in ppu_write be8 addr (ucast (drop_bit (8 * (15 - eb)) (vr s (op_vs op)))) s)"

definition STVEHX :: "ppu_opcode \<Rightarrow> ppu \<Rightarrow> ppu option" where
  "STVEHX op s =
     (let addr = ea_x op s AND NOT 1; eb = unat (drop_bit 1 (addr AND 0xf))
      in ppu_write be16 addr (ucast (drop_bit (16 * (7 - eb)) (vr s (op_vs op)))) s)"

definition STVEWX :: "ppu_opcode \<Rightarrow> ppu \<Rightarrow> ppu option" where
  "STVEWX op s =
     (let addr = ea_x op s AND NOT 3; eb = unat (drop_bit 2 (addr AND 0xf))
      in ppu_write be32 addr (ucast (drop_bit (32 * (3 - eb)) (vr s (op_vs op)))) s)"

text \<open>The permute controls for unaligned data: \<open>s_lvsl_consts\<close> and \<open>s_lvsr_consts\<close> add a constant
  to every byte of \<open>0x00..0x0f\<close>.\<close>

definition lvs_const :: "nat \<Rightarrow> u128" where
  "lvs_const k = be_dec (map (\<lambda>i. of_nat i + of_nat k) [0..<16])"

definition LVSL :: "ppu_opcode \<Rightarrow> ppu \<Rightarrow> ppu" where
  "LVSL op s = put_vr (op_vd op) (lvs_const (unat (ea_x op s mod 16))) s"

definition LVSR :: "ppu_opcode \<Rightarrow> ppu \<Rightarrow> ppu" where
  "LVSR op s = put_vr (op_vd op) (lvs_const (16 - unat (ea_x op s mod 16))) s"

definition LVLX :: "bool \<Rightarrow> ppu_opcode \<Rightarrow> ppu \<Rightarrow> ppu option" where
  "LVLX fd op s =
     (let addr = ea_x op s
      in map_option (\<lambda>(data, t). put_vr (op_vd op) (push_bit (unat (addr AND 15) * 8) data) t)
           (ppu_feed_data fd be128 s (addr AND - 16)))"

text \<open>For an aligned address \<open>LVRX\<close> reads the line of the instruction instead and shifts all of
  it out.\<close>

definition LVRX :: "bool \<Rightarrow> ppu_opcode \<Rightarrow> ppu \<Rightarrow> ppu option" where
  "LVRX fd op s =
     (let addr = ea_x op s
      in map_option (\<lambda>(data, t). put_vr (op_vd op) (drop_bit 8 (drop_bit (unat (NOT addr AND 15) * 8) data)) t)
           (ppu_feed_data fd be128 s ((if addr AND 15 = 0 then ucast (cia s) else addr) AND - 16)))"

definition LVLXL :: "bool \<Rightarrow> ppu_opcode \<Rightarrow> ppu \<Rightarrow> ppu option" where "LVLXL = LVLX"
definition LVRXL :: "bool \<Rightarrow> ppu_opcode \<Rightarrow> ppu \<Rightarrow> ppu option" where "LVRXL = LVRX"

text \<open>\<open>STVLX\<close> and \<open>STVRX\<close> copy bytes of the register in memory order (\<open>u8r\<close>) through a host
  pointer to \<open>addr\<close> and \<open>addr - 16\<close>.\<close>

definition STVLX :: "ppu_opcode \<Rightarrow> ppu \<Rightarrow> ppu option" where
  "STVLX op s =
     (let addr = ea_x op s; tail = unat (addr AND 15)
      in map_option (\<lambda>ptr. s\<lparr>vmem := fold (\<lambda>j m. m(ptr + of_nat j := be_enc 16 (vr s (op_vs op)) ! j)) [0..<16 - tail] (vmem s)\<rparr>)
           (vm_cast64 addr))"

definition STVRX :: "ppu_opcode \<Rightarrow> ppu \<Rightarrow> ppu option" where
  "STVRX op s =
     (let addr = ea_x op s; tail = unat (addr AND 15)
      in map_option (\<lambda>ptr. s\<lparr>vmem := fold (\<lambda>i m. m(ptr + of_nat i := be_enc 16 (vr s (op_vs op)) ! i)) (rev [16 - tail..<16]) (vmem s)\<rparr>)
           (vm_cast64 (addr - 16)))"

definition STVLXL :: "ppu_opcode \<Rightarrow> ppu \<Rightarrow> ppu option" where "STVLXL = STVLX"
definition STVRXL :: "ppu_opcode \<Rightarrow> ppu \<Rightarrow> ppu option" where "STVRXL = STVRX"

section \<open>Cache instructions\<close>

text \<open>\<open>DCBZ\<close> with the setting \<open>accurate_cache_line_stores\<close> off.\<close>

definition DCBZ :: "ppu_opcode \<Rightarrow> ppu \<Rightarrow> ppu option" where
  "DCBZ op s =
     map_option (\<lambda>a. s\<lparr>vmem := write_bytes (vmem s) (a AND NOT 127) (replicate 128 0)\<rparr>) (vm_cast64 (ea_x op s))"

text \<open>The hints and fences do nothing to the thread's state; \<open>ECIWX\<close> and \<open>ECOWX\<close> raise.\<close>

definition DCBST :: "ppu_opcode \<Rightarrow> ppu \<Rightarrow> ppu" where "DCBST op s = s"
definition DCBF :: "ppu_opcode \<Rightarrow> ppu \<Rightarrow> ppu" where "DCBF op s = s"
definition DCBTST :: "ppu_opcode \<Rightarrow> ppu \<Rightarrow> ppu" where "DCBTST op s = s"
definition DCBT :: "ppu_opcode \<Rightarrow> ppu \<Rightarrow> ppu" where "DCBT op s = s"
definition DST :: "ppu_opcode \<Rightarrow> ppu \<Rightarrow> ppu" where "DST op s = s"
definition DSTST :: "ppu_opcode \<Rightarrow> ppu \<Rightarrow> ppu" where "DSTST op s = s"
definition DCBI :: "ppu_opcode \<Rightarrow> ppu \<Rightarrow> ppu" where "DCBI op s = s"
definition DSS :: "ppu_opcode \<Rightarrow> ppu \<Rightarrow> ppu" where "DSS op s = s"
definition ICBI :: "ppu_opcode \<Rightarrow> ppu \<Rightarrow> ppu" where "ICBI op s = s"
definition SYNC :: "ppu_opcode \<Rightarrow> ppu \<Rightarrow> ppu" where "SYNC op s = s"
definition EIEIO :: "ppu_opcode \<Rightarrow> ppu \<Rightarrow> ppu" where "EIEIO op s = s"
definition ECIWX :: "ppu_opcode \<Rightarrow> ppu \<Rightarrow> ppu option" where "ECIWX op s = None"
definition ECOWX :: "ppu_opcode \<Rightarrow> ppu \<Rightarrow> ppu option" where "ECOWX op s = None"

section \<open>Transfers return what was stored\<close>

lemma le_codec_laws: "LENGTH('a) = 8 * n \<Longrightarrow> n \<le> 2 ^ 32 \<Longrightarrow> codec_laws (le_codec n :: 'a::len word codec)"
  by unfold_locales (auto simp: le_codec_def be_dec_enc be_enc_dec)

lemma csize_le [simp]: "csize (le_codec n) = n"
  by (simp add: le_codec_def)

interpretation be8: codec_laws be8 by (rule be_codec_laws) simp_all
interpretation be128: codec_laws be128 by (rule be_codec_laws) simp_all
interpretation le16: codec_laws le16 by (rule le_codec_laws) simp_all
interpretation le32: codec_laws le32 by (rule le_codec_laws) simp_all
interpretation le64: codec_laws le64 by (rule le_codec_laws) simp_all

text \<open>A load changes the thread only in that it may give up the reservation.\<close>

definition same_but_reservation :: "ppu \<Rightarrow> ppu \<Rightarrow> bool" where
  "same_but_reservation s t \<longleftrightarrow> (\<exists>r c. t = s\<lparr>raddr := r, res_cached := c\<rparr>)"

lemma same_but_reservation_simps [simp]:
  assumes "same_but_reservation s t"
  shows "gpr t = gpr s" "fpr t = fpr s" "vr t = vr s" "vmem t = vmem s" "cr_bits t = cr_bits s" "rdata t = rdata s"
    "xer_cnt t = xer_cnt s"
  using assms unfolding same_but_reservation_def by auto

lemma same_refl: "same_but_reservation s s" "same_but_reservation s (s\<lparr>raddr := r, res_cached := c\<rparr>)"
proof -
  have "s = s\<lparr>raddr := raddr s, res_cached := res_cached s\<rparr>" by simp
  then show "same_but_reservation s s" unfolding same_but_reservation_def by (intro exI)
  show "same_but_reservation s (s\<lparr>raddr := r, res_cached := c\<rparr>)" unfolding same_but_reservation_def by (intro exI) (rule refl)
qed

lemma feed_result:
  assumes "unat addr < 2 ^ 32"
  shows "\<exists>t. ppu_feed_data fd C s addr = Some (load C (vmem s) (ucast addr), t) \<and> same_but_reservation s t"
proof -
  have "vm_cast64 addr = Some (ucast addr)" using assms by (simp add: vm_cast64_def)
  then have "ppu_feed_data fd C s addr = Some (load C (vmem s) (ucast addr),
      if \<not> fd \<or> \<not> use_full_rdata s then s
      else if reservation_lost (unat addr) (csize C) s (ucast addr) then s\<lparr>raddr := 0, res_cached := 0\<rparr> else s)"
    by (simp add: ppu_feed_data_def Let_def)
  then show ?thesis by (simp add: same_refl)
qed

lemma feed_None: "\<not> unat addr < 2 ^ 32 \<Longrightarrow> ppu_feed_data fd C s addr = None"
  by (simp add: ppu_feed_data_def vm_cast64_def)

lemma ppu_write_cases:
  "ppu_write C addr v s = (if unat addr < 2 ^ 32 then Some (s\<lparr>vmem := store C (vmem s) (ucast addr) v\<rparr>) else None)"
  by (simp add: ppu_write_def vm_cast64_def)

lemma feed_gpr_result:
  "unat addr < 2 ^ 32 \<Longrightarrow> \<exists>t. feed_gpr fd C f op addr s = Some t \<and>
     gpr t = (gpr s)(op_rd op := f (load C (vmem s) (ucast addr))) \<and> vmem t = vmem s"
  using feed_result [of addr fd C s] by (auto simp: feed_gpr_def)

text \<open>Storing through \<open>S\<close> and then loading through \<open>L\<close> succeeds and gives the converted register.\<close>

definition gives_back :: "(ppu_opcode \<Rightarrow> ppu \<Rightarrow> ppu option) \<Rightarrow> (ppu_opcode \<Rightarrow> ppu \<Rightarrow> ppu option) \<Rightarrow>
    (u64 \<Rightarrow> u64) \<Rightarrow> ppu_opcode \<Rightarrow> ppu_opcode \<Rightarrow> ppu \<Rightarrow> bool" where
  "gives_back S L f st ld s \<longleftrightarrow>
     (\<exists>t u. S st s = Some t \<and> L ld t = Some u \<and> gpr u (op_rd ld) = f (gpr s (op_rs st)))"

lemma gives_backI:
  assumes "S st s = ppu_write C addr v s" "L ld (s\<lparr>vmem := store C (vmem s) (ucast addr) v\<rparr>) =
      feed_gpr fd D g ld addr (s\<lparr>vmem := store C (vmem s) (ucast addr) v\<rparr>)"
    and "unat addr < 2 ^ 32" "g (load D (store C (vmem s) (ucast addr) v) (ucast addr)) = f (gpr s (op_rs st))"
  shows "gives_back S L f st ld s"
proof -
  let ?t = "s\<lparr>vmem := store C (vmem s) (ucast addr) v\<rparr>"
  have t: "S st s = Some ?t" using assms(1,3) by (simp add: ppu_write_cases)
  from feed_gpr_result [OF assms(3), of fd D g ld ?t] obtain u where u: "L ld ?t = Some u"
      "gpr u = (gpr ?t)(op_rd ld := g (load D (vmem ?t) (ucast addr)))"
    unfolding assms(2) by (elim exE conjE)
  have "gpr u (op_rd ld) = f (gpr s (op_rs st))" unfolding u(2) using assms(4) by simp
  with t u(1) show ?thesis unfolding gives_back_def by (intro exI conjI)
qed

text \<open>The byte-reversed reading of a big-endian store.\<close>

definition bswap32 :: "u32 \<Rightarrow> u32" where
  "bswap32 w = be_dec (rev (be_enc 4 w))"

lemma load_reversed: "load le32 (store be32 m a v) a = bswap32 v"
  by (simp add: load_def store_def le_codec_def be_codec_def bswap32_def read_write_same)

lemmas indexed_defs = STBX_def LBZX_def STHX_def LHZX_def LHAX_def STWX_def LWZX_def LWAX_def STDX_def LDX_def
  STHBRX_def LHBRX_def STWBRX_def LWBRX_def STDBRX_def LDBRX_def

lemmas load_back = be8.load_store be16.load_store be32.load_store be64.load_store le16.load_store le32.load_store le64.load_store
  load_reversed

lemmas displacement_defs = STB_def LBZ_def STH_def LHZ_def LHA_def

text \<open>\<open>STW\<close> writes the word like the other stores; the reservation change it announces for one value
  leaves memory and registers alone.\<close>

lemma STW_result:
  assumes "unat (ea_d st s) < 2 ^ 32"
  shows "\<exists>t. STW st s = Some t \<and> vmem t = store be32 (vmem s) (ucast (ea_d st s)) (ucast (gpr s (op_rs st))) \<and> gpr t = gpr s \<and>
    res_updates t = res_updates s @ (if (ucast (gpr s (op_rs st)) :: u32) = 0xAAAAAAAA then [ucast (ea_d st s)] else [])"
  using assms by (simp add: STW_def Let_def ppu_write_cases)

lemma STW_LWZ:
  assumes "op_ra ld = op_ra st" "op_simm16 ld = op_simm16 st" "unat (ea_d st s) < 2 ^ 32"
  shows "gives_back STW (LWZ fd) (\<lambda>v. ucast (ucast v :: u32)) st ld s"
proof -
  from STW_result [OF assms(3)] obtain t where t: "STW st s = Some t" "gpr t = gpr s"
      "vmem t = store be32 (vmem s) (ucast (ea_d st s)) (ucast (gpr s (op_rs st)))" by (elim exE conjE)
  have "ea_d ld t = ea_d st s" using assms(1,2) t(2) by (simp add: ea_d_def)
  then have "LWZ fd ld t = feed_gpr fd be32 ucast ld (ea_d st s) t" by (simp add: LWZ_def)
  with feed_gpr_result [OF assms(3), of fd be32 ucast ld t] t show ?thesis
    by (auto simp: gives_back_def be32.load_store)
qed

lemma indexed_roundtrips:
  assumes "op_ra ld = op_ra st" "op_rb ld = op_rb st" "unat (ea_x st s) < 2 ^ 32"
  shows "gives_back STBX (LBZX fd) (\<lambda>v. ucast (ucast v :: u8)) st ld s \<and>
    gives_back STHX (LHZX fd) (\<lambda>v. ucast (ucast v :: u16)) st ld s \<and>
    gives_back STHX (LHAX fd) (\<lambda>v. scast (ucast v :: u16)) st ld s \<and>
    gives_back STWX (LWZX fd) (\<lambda>v. ucast (ucast v :: u32)) st ld s \<and>
    gives_back STWX (LWAX fd) (\<lambda>v. scast (ucast v :: u32)) st ld s \<and>
    gives_back STDX (LDX fd) (\<lambda>v. v) st ld s \<and>
    gives_back STHBRX (LHBRX fd) (\<lambda>v. ucast (ucast v :: u16)) st ld s \<and>
    gives_back STWBRX (LWBRX fd) (\<lambda>v. ucast (ucast v :: u32)) st ld s \<and>
    gives_back STDBRX (LDBRX fd) (\<lambda>v. v) st ld s \<and>
    gives_back STWX (LWBRX fd) (\<lambda>v. ucast (bswap32 (ucast v))) st ld s"
proof -
  have e: "ea_x ld (s\<lparr>vmem := m\<rparr>) = ea_x st s" for m using assms by (simp add: ea_x_def)
  show ?thesis
    by (intro conjI; rule gives_backI, unfold indexed_defs, rule refl, simp only: e, rule assms, simp only: load_back id_apply)
qed

lemma displacement_roundtrips:
  assumes "op_ra ld = op_ra st" "op_simm16 ld = op_simm16 st" "unat (ea_d st s) < 2 ^ 32"
  shows "gives_back STB (LBZ fd) (\<lambda>v. ucast (ucast v :: u8)) st ld s \<and>
    gives_back STH (LHZ fd) (\<lambda>v. ucast (ucast v :: u16)) st ld s \<and>
    gives_back STH (LHA fd) (\<lambda>v. scast (ucast v :: u16)) st ld s"
proof -
  have e: "ea_d ld (s\<lparr>vmem := m\<rparr>) = ea_d st s" for m using assms by (simp add: ea_d_def)
  show ?thesis
    by (intro conjI; rule gives_backI, unfold displacement_defs, rule refl, simp only: e, rule assms, simp only: load_back)
qed

lemma doubleword_roundtrip:
  assumes "op_ra ld = op_ra st" "op_simm16 ld AND NOT 3 = op_simm16 st AND NOT 3" "unat (ea_ds st s) < 2 ^ 32"
  shows "gives_back STD (LD fd) (\<lambda>v. v) st ld s"
proof -
  have e: "ea_ds ld (s\<lparr>vmem := m\<rparr>) = ea_ds st s" for m using assms by (simp add: ea_ds_def)
  show ?thesis
    by (rule gives_backI, unfold STD_def LD_def, rule refl, simp only: e, rule assms, simp only: load_back id_apply)
qed

text \<open>C22: what is stored is loaded back. A fixed-point store followed by the load of the same width
  at the same operands, in the indexed, the displacement and the doubleword form (those that do not update
  the base register), succeeds whenever the effective address of that form is a 32-bit one and
  returns the register cut to that width, zero- or sign-extended as the load says; the byte-reversed
  pairs agree too, and reading a word byte-reversed swaps its bytes. \<open>STW\<close> announces a reservation
  change at its address exactly for the value \<open>0xAAAAAAAA\<close>.\<close>

theorem store_load_roundtrip:
  assumes "op_ra ld = op_ra st"
  shows "(op_rb ld = op_rb st \<and> unat (ea_x st s) < 2 ^ 32 \<longrightarrow>
      gives_back STBX (LBZX fd) (\<lambda>v. ucast (ucast v :: u8)) st ld s \<and>
      gives_back STHX (LHZX fd) (\<lambda>v. ucast (ucast v :: u16)) st ld s \<and>
      gives_back STHX (LHAX fd) (\<lambda>v. scast (ucast v :: u16)) st ld s \<and>
      gives_back STWX (LWZX fd) (\<lambda>v. ucast (ucast v :: u32)) st ld s \<and>
      gives_back STWX (LWAX fd) (\<lambda>v. scast (ucast v :: u32)) st ld s \<and>
      gives_back STDX (LDX fd) (\<lambda>v. v) st ld s \<and>
      gives_back STHBRX (LHBRX fd) (\<lambda>v. ucast (ucast v :: u16)) st ld s \<and>
      gives_back STWBRX (LWBRX fd) (\<lambda>v. ucast (ucast v :: u32)) st ld s \<and>
      gives_back STDBRX (LDBRX fd) (\<lambda>v. v) st ld s \<and>
      gives_back STWX (LWBRX fd) (\<lambda>v. ucast (bswap32 (ucast v))) st ld s) \<and>
    (op_simm16 ld = op_simm16 st \<and> unat (ea_d st s) < 2 ^ 32 \<longrightarrow>
      gives_back STB (LBZ fd) (\<lambda>v. ucast (ucast v :: u8)) st ld s \<and>
      gives_back STH (LHZ fd) (\<lambda>v. ucast (ucast v :: u16)) st ld s \<and>
      gives_back STH (LHA fd) (\<lambda>v. scast (ucast v :: u16)) st ld s \<and>
      gives_back STW (LWZ fd) (\<lambda>v. ucast (ucast v :: u32)) st ld s \<and>
      (\<exists>t. STW st s = Some t \<and> res_updates t =
        res_updates s @ (if (ucast (gpr s (op_rs st)) :: u32) = 0xAAAAAAAA then [ucast (ea_d st s)] else []))) \<and>
    (op_simm16 ld AND NOT 3 = op_simm16 st AND NOT 3 \<and> unat (ea_ds st s) < 2 ^ 32 \<longrightarrow>
      gives_back STD (LD fd) (\<lambda>v. v) st ld s)"
  using indexed_roundtrips [OF assms, of s fd] displacement_roundtrips [OF assms, of s fd] doubleword_roundtrip [OF assms, of s fd]
    STW_LWZ [OF assms, of s fd] STW_result [of st s] by blast

theorem store_load_roundtrip_witness:
  "gives_back STHX (LHAX False) (\<lambda>v. scast (ucast v :: u16)) 0x7C60232E 0x7CA022AE (put_gpr 4 0x1000 (ppu_init (\<lambda>_. 0))) \<and>
   gives_back STW (LWZ False) (\<lambda>v. ucast (ucast v :: u32)) 0x90640010 0x80A40010 (put_gpr 4 0x1000 (ppu_init (\<lambda>_. 0)))"
proof -
  let ?s = "put_gpr 4 0x1000 (ppu_init (\<lambda>_. 0))"
  have f: "op_ra 0x7C60232E = 0" "op_rb 0x7C60232E = 4" "op_ra 0x7CA022AE = 0" "op_rb 0x7CA022AE = 4"
    "op_ra 0x90640010 = 4" "op_simm16 0x90640010 = 16" "op_ra 0x80A40010 = 4" "op_simm16 0x80A40010 = 16" by code_simp+
  then have "unat (ea_x 0x7C60232E ?s) < 2 ^ 32" "unat (ea_d 0x90640010 ?s) < 2 ^ 32"
    by (simp_all add: ea_x_def ea_d_def ppu_init_def)
  with f show ?thesis
    using store_load_roundtrip [of "0x7CA022AE" "0x7C60232E" ?s False] store_load_roundtrip [of "0x80A40010" "0x90640010" ?s False]
    by simp
qed

section \<open>Multiple and string transfers\<close>

declare lmw_loop.simps [simp del] stmw_loop.simps [simp del] lsw_loop.simps [simp del] stsw_loop.simps [simp del]

lemma ucast_add_32: "(ucast (x + y) :: u32) = ucast x + ucast y" for x y :: u64
  by (simp add: word_unat_eq_iff unat_word_ariths unsigned_ucast_eq take_bit_eq_mod mod_simps mod_mod_cancel)

lemma address_offset:
  fixes addr :: u64
  assumes "unat addr + n \<le> 2 ^ 32" "k < n"
  shows "unat (addr + of_nat k) = unat addr + k" "(ucast (addr + of_nat k) :: u32) = ucast addr + of_nat k"
proof -
  have k: "unat (of_nat k :: u64) = k" using assms by (intro unat_of_nat_less) simp
  then show "unat (addr + of_nat k) = unat addr + k" using assms by (simp add: unat_add_split)
  have "(ucast (of_nat k :: u64) :: u32) = of_nat k"
    using assms by (simp add: word_unat_eq_iff unsigned_ucast_eq k unat_of_nat take_bit_nat_eq_self)
  then show "(ucast (addr + of_nat k) :: u32) = ucast addr + of_nat k" by (simp only: ucast_add_32)
qed

lemma write_bytes_append:
  assumes "length bs + length cs \<le> 2 ^ 32"
  shows "write_bytes (write_bytes m a bs) (a + of_nat (length bs)) cs = write_bytes m a (bs @ cs)"
proof (cases "cs = []")
  case False
  then have "unat (of_nat (length bs) :: u32) = length bs"
    using assms by (intro unat_of_nat_less) (cases cs; simp)
  then have d: "unat (x - (a + of_nat (length bs))) =
      (if length bs \<le> unat (x - a) then unat (x - a) - length bs else unat (x - a) + 2 ^ 32 - length bs)" for x
    using unat_diff_split [of "x - a" "of_nat (length bs)"] unfolding diff_diff_add by simp
  show ?thesis
    unfolding write_bytes_def Let_def d using assms by (intro ext) (auto simp: nth_append)
qed simp

lemma read_bytes_4: "read_bytes m a (4 + n) = be_enc 4 (load be32 m a) @ read_bytes m (a + 4) n"
  unfolding read_bytes_append by (simp add: load_def be_codec_def be_enc_dec)

text \<open>The bytes a string store takes from the registers: four from each, from \<open>reg\<close> on, wrapping
  after 31.\<close>

fun reg_bytes :: "(u32 \<Rightarrow> u64) \<Rightarrow> nat \<Rightarrow> u32 \<Rightarrow> u8 list" where
  "reg_bytes g n reg = (if n > 3 then be_enc 4 (ucast (g reg) :: u32) @ reg_bytes g (n - 4) ((reg + 1) AND 31)
     else take n (be_enc 4 (ucast (g reg) :: u32)))"

declare reg_bytes.simps [simp del]

lemma length_reg_bytes [simp]: "length (reg_bytes g n reg) = n"
  by (induction g n reg rule: reg_bytes.induct) (subst reg_bytes.simps, simp)

lemma be_enc_4: "be_enc 4 w = [ucast (drop_bit 24 w), ucast (drop_bit 16 w), ucast (drop_bit 8 w), ucast (w :: u32)]"
  by (simp add: eval_nat_numeral)

lemma store_be8: "store be8 m a v = write_bytes m a [v]"
  by (simp add: store_def be_codec_def)

lemma write_tail_places:
  assumes "unat addr + n \<le> 2 ^ 32"
  shows "write_tail n i addr v s =
    Some (s\<lparr>vmem := write_bytes (vmem s) (ucast addr) (map (\<lambda>k. ucast (drop_bit ((i - k) * 8) v)) [0..<n])\<rparr>)"
  using assms
proof (induction n arbitrary: i addr s)
  case (Suc n)
  let ?b = "ucast (drop_bit (i * 8) v) :: u8" and ?bs = "map (\<lambda>k. ucast (drop_bit ((i - 1 - k) * 8) v) :: u8) [0..<n]"
  have a: "unat addr < 2 ^ 32" using Suc.prems by simp
  show ?case
  proof (cases n)
    case 0
    with a show ?thesis by (simp add: ppu_write_cases store_be8 [unfolded One_nat_def])
  next
    case (Suc n')
    have o: "unat (addr + 1) = unat addr + 1" "(ucast (addr + 1) :: u32) = ucast addr + 1"
      using address_offset [OF Suc.prems, of 1] Suc by simp_all
    have "write_tail n (i - 1) (addr + 1) v (s\<lparr>vmem := write_bytes (vmem s) (ucast addr) [?b]\<rparr>) =
        Some (s\<lparr>vmem := write_bytes (write_bytes (vmem s) (ucast addr) [?b]) (ucast addr + 1) ?bs\<rparr>)"
      using Suc.IH [of "addr + 1" "i - 1" "s\<lparr>vmem := write_bytes (vmem s) (ucast addr) [?b]\<rparr>"] Suc.prems o by simp
    moreover have "write_bytes (write_bytes (vmem s) (ucast addr) [?b]) (ucast addr + 1) ?bs =
        write_bytes (vmem s) (ucast addr) (?b # ?bs)"
      using write_bytes_append [of "[?b]" ?bs] Suc.prems by simp
    moreover have "map (\<lambda>k. ucast (drop_bit ((i - k) * 8) v) :: u8) [0..<Suc n] = ?b # ?bs"
      by (simp only: map_upt_Suc) simp
    ultimately show ?thesis using a by (simp only: write_tail.simps ppu_write_cases store_be8 if_True option.case)
  qed
qed simp

lemma write_tail_bytes:
  assumes "n \<le> 3" "unat addr + n \<le> 2 ^ 32"
  shows "write_tail n 3 addr v s = Some (s\<lparr>vmem := write_bytes (vmem s) (ucast addr) (take n (be_enc 4 v))\<rparr>)"
proof -
  have "be_enc 4 v = map (\<lambda>k. ucast (drop_bit ((3 - k) * 8) v)) [0..<4]"
    by (simp add: be_enc_4 upt_rec)
  then have "take n (be_enc 4 v) = map (\<lambda>k. ucast (drop_bit ((3 - k) * 8) v)) [0..<n]"
    using assms(1) by (simp add: take_map)
  with write_tail_places [OF assms(2), of 3 v s] show ?thesis by simp
qed

lemma stsw_bytes:
  "unat addr + n \<le> 2 ^ 32 \<Longrightarrow>
     stsw_loop n addr reg s = Some (s\<lparr>vmem := write_bytes (vmem s) (ucast addr) (reg_bytes (gpr s) n reg)\<rparr>)"
proof (induction n addr reg s rule: stsw_loop.induct)
  case (1 n addr reg s)
  show ?case
  proof (cases "n > 3")
    case True
    let ?w = "ucast (gpr s reg) :: u32" and ?reg = "(reg + 1) AND 31"
    let ?t = "s\<lparr>vmem := store be32 (vmem s) (ucast addr) ?w\<rparr>"
    have w: "ppu_write be32 addr ?w s = Some ?t" using 1(2) True by (simp add: ppu_write_cases)
    have b: "store be32 (vmem s) (ucast addr) ?w = write_bytes (vmem s) (ucast addr) (be_enc 4 ?w)"
      by (simp add: store_def be_codec_def)
    show ?thesis
    proof (cases "n = 4")
      case True
      with w b show ?thesis
        by (simp add: stsw_loop.simps [of 4] stsw_loop.simps [of 0] reg_bytes.simps [of _ 4] reg_bytes.simps [of _ 0])
    next
      case False
      then have o: "unat (addr + 4) = unat addr + 4" "(ucast (addr + 4) :: u32) = ucast addr + 4"
        using address_offset [OF 1(2), of 4] True by simp_all
      then have "stsw_loop (n - 4) (addr + 4) ?reg ?t =
          Some (?t\<lparr>vmem := write_bytes (vmem ?t) (ucast addr + 4) (reg_bytes (gpr s) (n - 4) ?reg)\<rparr>)"
        using 1(1) [OF True w] 1(2) True by simp
      moreover have "write_bytes (write_bytes (vmem s) (ucast addr) (be_enc 4 ?w)) (ucast addr + 4) (reg_bytes (gpr s) (n - 4) ?reg) =
          write_bytes (vmem s) (ucast addr) (be_enc 4 ?w @ reg_bytes (gpr s) (n - 4) ?reg)"
        using write_bytes_append [of "be_enc 4 ?w" "reg_bytes (gpr s) (n - 4) ?reg"] 1(2) True by simp
      ultimately show ?thesis using True w b by (subst stsw_loop.simps, subst reg_bytes.simps) simp
    qed
  next
    case False
    then show ?thesis
      using write_tail_bytes [of n addr "ucast (gpr s reg)" s] 1(2)
      by (subst stsw_loop.simps, subst reg_bytes.simps) simp
  qed
qed

lemma same_trans: "same_but_reservation s t \<Longrightarrow> same_but_reservation t u \<Longrightarrow> same_but_reservation s u"
  unfolding same_but_reservation_def by (elim exE) (intro exI, simp)

fun tail_value :: "nat \<Rightarrow> nat \<Rightarrow> mem \<Rightarrow> addr \<Rightarrow> u32 \<Rightarrow> u32" where
  "tail_value 0 i m a buf = buf"
| "tail_value (Suc n) i m a buf = tail_value n (i - 1) m (a + 1) (buf OR push_bit (i * 8) (ucast (m a)))"

lemma load_be8: "load be8 m a = m a"
  by (simp add: load_def be_codec_def be_dec_def read_bytes_def)

lemma feed_tail_value:
  "unat addr + n \<le> 2 ^ 32 \<Longrightarrow>
     \<exists>t. feed_tail fd n i addr buf s = Some (tail_value n i (vmem s) (ucast addr) buf, t) \<and> same_but_reservation s t"
proof (induction n arbitrary: i addr buf s)
  case 0
  then show ?case by (simp add: same_refl)
next
  case (Suc n)
  have "unat addr < 2 ^ 32" using Suc.prems by simp
  from feed_result [OF this, of fd be8 s] obtain t where t: "ppu_feed_data fd be8 s addr = Some (vmem s (ucast addr), t)"
    "same_but_reservation s t" unfolding load_be8 by (elim exE conjE)
  let ?buf = "buf OR push_bit (i * 8) (ucast (vmem s (ucast addr)))"
  have "\<exists>u. feed_tail fd n (i - 1) (addr + 1) ?buf t = Some (tail_value n (i - 1) (vmem s) (ucast addr + 1) ?buf, u) \<and>
      same_but_reservation t u"
  proof (cases n)
    case 0
    then show ?thesis by (simp add: same_refl)
  next
    case Suc': (Suc n')
    then have "unat (addr + 1) = unat addr + 1" "(ucast (addr + 1) :: u32) = ucast addr + 1"
      using address_offset [OF Suc.prems, of 1] by simp_all
    then show ?thesis using Suc.IH [of "addr + 1" "i - 1" ?buf t] Suc.prems t(2) by simp
  qed
  then obtain u where u: "feed_tail fd n (i - 1) (addr + 1) ?buf t = Some (tail_value n (i - 1) (vmem s) (ucast addr + 1) ?buf, u)"
    "same_but_reservation t u" by (elim exE conjE)
  have "feed_tail fd (Suc n) i addr buf s = Some (tail_value (Suc n) i (vmem s) (ucast addr) buf, u)"
    using t(1) u(1) by simp
  with same_trans [OF t(2) u(2)] show ?case by (intro exI conjI)
qed

lemma placed_bytes:
  fixes b0 b1 b2 :: u8
  defines "v \<equiv> push_bit 24 (ucast b0) OR push_bit 16 (ucast b1) OR push_bit 8 (ucast b2) :: u32"
  shows "ucast (drop_bit 24 v) = b0" "ucast (drop_bit 16 v) = b1" "ucast (drop_bit 8 v) = b2"
proof -
  have "\<not> bit b (8 + n)" "\<not> bit b (16 + n)" for b :: u8 and n by (auto dest: bit_imp_le_length)
  then show "ucast (drop_bit 24 v) = b0" "ucast (drop_bit 16 v) = b1" "ucast (drop_bit 8 v) = b2"
    unfolding v_def by (auto intro!: bit_word_eqI simp: bit_simps)
qed

lemma tail_value_bytes:
  assumes "0 < n" "n \<le> 3"
  shows "take n (be_enc 4 (tail_value n 3 m a 0)) = read_bytes m a n"
proof -
  have t: "tail_value (Suc 0) 3 m a 0 = push_bit 24 (ucast (m a)) OR push_bit 16 (ucast (0 :: u8)) OR push_bit 8 (ucast (0 :: u8))"
    "tail_value (Suc (Suc 0)) 3 m a 0 = push_bit 24 (ucast (m a)) OR push_bit 16 (ucast (m (a + 1))) OR push_bit 8 (ucast (0 :: u8))"
    "tail_value (Suc (Suc (Suc 0))) 3 m a 0 = push_bit 24 (ucast (m a)) OR push_bit 16 (ucast (m (a + 1))) OR push_bit 8 (ucast (m (a + 2)))"
    by (simp_all add: or.assoc add.commute)
  have r: "read_bytes m a (Suc 0) = [m a]" "read_bytes m a (Suc (Suc 0)) = [m a, m (a + 1)]"
    "read_bytes m a (Suc (Suc (Suc 0))) = [m a, m (a + 1), m (a + 2)]" by (simp_all add: read_bytes_def)
  consider "n = Suc 0" | "n = Suc (Suc 0)" | "n = Suc (Suc (Suc 0))" using assms by linarith
  then show ?thesis
    by cases (simp_all only: t r be_enc_4 placed_bytes take_Suc_Cons take_0)
qed

text \<open>Registers in cyclic order: how far \<open>r\<close> lies behind \<open>i\<close>.\<close>

definition reg_dist :: "nat \<Rightarrow> nat \<Rightarrow> nat" where
  "reg_dist i r = (if i \<le> r then r - i else r + 32 - i)"

lemma reg_dist_Suc:
  assumes "i < 32" "r < 32" "0 < reg_dist i r"
  shows "reg_dist ((i + 1) mod 32) r = reg_dist i r - 1"
proof (cases "i = 31")
  case False
  with assms(1) have "(i + 1) mod 32 = i + 1" by simp
  with assms show ?thesis by (auto simp: reg_dist_def split: if_splits)
qed (use assms in \<open>simp add: reg_dist_def split: if_splits\<close>)

lemma next_reg: "i < 32 \<Longrightarrow> ((of_nat i :: u32) + 1) AND 31 = of_nat ((i + 1) mod 32)"
proof -
  have "list_all (\<lambda>i. ((of_nat i :: u32) + 1) AND 31 = of_nat ((i + 1) mod 32)) [0..<32]" by code_simp
  then show "i < 32 \<Longrightarrow> ?thesis" by (simp add: list_all_iff)
qed

lemma lsw_tail:
  assumes "i < 32" "n \<le> 3" "unat addr + n \<le> 2 ^ 32"
  shows "\<exists>t. lsw_loop fd n addr (of_nat i) s = Some t \<and> vmem t = vmem s \<and>
    reg_bytes (gpr t) n (of_nat i) = read_bytes (vmem s) (ucast addr) n \<and>
    (\<forall>r<32. n \<le> 4 * reg_dist i r \<longrightarrow> gpr t (of_nat r) = gpr s (of_nat r))"
proof (cases "n = 0")
  case True
  then show ?thesis by (simp add: lsw_loop.simps [of _ 0] reg_bytes.simps [of _ 0])
next
  case False
  obtain t where t: "feed_tail fd n 3 addr 0 s = Some (tail_value n 3 (vmem s) (ucast addr) 0, t)" "same_but_reservation s t"
    using feed_tail_value [OF assms(3), of fd 3 0 s] by (elim exE conjE)
  let ?t = "put_gpr (of_nat i) (ucast (tail_value n 3 (vmem s) (ucast addr) 0)) t"
  have "lsw_loop fd n addr (of_nat i) s = Some ?t" using False assms(2) t(1) by (subst lsw_loop.simps) simp
  moreover have "reg_bytes (gpr ?t) n (of_nat i) = read_bytes (vmem s) (ucast addr) n"
    using False assms(2) tail_value_bytes [of n] by (subst reg_bytes.simps) (simp add: ucast_up_down)
  moreover have "gpr ?t (of_nat r) = gpr s (of_nat r)" if "r < 32" "n \<le> 4 * reg_dist i r" for r
    using that False assms(1) t(2) by (auto simp: small_of_nat_eq reg_dist_def)
  moreover have "vmem ?t = vmem s" using t(2) by simp
  ultimately show ?thesis by (intro exI conjI allI impI)
qed

text \<open>A string load leaves the registers behind its last one alone and puts the bytes of memory
  into the others.\<close>

lemma lsw_result:
  assumes "i < 32" "n \<le> 128" "unat addr + n \<le> 2 ^ 32"
  shows "\<exists>t. lsw_loop fd n addr (of_nat i) s = Some t \<and> vmem t = vmem s \<and>
    reg_bytes (gpr t) n (of_nat i) = read_bytes (vmem s) (ucast addr) n \<and>
    (\<forall>r<32. n \<le> 4 * reg_dist i r \<longrightarrow> gpr t (of_nat r) = gpr s (of_nat r))"
  using assms
proof (induction n arbitrary: i addr s rule: less_induct)
  case (less n)
  show ?case
  proof (cases "n > 3")
    case True
    let ?i = "(i + 1) mod 32"
    have "unat addr < 2 ^ 32" using less.prems True by simp
    from feed_result [OF this, of fd be32 s] obtain t where t: "ppu_feed_data fd be32 s addr = Some (load be32 (vmem s) (ucast addr), t)"
      "same_but_reservation s t" by (elim exE conjE)
    let ?w = "load be32 (vmem s) (ucast addr)" and ?t = "put_gpr (of_nat i) (ucast (load be32 (vmem s) (ucast addr))) t"
    have "\<exists>u. lsw_loop fd (n - 4) (addr + 4) (of_nat ?i) ?t = Some u \<and> vmem u = vmem s \<and>
        reg_bytes (gpr u) (n - 4) (of_nat ?i) = read_bytes (vmem s) (ucast addr + 4) (n - 4) \<and>
        (\<forall>r<32. n - 4 \<le> 4 * reg_dist ?i r \<longrightarrow> gpr u (of_nat r) = gpr ?t (of_nat r))"
    proof (cases "n = 4")
      case True
      then show ?thesis using t(2) by (simp add: lsw_loop.simps [of _ 0] reg_bytes.simps [of _ 0])
    next
      case False
      then have "unat (addr + 4) = unat addr + 4" "(ucast (addr + 4) :: u32) = ucast addr + 4"
        using address_offset [OF less.prems(3), of 4] True by simp_all
      then show ?thesis using less.IH [of "n - 4" ?i "addr + 4" ?t] less.prems True t(2) by simp
    qed
    then obtain u where u: "lsw_loop fd (n - 4) (addr + 4) (of_nat ?i) ?t = Some u" "vmem u = vmem s"
        "reg_bytes (gpr u) (n - 4) (of_nat ?i) = read_bytes (vmem s) (ucast addr + 4) (n - 4)"
      and keep: "\<And>r. r < 32 \<Longrightarrow> n - 4 \<le> 4 * reg_dist ?i r \<Longrightarrow> gpr u (of_nat r) = gpr ?t (of_nat r)"
      by (elim exE conjE) simp
    have l: "lsw_loop fd n addr (of_nat i) s = Some u"
      using True t(1) u(1) next_reg [OF less.prems(1)] by (subst lsw_loop.simps) simp
    have "reg_dist ?i i = 31" using less.prems(1) by (cases "i = 31") (simp_all add: reg_dist_def)
    then have "gpr u (of_nat i) = ucast ?w" using keep [of i] less.prems by simp
    then have b: "reg_bytes (gpr u) n (of_nat i) = read_bytes (vmem s) (ucast addr) n"
      using True u(3) next_reg [OF less.prems(1)] read_bytes_4 [of "vmem s" "ucast addr" "n - 4"]
      by (subst reg_bytes.simps) (simp add: ucast_up_down)
    have "gpr u (of_nat r) = gpr s (of_nat r)" if r: "r < 32" "n \<le> 4 * reg_dist i r" for r
    proof -
      have "0 < reg_dist i r" using r True by simp
      then have "n - 4 \<le> 4 * reg_dist ?i r" using reg_dist_Suc [OF less.prems(1) r(1)] r(2) by simp
      moreover have "r \<noteq> i" using \<open>0 < reg_dist i r\<close> by (auto simp: reg_dist_def)
      ultimately show ?thesis using keep [of r] r(1) less.prems(1) t(2) by (simp add: small_of_nat_eq)
    qed
    with l u(2) b show ?thesis by (intro exI [of _ u]) simp
  next
    case False
    then show ?thesis using lsw_tail [of i n addr fd s] less.prems by simp
  qed
qed

lemma lmw_as_string: "i \<le> 32 \<Longrightarrow> lmw_loop fd i addr s = lsw_loop fd (4 * (32 - i)) addr (of_nat i) s"
proof (induction "32 - i" arbitrary: i addr s)
  case 0
  then show ?case by (subst lmw_loop.simps, subst lsw_loop.simps) simp
next
  case (Suc k)
  then have i: "i < 32" "4 * (32 - i) - 4 = 4 * (32 - (i + 1))" by simp_all
  have "lsw_loop fd (4 * (32 - (i + 1))) a (of_nat ((i + 1) mod 32)) t = lsw_loop fd (4 * (32 - (i + 1))) a (of_nat (i + 1)) t" for a t
    using i by (cases "i = 31") (simp_all add: lsw_loop.simps [of _ 0])
  with Suc i show ?case
    by (subst lmw_loop.simps, subst lsw_loop.simps) (simp add: next_reg split: option.splits)
qed

lemma stmw_as_string: "i \<le> 32 \<Longrightarrow> stmw_loop i addr s = stsw_loop (4 * (32 - i)) addr (of_nat i) s"
proof (induction "32 - i" arbitrary: i addr s)
  case 0
  then show ?case by (subst stmw_loop.simps, subst stsw_loop.simps) simp
next
  case (Suc k)
  then have i: "i < 32" "4 * (32 - i) - 4 = 4 * (32 - (i + 1))" by simp_all
  have "stsw_loop (4 * (32 - (i + 1))) a (of_nat ((i + 1) mod 32)) t = stsw_loop (4 * (32 - (i + 1))) a (of_nat (i + 1)) t" for a t
    using i by (cases "i = 31") (simp_all add: stsw_loop.simps [of 0])
  with Suc i show ?case
    by (subst stmw_loop.simps, subst stsw_loop.simps) (simp add: next_reg split: option.splits)
qed

lemma reg_bytes_words:
  "i + k \<le> 32 \<Longrightarrow> j < k \<Longrightarrow> reg_bytes g (4 * k) (of_nat i) = reg_bytes h (4 * k) (of_nat i) \<Longrightarrow>
     (ucast (g (of_nat (i + j))) :: u32) = ucast (h (of_nat (i + j)))"
proof (induction k arbitrary: i j)
  case (Suc k)
  let ?w = "\<lambda>g. ucast (g (of_nat i :: u32) :: u64) :: u32"
  have n: "(of_nat i + 1 :: u32) AND 31 = of_nat ((i + 1) mod 32)" using Suc.prems(1) by (intro next_reg) simp
  have r: "reg_bytes f (4 * Suc k) (of_nat i) = be_enc 4 (?w f) @ reg_bytes f (4 * k) (of_nat ((i + 1) mod 32))" for f
    unfolding n [symmetric] by (subst reg_bytes.simps) simp
  have e: "be_enc 4 (?w g) = be_enc 4 (?w h) \<and>
      reg_bytes g (4 * k) (of_nat ((i + 1) mod 32)) = reg_bytes h (4 * k) (of_nat ((i + 1) mod 32))"
    using Suc.prems(3) unfolding r by (subst (asm) append_eq_append_conv) simp_all
  have "be_dec (be_enc 4 (?w g)) = ?w g" "be_dec (be_enc 4 (?w h)) = ?w h" by (simp_all add: be_dec_enc)
  with e have w: "?w g = ?w h" by metis
  show ?case
  proof (cases j)
    case 0
    with w show ?thesis by simp
  next
    case Suc': (Suc l)
    then have "(i + 1) mod 32 = i + 1" using Suc.prems by simp
    then show ?thesis using Suc.IH [of "i + 1" l] Suc.prems Suc' e by simp
  qed
qed simp

lemma reg_field_bound: "unat (op_rd op) < 32" "unat (op_rs op) < 32" "unat (op_rb op) < 32" "unat (op_ra op) < 32"
  using unat_ppu_bf [of 6 5 op] unat_ppu_bf [of 11 5 op] unat_ppu_bf [of 16 5 op]
  by (simp_all add: op_rd_def op_rs_def op_rb_def op_ra_def)

text \<open>C23: \<open>STMW\<close> and \<open>LMW\<close> save and restore registers. Storing from register \<open>i\<close> on succeeds when
  the whole block lies in the 32-bit space, and loading it again from the same address, in whatever
  state, succeeds, gives every register from \<open>i\<close> to 31 its low word back and leaves the others
  alone.\<close>

theorem multiple_save_restore:
  assumes "op_rd ld = op_rs st" "unat (ea_d0 st s) + 4 * (32 - unat (op_rs st)) \<le> 2 ^ 32"
  shows "\<exists>t. STMW st s = Some t \<and> (\<forall>u. vmem u = vmem t \<and> ea_d0 ld u = ea_d0 st s \<longrightarrow>
    (\<exists>w. LMW fd ld u = Some w \<and> (\<forall>r<32. if unat (op_rs st) \<le> r then (ucast (gpr w (of_nat r)) :: u32) = ucast (gpr s (of_nat r))
      else gpr w (of_nat r) = gpr u (of_nat r))))"
proof -
  let ?i = "unat (op_rs st)" and ?a = "ea_d0 st s" and ?n = "4 * (32 - unat (op_rs st))"
  let ?t = "s\<lparr>vmem := write_bytes (vmem s) (ucast ?a) (reg_bytes (gpr s) ?n (op_rs st))\<rparr>"
  have i: "?i < 32" "(of_nat ?i :: u32) = op_rs st" using reg_field_bound by simp_all
  have n: "?n \<le> 128" by simp
  have t: "STMW st s = Some ?t" unfolding STMW_def using i assms(2) by (simp add: stmw_as_string stsw_bytes)
  have "\<exists>w. LMW fd ld u = Some w \<and> (\<forall>r<32. if ?i \<le> r then (ucast (gpr w (of_nat r)) :: u32) = ucast (gpr s (of_nat r))
      else gpr w (of_nat r) = gpr u (of_nat r))" if u: "vmem u = vmem ?t" "ea_d0 ld u = ?a" for u
  proof -
    obtain w where w: "lsw_loop fd ?n ?a (of_nat ?i) u = Some w"
        "reg_bytes (gpr w) ?n (of_nat ?i) = read_bytes (vmem u) (ucast ?a) ?n"
        "\<forall>r<32. ?n \<le> 4 * reg_dist ?i r \<longrightarrow> gpr w (of_nat r) = gpr u (of_nat r)"
      using lsw_result [OF i(1) n assms(2), of fd u] by (elim exE conjE)
    have "reg_bytes (gpr w) ?n (of_nat ?i) = reg_bytes (gpr s) ?n (of_nat ?i)"
      using w(2) unfolding u(1) i(2) by (simp add: read_write_same)
    then have "?i \<le> r \<Longrightarrow> r < 32 \<Longrightarrow> (ucast (gpr w (of_nat r)) :: u32) = ucast (gpr s (of_nat r))" for r
      using reg_bytes_words [of ?i "32 - ?i" "r - ?i" "gpr w" "gpr s"] i(1) by simp
    moreover have "r < ?i \<Longrightarrow> gpr w (of_nat r) = gpr u (of_nat r)" for r using w(3) i(1) by (simp add: reg_dist_def)
    moreover have "LMW fd ld u = Some w" unfolding LMW_def u(2) assms(1) using w(1) i by (simp add: lmw_as_string)
    ultimately show ?thesis by (intro exI [of _ w]) simp
  qed
  with t show ?thesis by (intro exI [of _ ?t]) blast
qed

theorem multiple_save_restore_witness:
  "\<exists>t w. STMW 0xBFC40000 (put_gpr 30 7 (put_gpr 4 0x1000 (ppu_init (\<lambda>_. 0)))) = Some t \<and>
     LMW False 0xBBC40000 (put_gpr 30 9 t) = Some w \<and> (ucast (gpr w 30) :: u32) = 7"
proof -
  let ?s = "put_gpr 30 7 (put_gpr 4 0x1000 (ppu_init (\<lambda>_. 0)))"
  have f: "op_rd 0xBBC40000 = 30" "op_rs 0xBFC40000 = 30" "op_ra 0xBBC40000 = 4" "op_ra 0xBFC40000 = 4"
    "op_simm16 0xBBC40000 = 0" "op_simm16 0xBFC40000 = 0" by code_simp+
  have a: "ea_d0 0xBFC40000 ?s = 0x1000" by (simp add: ea_d0_def f)
  obtain t where t: "STMW 0xBFC40000 ?s = Some t" and l: "\<And>u. vmem u = vmem t \<and> ea_d0 0xBBC40000 u = 0x1000 \<Longrightarrow>
    (\<exists>w. LMW False 0xBBC40000 u = Some w \<and> (\<forall>r<32. if 30 \<le> r then (ucast (gpr w (of_nat r)) :: u32) = ucast (gpr ?s (of_nat r))
      else gpr w (of_nat r) = gpr u (of_nat r)))"
    using multiple_save_restore [of "0xBBC40000" "0xBFC40000" ?s False] by (auto simp: f a)
  have "gpr t = gpr ?s" using t stmw_as_string [of 30 "0x1000" ?s] stsw_bytes [of "0x1000" 8 30 ?s] by (auto simp: STMW_def f a)
  then have "ea_d0 0xBBC40000 (put_gpr 30 9 t) = 0x1000" by (simp add: ea_d0_def f)
  with l [of "put_gpr 30 9 t"] obtain w where w: "LMW False 0xBBC40000 (put_gpr 30 9 t) = Some w"
    "\<forall>r<32. if 30 \<le> r then (ucast (gpr w (of_nat r)) :: u32) = ucast (gpr ?s (of_nat r)) else gpr w (of_nat r) = gpr (put_gpr 30 9 t) (of_nat r)"
    by auto
  from w(2) [rule_format, of 30] have "(ucast (gpr w 30) :: u32) = 7" by simp
  with t w(1) show ?thesis by blast
qed

lemma feed_keeps_count: "ppu_feed_data fd C s addr = Some (v, t) \<Longrightarrow> xer_cnt t = xer_cnt s"
  by (auto simp: ppu_feed_data_def Let_def split: option.splits if_splits)

lemma feed_tail_keeps_count: "feed_tail fd n i addr buf s = Some (v, t) \<Longrightarrow> xer_cnt t = xer_cnt s"
proof (induction n arbitrary: i addr buf s)
  case (Suc n)
  then show ?case by (auto split: option.splits dest: feed_keeps_count)
qed simp

lemma lsw_keeps_count: "lsw_loop fd n addr reg s = Some t \<Longrightarrow> xer_cnt t = xer_cnt s"
proof (induction fd n addr reg s rule: lsw_loop.induct)
  case (1 fd n addr reg s)
  have p: "xer_cnt (put_gpr r v u) = xer_cnt u" for r v u by (simp add: put_gpr_def)
  show ?case
  proof (cases "n > 3")
    case True
    then obtain v u where u: "ppu_feed_data fd be32 s addr = Some (v, u)"
      and l: "lsw_loop fd (n - 4) (addr + 4) ((reg + 1) AND 31) (put_gpr reg (ucast v) u) = Some t"
      using 1(2) by (subst (asm) lsw_loop.simps) (auto split: option.splits)
    from 1(1) [OF True u refl l] feed_keeps_count [OF u] show ?thesis by (simp add: p)
  next
    case False
    with 1(2) show ?thesis
      by (subst (asm) lsw_loop.simps) (auto simp: p split: if_splits dest: feed_tail_keeps_count)
  qed
qed

lemma copy_loops:
  assumes "i < 32" "n \<le> 128" "unat a + n \<le> 2 ^ 32"
  shows "\<exists>t. lsw_loop fd n a (of_nat i) s = Some t \<and> (\<forall>b. unat b + n \<le> 2 ^ 32 \<longrightarrow>
    (\<exists>u. stsw_loop n b (of_nat i) t = Some u \<and> vmem u = memcpy (vmem s) (ucast b) (ucast a) n))"
proof -
  obtain t where t: "lsw_loop fd n a (of_nat i) s = Some t" "vmem t = vmem s"
      "reg_bytes (gpr t) n (of_nat i) = read_bytes (vmem s) (ucast a) n"
    using lsw_result [OF assms, of fd s] by (elim exE conjE)
  have "stsw_loop n b (of_nat i) t = Some (t\<lparr>vmem := memcpy (vmem s) (ucast b) (ucast a) n\<rparr>)" if "unat b + n \<le> 2 ^ 32" for b
    using stsw_bytes [OF that, of "of_nat i" t] unfolding t(2,3) memcpy_def .
  with t(1) show ?thesis by auto
qed

text \<open>C24: string instructions copy memory. For any byte count an \<open>LSWI\<close> followed by an \<open>STSWI\<close> of
  the same count and first register is a \<open>memcpy\<close> of exactly that many bytes, also when the copy
  wraps from register 31 to 0 and for counts that are no multiple of four, whenever the source and, after
  the load, the destination lie in the 32-bit address space; the same holds, under the same condition
  on its own operands, for \<open>LSWX\<close> and \<open>STSWX\<close> with the count in the XER, up to its maximum of 127.\<close>

theorem string_copy:
  assumes "op_rd st = op_rd ld"
  shows "(string_count st = string_count ld \<and> unat (string_addr ld s) + string_count ld \<le> 2 ^ 32 \<longrightarrow>
        (\<exists>t. LSWI fd ld s = Some t \<and> (unat (string_addr st t) + string_count ld \<le> 2 ^ 32 \<longrightarrow>
          (\<exists>u. STSWI st t = Some u \<and>
            vmem u = memcpy (vmem s) (ucast (string_addr st t)) (ucast (string_addr ld s)) (string_count ld))))) \<and>
      (unat (ea_x ld s) + unat (xer_cnt s AND 0x7f) \<le> 2 ^ 32 \<longrightarrow>
        (\<exists>t. LSWX fd ld s = Some t \<and> (unat (ea_x st t) + unat (xer_cnt s AND 0x7f) \<le> 2 ^ 32 \<longrightarrow>
          (\<exists>u. STSWX st t = Some u \<and>
            vmem u = memcpy (vmem s) (ucast (ea_x st t)) (ucast (ea_x ld s)) (unat (xer_cnt s AND 0x7f))))))"
proof -
  let ?i = "unat (op_rd ld)" and ?n = "unat (xer_cnt s AND 0x7f)"
  have i: "?i < 32" "(of_nat ?i :: u32) = op_rd ld" by (simp_all add: reg_field_bound)
  have rs: "op_rs st = op_rd ld" using assms by (simp add: op_rs_def op_rd_def)
  have c: "string_count ld \<le> 128" using reg_field_bound(3) [of ld] by (simp add: string_count_def)
  have m: "(0x7f :: u8) = mask 7" by (simp add: mask_eq_exp_minus_1)
  have "?n = take_bit 7 (unat (xer_cnt s))"
    unfolding m by (simp only: take_bit_eq_mask [symmetric] unsigned_take_bit_eq)
  then have n: "?n \<le> 128" using take_bit_nat_less_exp [of 7 "unat (xer_cnt s)"] by simp
  show ?thesis
  proof (intro conjI impI; (elim conjE)?)
    assume "string_count st = string_count ld" and a: "unat (string_addr ld s) + string_count ld \<le> 2 ^ 32"
    then show "\<exists>t. LSWI fd ld s = Some t \<and> (unat (string_addr st t) + string_count ld \<le> 2 ^ 32 \<longrightarrow>
        (\<exists>u. STSWI st t = Some u \<and>
          vmem u = memcpy (vmem s) (ucast (string_addr st t)) (ucast (string_addr ld s)) (string_count ld)))"
      using copy_loops [OF i(1) c a, of fd s] unfolding i(2) LSWI_def STSWI_def assms by auto
  next
    assume a: "unat (ea_x ld s) + ?n \<le> 2 ^ 32"
    show "\<exists>t. LSWX fd ld s = Some t \<and> (unat (ea_x st t) + ?n \<le> 2 ^ 32 \<longrightarrow>
        (\<exists>u. STSWX st t = Some u \<and> vmem u = memcpy (vmem s) (ucast (ea_x st t)) (ucast (ea_x ld s)) ?n))"
      using copy_loops [OF i(1) n a, of fd s] lsw_keeps_count [of fd ?n "ea_x ld s" "op_rd ld" s]
      unfolding i(2) LSWX_def STSWX_def rs by auto
  qed
qed

theorem string_copy_witness:
  "\<exists>t u. LSWI False 0x7CA42CAA ((ppu_init (\<lambda>a. ucast a))\<lparr>gpr := (\<lambda>_. 0)(4 := 0x1001, 10 := 0x2000)\<rparr>) = Some t \<and>
     STSWI 0x7CAA2DAA t = Some u \<and> vmem u = memcpy (\<lambda>a. ucast a) (ucast (string_addr 0x7CAA2DAA t)) 0x1001 5"
proof -
  let ?s = "(ppu_init (\<lambda>a. ucast a))\<lparr>gpr := (\<lambda>_. 0)(4 := 0x1001, 10 := 0x2000)\<rparr>"
  have f: "op_rd 0x7CA42CAA = 5" "op_rd 0x7CAA2DAA = 5" "op_rb 0x7CA42CAA = 5" "op_rb 0x7CAA2DAA = 5" "op_ra 0x7CA42CAA = 4"
    "op_ra 0x7CAA2DAA = 10" by code_simp+
  have a: "string_addr 0x7CA42CAA ?s = 0x1001" "string_count 0x7CA42CAA = 5" "string_count 0x7CAA2DAA = 5"
    "vmem ?s = (\<lambda>a. ucast a)"
    by (simp_all add: string_addr_def string_count_def f ppu_init_def)
  have h: "op_rd 0x7CAA2DAA = op_rd 0x7CA42CAA" "string_count 0x7CAA2DAA = string_count 0x7CA42CAA"
    "unat (string_addr 0x7CA42CAA ?s) + string_count 0x7CA42CAA \<le> 2 ^ 32" by (simp_all only: a f, simp_all)
  have u: "(ucast (0x1001 :: u64) :: u32) = 0x1001" by simp
  from string_copy [OF h(1), of ?s False, THEN conjunct1, rule_format, OF conjI [OF h(2,3)], unfolded a u] obtain t where t: "LSWI False 0x7CA42CAA ?s = Some t"
      "unat (string_addr 0x7CAA2DAA t) + 5 \<le> 2 ^ 32 \<longrightarrow>
      (\<exists>u. STSWI 0x7CAA2DAA t = Some u \<and> vmem u = memcpy (\<lambda>a. ucast a) (ucast (string_addr 0x7CAA2DAA t)) 0x1001 5)"
    by (elim exE conjE)
  have "(5 :: nat) < 32" "(5 :: nat) \<le> 128" "unat (0x1001 :: u64) + 5 \<le> 2 ^ 32" by simp_all
  from lsw_result [OF this, of False ?s] obtain t' where t': "lsw_loop False 5 0x1001 (of_nat 5) ?s = Some t'"
    and k: "\<forall>r<32. 5 \<le> 4 * reg_dist 5 r \<longrightarrow> gpr t' (of_nat r) = gpr ?s (of_nat r)" by (elim exE conjE)
  have "LSWI False 0x7CA42CAA ?s = lsw_loop False 5 0x1001 (of_nat 5) ?s" unfolding LSWI_def a f by simp
  with t(1) t' have "t = t'" by (simp only: option.inject)
  with k [rule_format, of 10] have "gpr t 10 = 0x2000" by (simp add: reg_dist_def)
  then have "string_addr 0x7CAA2DAA t = 0x2000" unfolding string_addr_def f by simp
  then have "unat (string_addr 0x7CAA2DAA t) + 5 \<le> 2 ^ 32" by simp
  with t(2) obtain u where "STSWI 0x7CAA2DAA t = Some u" "vmem u = memcpy (\<lambda>a. ucast a) (ucast (string_addr 0x7CAA2DAA t)) 0x1001 5"
    by (elim impE exE conjE)
  with t(1) show ?thesis by (intro exI conjI)
qed

section \<open>Unaligned vectors\<close>

lemma fold_bytes:
  fixes p x :: addr
  assumes "\<forall>i\<in>set is. i < 2 ^ 32"
  shows "fold (\<lambda>i m. m(p + of_nat i := f i)) is m x = (if unat (x - p) \<in> set is then f (unat (x - p)) else m x)"
  using assms
proof (induction "is" arbitrary: m)
  case (Cons i "is")
  have "x = p + of_nat i \<longleftrightarrow> unat (x - p) = i"
  proof
    assume "unat (x - p) = i"
    then have "of_nat i = x - p" by auto
    then show "x = p + of_nat i" by (simp add: algebra_simps)
  qed (use Cons.prems in simp)
  with Cons show ?case by auto
qed simp

lemma be_dec_append: "be_dec (xs @ ys) = push_bit (8 * length ys) (be_dec xs) OR (be_dec ys :: 'a::len word)"
proof (induction ys rule: rev_induct)
  case (snoc b ys)
  have "be_dec (xs @ ys @ [b]) = push_bit 8 (be_dec (xs @ ys)) OR (ucast b :: 'a word)"
    by (simp add: be_dec_def)
  also have "\<dots> = push_bit (8 * length (ys @ [b])) (be_dec xs) OR be_dec (ys @ [b])"
    unfolding snoc.IH by (simp add: be_dec_def push_bit_or or.assoc add.commute)
  finally show ?case .
qed (simp add: be_dec_def)

lemma bit_be_dec: "bit (be_dec ys :: 'a::len word) k \<Longrightarrow> k < 8 * length ys"
proof (induction ys arbitrary: k rule: rev_induct)
  case (snoc b ys)
  have "be_dec (ys @ [b]) = push_bit 8 (be_dec ys) OR (ucast b :: 'a word)" by (simp add: be_dec_def)
  with snoc.prems have "8 \<le> k \<and> bit (be_dec ys :: 'a word) (k - 8) \<or> bit b k" by (auto simp: bit_simps)
  with snoc.IH [of "k - 8"] show ?case by (auto dest: bit_imp_le_length)
qed (simp add: be_dec_def)

lemma be_dec_halves:
  assumes "length xs = 16" "length ys = 16" "t \<le> 16"
  shows "push_bit (t * 8) (be_dec xs) OR drop_bit ((16 - t) * 8) (be_dec ys) = (be_dec (drop t xs @ take t ys) :: u128)"
proof -
  have x: "be_dec xs = push_bit (8 * (16 - t)) (be_dec (take t xs)) OR (be_dec (drop t xs) :: u128)"
    using be_dec_append [of "take t xs" "drop t xs"] assms by simp
  have y: "be_dec ys = push_bit (8 * (16 - t)) (be_dec (take t ys)) OR (be_dec (drop t ys) :: u128)"
    using be_dec_append [of "take t ys" "drop t ys"] assms by simp
  have "push_bit (t * 8) (be_dec xs) = push_bit (8 * t) (be_dec (drop t xs) :: u128)"
    unfolding x mult.commute [of t 8] using assms(3) by (intro bit_word_eqI) (auto simp: bit_simps)
  moreover have "drop_bit ((16 - t) * 8) (be_dec ys) = (be_dec (take t ys) :: u128)"
  proof -
    have "\<not> bit (be_dec (drop t ys) :: u128) ((16 - t) * 8 + n)" for n
      using bit_be_dec [of "drop t ys" "(16 - t) * 8 + n"] assms by auto
    moreover have "(16 - t) * 8 + n < 128" if "bit (be_dec (take t ys) :: u128) n" for n
      using bit_be_dec [OF that] assms by auto
    ultimately show ?thesis unfolding y mult.commute [of 8] by (intro bit_word_eqI) (auto simp: bit_simps)
  qed
  ultimately show ?thesis using be_dec_append [where ?'a = 128, of "drop t xs" "take t ys"] assms by (simp add: mult.commute)
qed

lemma line_offset:
  fixes addr :: u64
  assumes "unat addr < 2 ^ 32"
  defines "t \<equiv> unat (addr AND 15)"
  shows "t < 16" "unat (addr AND - 16) = unat addr - t" "t \<le> unat addr" "(ucast addr :: u32) = ucast (addr AND - 16) + of_nat t"
    "unat (NOT addr AND 15) = 15 - t"
proof -
  have m: "(15 :: u64) = mask 4" "(- 16 :: u64) = NOT (mask 4)" by (simp_all add: mask_eq_exp_minus_1 not_eq_complement)
  have t: "t = unat addr mod 16" unfolding t_def m unat_and_mask by simp
  then show "t < 16" "t \<le> unat addr" by simp_all
  have s: "(addr AND - 16) + (addr AND 15) = addr"
    unfolding m by (subst disjunctive_add) (auto simp: bit_simps intro!: bit_word_eqI)
  then have d: "addr AND - 16 = addr - (addr AND 15)" by (simp add: eq_diff_eq)
  have "addr AND 15 \<le> addr" using t by (simp add: word_le_nat_alt t_def)
  then show "unat (addr AND - 16) = unat addr - t" unfolding d t_def by (rule unat_sub)
  have "(ucast addr :: u32) = ucast (addr AND - 16) + ucast (addr AND 15)" by (simp only: s flip: ucast_add_32)
  then show "(ucast addr :: u32) = ucast (addr AND - 16) + of_nat t" by (simp add: t_def)
  have "(NOT addr AND 15) + (addr AND 15) = 15"
    unfolding m by (subst disjunctive_add) (auto simp: bit_simps intro!: bit_word_eqI)
  then have n: "NOT addr AND 15 = 15 - (addr AND 15)" by (simp add: eq_diff_eq)
  have "addr AND 15 \<le> 15" using \<open>t < 16\<close> by (simp add: word_le_nat_alt t_def)
  then show "unat (NOT addr AND 15) = 15 - t" unfolding n t_def by (simp add: unat_sub)
qed

lemma read_bytes_window:
  "t \<le> 16 \<Longrightarrow> drop t (read_bytes m q 16) @ take t (read_bytes m (q + 16) 16) = read_bytes m (q + of_nat t) 16"
proof (rule nth_equalityI)
  fix i assume t: "t \<le> 16" and "i < length (drop t (read_bytes m q 16) @ take t (read_bytes m (q + 16) 16))"
  then have i: "i < 16" by simp
  show "(drop t (read_bytes m q 16) @ take t (read_bytes m (q + 16) 16)) ! i = read_bytes m (q + of_nat t) 16 ! i"
  proof (cases "i < 16 - t")
    case True
    with t i show ?thesis by (simp add: nth_append add.assoc)
  next
    case False
    then have "(of_nat (i - (16 - t)) :: u32) = of_nat t + of_nat i - 16" using t i by (simp add: of_nat_diff)
    with False t i show ?thesis by (simp add: nth_append add.assoc add.commute [of "of_nat i"])
  qed
qed simp

lemma next_line:
  fixes addr :: u64
  assumes "unat addr + 32 \<le> 2 ^ 32"
  shows "(addr + 16) AND 15 = addr AND 15" "(addr + 16) AND - 16 = (addr AND - 16) + 16" "unat (addr + 16) = unat addr + 16"
proof -
  have m: "(15 :: u64) = mask 4" "(- 16 :: u64) = NOT (mask 4)" by (simp_all add: mask_eq_exp_minus_1 not_eq_complement)
  show u: "unat (addr + 16) = unat addr + 16" using assms by (simp add: unat_add_split)
  show l: "(addr + 16) AND 15 = addr AND 15" unfolding word_unat_eq_iff m unat_and_mask u by simp
  have s: "a AND - 16 = a - (a AND 15)" for a :: u64
  proof -
    have "(a AND - 16) + (a AND 15) = a"
      unfolding m by (subst disjunctive_add) (auto simp: bit_simps intro!: bit_word_eqI)
    then show ?thesis by (simp add: eq_diff_eq)
  qed
  have "(addr + 16) AND - 16 = addr + 16 - (addr AND 15)" using s [of "addr + 16"] unfolding l .
  also have "\<dots> = (addr - (addr AND 15)) + 16" by simp
  finally show "(addr + 16) AND - 16 = (addr AND - 16) + 16" by (simp only: s [of addr])
qed

lemma left_load:
  assumes "unat (ea_x opl s) < 2 ^ 32"
  shows "\<exists>t. LVLX fd opl s = Some t \<and> gpr t = gpr s \<and> vmem t = vmem s \<and> vr t =
    (vr s)(op_vd opl := push_bit (unat (ea_x opl s AND 15) * 8) (load be128 (vmem s) (ucast (ea_x opl s AND - 16))))"
proof -
  have "unat (ea_x opl s AND - 16) < 2 ^ 32" using line_offset(2) [OF assms] assms by simp
  from feed_result [OF this, of fd be128 s] show ?thesis by (auto simp: LVLX_def Let_def put_vr_def)
qed

lemma right_load:
  assumes "ea_x opr s = A + 16" "unat A + 32 \<le> 2 ^ 32"
  shows "\<exists>u. LVRX fd opr s = Some u \<and> vr u =
    (vr s)(op_vd opr := drop_bit ((16 - unat (A AND 15)) * 8) (load be128 (vmem s) (ucast (A AND - 16) + 16)))"
proof -
  define k where "k = unat (A AND 15)"
  have A: "unat A < 2 ^ 32" using assms(2) by simp
  note o = line_offset [OF A, folded k_def]
  note n = next_line [OF assms(2)]
  have c: "unat (NOT (A + 16) AND 15) = 15 - k" using line_offset(5) [of "A + 16"] n(1,3) assms(2) by (simp add: k_def)
  show ?thesis
  proof (cases "A AND 15 = 0")
    case True
    have "unat (ucast (cia s) AND - 16 :: u64) < 2 ^ 32"
      using line_offset(2) [of "ucast (cia s)"] unat_lt [of "cia s"] by simp
    from feed_result [OF this, of fd be128 s] obtain v u
      where "ppu_feed_data fd be128 s (ucast (cia s) AND - 16) = Some (v, u)" "same_but_reservation s u"
      by (elim exE conjE)
    with True n(1) c show ?thesis by (auto simp: LVRX_def Let_def assms(1) k_def put_vr_def)
  next
    case False
    have q: "unat ((A AND - 16) + 16) < 2 ^ 32" "(ucast ((A AND - 16) + 16) :: u32) = ucast (A AND - 16) + 16"
      using o assms(2) n(3) line_offset(2) [of "A + 16"] n(1,2) by (simp_all add: ucast_add_32 k_def)
    from feed_result [OF q(1), of fd be128 s] obtain u
      where "ppu_feed_data fd be128 s ((A AND - 16) + 16) = Some (load be128 (vmem s) (ucast (A AND - 16) + 16), u)"
        "same_but_reservation s u"
      unfolding q(2) by (elim exE conjE)
    moreover have "8 + (15 - k) * 8 = (16 - k) * 8" using o(1) by simp
    ultimately show ?thesis using False n c by (auto simp: LVRX_def Let_def assms(1) put_vr_def simp flip: k_def)
  qed
qed

lemma line_halves:
  fixes A :: u64
  assumes "unat A < 2 ^ 32"
  shows "push_bit (unat (A AND 15) * 8) (load be128 m (ucast (A AND - 16))) OR
    drop_bit ((16 - unat (A AND 15)) * 8) (load be128 m (ucast (A AND - 16) + 16)) = load be128 m (ucast A)"
proof -
  define k q where "k = unat (A AND 15)" and "q = (ucast (A AND - 16) :: u32)"
  note o = line_offset [OF assms, folded k_def q_def]
  show ?thesis
    using be_dec_halves [of "read_bytes m q 16" "read_bytes m (q + 16) 16" k] read_bytes_window [of k m q] o
    by (simp add: load_def be_codec_def flip: k_def q_def)
qed

lemma unaligned_load:
  assumes "ea_x opr s = ea_x opl s + 16" "unat (ea_x opl s) + 32 \<le> 2 ^ 32" "op_vd opr \<noteq> op_vd opl"
  shows "\<exists>t u. LVLX fd opl s = Some t \<and> LVRX fd opr t = Some u \<and>
    vr u (op_vd opl) OR vr u (op_vd opr) = load be128 (vmem s) (ucast (ea_x opl s))"
proof -
  have A: "unat (ea_x opl s) < 2 ^ 32" using assms(2) by simp
  from left_load [OF A, of fd] obtain t where t: "LVLX fd opl s = Some t" "gpr t = gpr s" "vmem t = vmem s"
      "vr t = (vr s)(op_vd opl := push_bit (unat (ea_x opl s AND 15) * 8) (load be128 (vmem s) (ucast (ea_x opl s AND - 16))))"
    by (elim exE conjE)
  have "ea_x opr t = ea_x opr s" using t(2) by (simp add: ea_x_def)
  then have "ea_x opr t = ea_x opl s + 16" by (simp only: assms(1))
  from right_load [OF this assms(2), of fd] t(1,3,4) assms(3) line_halves [OF A, of "vmem s"] show ?thesis by auto
qed

lemma unaligned_store:
  assumes "ea_x opr s = ea_x opl s + 16" "unat (ea_x opl s) + 32 \<le> 2 ^ 32" "op_vs opr = op_vs opl"
  shows "\<exists>t u. STVLX opl s = Some t \<and> STVRX opr t = Some u \<and>
    vmem u = store be128 (vmem s) (ucast (ea_x opl s)) (vr s (op_vs opl))"
proof -
  define A where "A = ea_x opl s"
  define k where "k = unat (A AND 15)"
  define bs where "bs = be_enc 16 (vr s (op_vs opl))"
  have A: "unat A < 2 ^ 32" "unat A + 32 \<le> 2 ^ 32" using assms(2) by (simp_all add: A_def)
  have k: "k < 16" unfolding k_def by (rule line_offset(1) [OF A(1)])
  define m where "m = fold (\<lambda>j m. m(ucast A + of_nat j := bs ! j)) [0..<16 - k] (vmem s)"
  define m' where "m' = fold (\<lambda>j m. m(ucast A + of_nat j := bs ! j)) (rev [16 - k..<16]) m"
  have t: "STVLX opl s = Some (s\<lparr>vmem := m\<rparr>)"
    using A by (simp add: STVLX_def Let_def vm_cast64_def m_def k_def bs_def flip: A_def)
  have "ea_x opr (s\<lparr>vmem := m\<rparr>) = ea_x opr s" by (simp add: ea_x_def)
  then have "ea_x opr (s\<lparr>vmem := m\<rparr>) = A + 16" using assms(1) by (simp add: A_def)
  then have u: "STVRX opr (s\<lparr>vmem := m\<rparr>) = Some (s\<lparr>vmem := m'\<rparr>)"
    using A next_line(1) [OF A(2)] by (simp add: STVRX_def Let_def vm_cast64_def m'_def k_def bs_def assms(3))
  have b: "length bs = 16" by (simp add: bs_def)
  have "m' x = write_bytes (vmem s) (ucast A) bs x" for x
  proof -
    let ?d = "unat (x - ucast A)"
    have "m x = (if ?d \<in> set [0..<16 - k] then bs ! ?d else vmem s x)" unfolding m_def by (rule fold_bytes) auto
    moreover have "m' x = (if ?d \<in> set (rev [16 - k..<16]) then bs ! ?d else m x)" unfolding m'_def by (rule fold_bytes) simp
    moreover have "(if d \<in> set (rev [16 - k..<16]) then f d else if d \<in> set [0..<16 - k] then f d else v) = (if d < 16 then f d else v)"
      for d :: nat and f and v :: u8 using k by auto
    ultimately show ?thesis by (simp only: write_bytes_def Let_def b)
  qed
  then have "m' = store be128 (vmem s) (ucast A) (vr s (op_vs opl))" by (auto simp: store_def be_codec_def bs_def)
  then have "vmem (s\<lparr>vmem := m'\<rparr>) = store be128 (vmem s) (ucast A) (vr s (op_vs opl))" by simp
  with t u show ?thesis unfolding A_def by (intro exI conjI)
qed

text \<open>C25: unaligned vectors. The left load at an address and then the right load sixteen bytes
  further, into different registers, leave two registers whose bitwise or is the sixteen bytes at that
  address in order, also when the address is aligned and the right load touches nothing; the left store
  followed by the right store sixteen bytes further, from the same register, writes exactly those
  sixteen bytes. The address and the 32 bytes from it on lie in the 32-bit address space.\<close>

theorem unaligned_vectors:
  assumes "ea_x opr s = ea_x opl s + 16" "unat (ea_x opl s) + 32 \<le> 2 ^ 32"
  shows "(op_vd opr \<noteq> op_vd opl \<longrightarrow> (\<exists>t u. LVLX fd opl s = Some t \<and> LVRX fd opr t = Some u \<and>
        vr u (op_vd opl) OR vr u (op_vd opr) = load be128 (vmem s) (ucast (ea_x opl s)))) \<and>
      (op_vs opr = op_vs opl \<longrightarrow> (\<exists>t u. STVLX opl s = Some t \<and> STVRX opr t = Some u \<and>
        vmem u = store be128 (vmem s) (ucast (ea_x opl s)) (vr s (op_vs opl))))"
  using unaligned_load [OF assms, of fd] unaligned_store [OF assms] by (intro conjI impI)

theorem unaligned_vectors_witness:
  "\<exists>t u. LVLX False 0x7C40240E (put_gpr 5 0x1013 (put_gpr 4 0x1003 (ppu_init (\<lambda>a. ucast a)))) = Some t \<and>
     LVRX False 0x7C602C4E t = Some u \<and> vr u 2 OR vr u 3 = load be128 (\<lambda>a. ucast a) 0x1003"
proof -
  let ?s = "put_gpr 5 0x1013 (put_gpr 4 0x1003 (ppu_init (\<lambda>a. ucast a)))"
  have f: "op_ra 0x7C40240E = 0" "op_rb 0x7C40240E = 4" "op_vd 0x7C40240E = 2"
    "op_ra 0x7C602C4E = 0" "op_rb 0x7C602C4E = 5" "op_vd 0x7C602C4E = 3" by code_simp+
  have e: "ea_x 0x7C602C4E ?s = ea_x 0x7C40240E ?s + 16" "unat (ea_x 0x7C40240E ?s) + 32 \<le> 2 ^ 32"
    "(ucast (ea_x 0x7C40240E ?s) :: u32) = 0x1003" "vmem ?s = (\<lambda>a. ucast a)" by (simp_all add: ea_x_def f ppu_init_def)
  have "op_vd 0x7C602C4E \<noteq> op_vd 0x7C40240E" by (simp add: f)
  with unaligned_vectors [OF e(1,2), of False, THEN conjunct1] show ?thesis unfolding f e(3,4) by simp
qed

section \<open>The reservation check of a load\<close>

lemma window_eq: "i + k \<le> length xs \<Longrightarrow> j + k \<le> length ys \<Longrightarrow>
   take k (drop i xs) = take k (drop j ys) \<longleftrightarrow> (\<forall>l<k. xs ! (i + l) = ys ! (j + l))"
  by (auto simp: list_eq_iff_nth_eq)

lemma div_line: "(128 * q + r + i) div 128 = q + (r + i) div 128" "(128 * q + r + i) mod 128 = (r + i) mod 128"
  for q r i :: nat
  by (simp_all add: add.assoc)

lemma mod_line: "m < 256 \<Longrightarrow> m mod 128 = (if m < 128 then m else m - 128)"
  "m < 256 \<Longrightarrow> m div 128 = (if m < 128 then 0 else 1)" for m :: nat
  by (simp_all add: le_mod_geq le_div_geq)

text \<open>The bytes of an access at offset \<open>r\<close> of line \<open>q\<close> that lie in line \<open>l\<close> and differ from
  the buffer \<open>rd\<close> of that line.\<close>

definition differs_at :: "nat \<Rightarrow> nat \<Rightarrow> nat \<Rightarrow> u8 list \<Rightarrow> u8 list \<Rightarrow> nat \<Rightarrow> bool" where
  "differs_at r q l bs rd i \<longleftrightarrow> (q * 128 + r + i) div 128 = l \<and> bs ! i \<noteq> rd ! ((r + i) mod 128)"

lemma differs_simps:
  "r + i < 128 \<Longrightarrow> differs_at r q l bs rd i \<longleftrightarrow> l = q \<and> bs ! i \<noteq> rd ! (r + i)"
  "128 \<le> r + i \<Longrightarrow> r + i < 256 \<Longrightarrow> differs_at r q l bs rd i \<longleftrightarrow> l = Suc q \<and> bs ! i \<noteq> rd ! (r + i - 128)"
  unfolding differs_at_def mult.commute [of q] div_line using mod_line [of "r + i"] by auto

lemma differs_one_line:
  assumes "r + n \<le> 128" "length bs = n" "length rd = 128"
  shows "(\<exists>i<n. differs_at r q l bs rd i) \<longleftrightarrow> l = q \<and> bs \<noteq> take n (drop r rd)"
proof -
  have "(\<exists>i<n. differs_at r q l bs rd i) \<longleftrightarrow> (\<exists>i<n. l = q \<and> bs ! i \<noteq> rd ! (r + i))"
    using assms(1) by (intro ex_cong1 conj_cong refl) (simp add: differs_simps)
  then show ?thesis using window_eq [of 0 n bs r rd] assms by auto
qed

lemma differs_first_line:
  assumes "128 < r + n" "r < 128" "n \<le> 128" "length bs = n" "length rd = 128"
  shows "(\<exists>i<n. differs_at r q q bs rd i) \<longleftrightarrow> take (128 - r) bs \<noteq> take (128 - r) (drop r rd)"
proof -
  have "differs_at r q q bs rd i \<longleftrightarrow> i < 128 - r \<and> bs ! i \<noteq> rd ! (r + i)" if "i < n" for i
    using that assms(2,3) differs_simps [where r = r and i = i and q = q and l = q and bs = bs and rd = rd] by (cases "r + i < 128") auto
  then have "(\<exists>i<n. differs_at r q q bs rd i) \<longleftrightarrow> (\<exists>i<n. i < 128 - r \<and> bs ! i \<noteq> rd ! (r + i))" by blast
  moreover have "i < n" if "i < 128 - r" for i using that assms(1) by simp
  ultimately have "(\<exists>i<n. differs_at r q q bs rd i) \<longleftrightarrow> (\<exists>i<128 - r. bs ! i \<noteq> rd ! (r + i))" by blast
  then show ?thesis using window_eq [of 0 "128 - r" bs r rd] assms by auto
qed

lemma differs_second_line:
  assumes "128 < r + n" "r < 128" "n \<le> 128" "length bs = n" "length rd = 128"
  shows "(\<exists>i<n. differs_at r q (Suc q) bs rd i) \<longleftrightarrow> take (r + n - 128) (drop (128 - r) bs) \<noteq> take (r + n - 128) rd"
proof -
  have "(\<exists>i<n. differs_at r q (Suc q) bs rd i) \<longleftrightarrow> (\<exists>j<r + n - 128. bs ! (128 - r + j) \<noteq> rd ! j)"
  proof (intro iffI; elim exE conjE)
    fix i assume i: "i < n" "differs_at r q (Suc q) bs rd i"
    then have "128 \<le> r + i" by (cases "r + i < 128") (simp_all add: differs_simps)
    with i assms(2,3) have "r + i - 128 < r + n - 128" "bs ! (128 - r + (r + i - 128)) \<noteq> rd ! (r + i - 128)" by (simp_all add: differs_simps)
    then show "\<exists>j<r + n - 128. bs ! (128 - r + j) \<noteq> rd ! j" by (intro exI conjI)
  next
    fix j assume j: "j < r + n - 128" "bs ! (128 - r + j) \<noteq> rd ! j"
    then have "128 - r + j < n" "differs_at r q (Suc q) bs rd (128 - r + j)" using assms(2,3) by (simp_all add: differs_simps)
    then show "\<exists>i<n. differs_at r q (Suc q) bs rd i" by (intro exI conjI)
  qed
  then show ?thesis using window_eq [of "128 - r" "r + n - 128" bs 0 rd] assms by auto
qed

lemma reservation_lost_iff:
  assumes "length (rdata s) = 128" "0 < n" "n \<le> 128"
  shows "reservation_lost addr n s a \<longleftrightarrow> (\<exists>i<n. (addr + i) div 128 = unat (raddr s) div 128 \<and>
    vmem s (a + of_nat i) \<noteq> rdata s ! ((addr + i) mod 128))"
proof -
  define q r l bs where "q = addr div 128" and "r = addr mod 128" and "l = unat (raddr s) div 128"
    and "bs = read_bytes (vmem s) a n"
  have addr: "addr = 128 * q + r" and r: "r < 128" and bs: "length bs = n" by (simp_all add: q_def r_def bs_def)
  have last: "(addr + n - 1) div 128 = (if r + n \<le> 128 then q else Suc q)"
    using div_line(1) [of q r "n - 1"] mod_line(2) [of "r + (n - 1)"] assms(2,3) r by (auto simp: addr)
  have size: "(addr + n) mod 128 = r + n - 128" if "128 < r + n"
    using that assms(3) r unfolding addr div_line by (simp add: mod_line)
  have "(\<exists>i<n. (addr + i) div 128 = l \<and> vmem s (a + of_nat i) \<noteq> rdata s ! ((addr + i) mod 128)) \<longleftrightarrow>
      (\<exists>i<n. differs_at r q l bs (rdata s) i)"
    unfolding differs_at_def addr div_line mult.commute [of q] by (intro ex_cong1 conj_cong refl) (simp add: bs_def)
  moreover have "reservation_lost addr n s a = (\<exists>i<n. differs_at r q l bs (rdata s) i)"
  proof (cases "r + n \<le> 128")
    case True
    then have "reservation_lost addr n s a = (if q > l \<or> q < l then False else bs \<noteq> take n (drop r (rdata s)))"
      unfolding reservation_lost_def Let_def last q_def [symmetric] r_def [symmetric] l_def [symmetric] bs_def [symmetric] by simp
    then show ?thesis unfolding differs_one_line [OF True bs assms(1)] by auto
  next
    case False
    then have f: "128 < r + n" by simp
    have "reservation_lost addr n s a = (if q > l \<or> Suc q < l then False
        else if l = q then take (128 - r) bs \<noteq> take (128 - r) (drop r (rdata s))
        else take (r + n - 128) (drop (128 - r) bs) \<noteq> take (r + n - 128) (rdata s))"
      unfolding reservation_lost_def Let_def last q_def [symmetric] r_def [symmetric] l_def [symmetric] bs_def [symmetric] size [OF f]
      using f r assms(3) by auto
    moreover have "\<not> differs_at r q l bs (rdata s) i" if "i < n" "l \<noteq> q" "l \<noteq> Suc q" for i
      using that r assms(3) by (cases "r + i < 128") (simp_all add: differs_simps)
    moreover consider "l = q" | "l = Suc q" | "l \<noteq> q" "l \<noteq> Suc q" "q > l \<or> Suc q < l" by linarith
    ultimately show ?thesis using differs_first_line [OF f r assms(3) bs assms(1), of q] differs_second_line [OF f r assms(3) bs assms(1), of q]
      by cases auto
  qed
  ultimately show ?thesis by (simp only: l_def)
qed

text \<open>C26: the reservation check. A load that keeps the whole reserved line gives the value in
  memory, and gives the reservation up exactly when a byte it reads lies in the reserved line and
  differs from the copy taken when the line was reserved, also for an access across two lines; the
  rest of the thread is unchanged.\<close>

theorem reservation_check_exact:
  assumes "unat addr < 2 ^ 32" "use_full_rdata s" "length (rdata s) = 128" "0 < csize C" "csize C \<le> 128"
  shows "ppu_feed_data True C s addr = Some (load C (vmem s) (ucast addr),
    if \<exists>i<csize C. (unat addr + i) div 128 = unat (raddr s) div 128 \<and>
        vmem s (ucast addr + of_nat i) \<noteq> rdata s ! ((unat addr + i) mod 128)
    then s\<lparr>raddr := 0, res_cached := 0\<rparr> else s)"
proof -
  have "ppu_feed_data True C s addr = Some (load C (vmem s) (ucast addr),
      if reservation_lost (unat addr) (csize C) s (ucast addr) then s\<lparr>raddr := 0, res_cached := 0\<rparr> else s)"
    using assms(1,2) by (simp add: ppu_feed_data_def vm_cast64_def Let_def)
  then show ?thesis unfolding reservation_lost_iff [OF assms(3-5)] .
qed

theorem reservation_check_exact_witness:
  "\<exists>v. ppu_feed_data True be64 (ppu_init (\<lambda>a. if a = 0x1081 then 7 else 0)\<lparr>use_full_rdata := True, raddr := 0x1080\<rparr>) 0x107C =
     Some (v, ppu_init (\<lambda>a. if a = 0x1081 then 7 else 0)\<lparr>use_full_rdata := True, raddr := 0, res_cached := 0\<rparr>)"
proof -
  let ?s = "ppu_init (\<lambda>a. if a = 0x1081 then 7 else 0)\<lparr>use_full_rdata := True, raddr := 0x1080\<rparr>"
  have "5 < csize be64 \<and> (unat (0x107C :: u64) + 5) div 128 = unat (raddr ?s) div 128 \<and>
      vmem ?s (ucast (0x107C :: u64) + of_nat 5) \<noteq> rdata ?s ! ((unat (0x107C :: u64) + 5) mod 128)" by (simp add: ppu_init_def)
  then have "\<exists>i<csize be64. (unat (0x107C :: u64) + i) div 128 = unat (raddr ?s) div 128 \<and>
      vmem ?s (ucast (0x107C :: u64) + of_nat i) \<noteq> rdata ?s ! ((unat (0x107C :: u64) + i) mod 128)" by (rule exI)
  then show ?thesis using reservation_check_exact [where addr = "0x107C" and s = ?s and C = be64] by (simp add: ppu_init_def)
qed

end
