(* ===== verification/Simd.thy ===== *)
theory Simd
  imports Ppu_State
begin

text \<open>
  The vector helpers of \<^verbatim>\<open>util/simd.hpp\<close> that the vector instructions use. The application is
  built for one processor architecture, \<^verbatim>\<open>arm64-v8a\<close> (\<^verbatim>\<open>app/build.gradle.kts\<close>), so the helpers are
  modelled on their \<^verbatim>\<open>ARCH_ARM64\<close> branches, with the compiler intrinsics they call written out lane
  by lane. A \<^verbatim>\<open>v128\<close> is a 128-bit word; \<open>lanes\<close> lists its elements from the least significant one,
  as the members \<^verbatim>\<open>_u8\<close>, \<^verbatim>\<open>_u16\<close>, \<^verbatim>\<open>_u32\<close> and \<^verbatim>\<open>_u64\<close> of the union index them.
\<close>

section \<open>Lanes\<close>

definition lanes :: "u128 \<Rightarrow> 'a::len word list" where
  "lanes v = map (\<lambda>i. ucast (drop_bit (i * LENGTH('a)) v)) [0..<128 div LENGTH('a)]"

definition of_lanes :: "'a::len word list \<Rightarrow> u128" where
  "of_lanes xs = foldr (\<lambda>x v. ucast x OR push_bit LENGTH('a) v) xs 0"

text \<open>The elements in the order of the architecture, most significant first (\<open>u8r\<close> and so on).\<close>

definition elems :: "u128 \<Rightarrow> 'a::len word list" where
  "elems v = rev (lanes v)"

definition lanes1 :: "('a::len word \<Rightarrow> 'b::len word) \<Rightarrow> u128 \<Rightarrow> u128" where
  "lanes1 f a = of_lanes (map f (lanes a))"

definition lanes2 :: "('a::len word \<Rightarrow> 'a word \<Rightarrow> 'b::len word) \<Rightarrow> u128 \<Rightarrow> u128 \<Rightarrow> u128" where
  "lanes2 f a b = of_lanes (map2 f (lanes a) (lanes b))"

definition lanes3 :: "('a::len word \<Rightarrow> 'a word \<Rightarrow> 'a word \<Rightarrow> 'b::len word) \<Rightarrow> u128 \<Rightarrow> u128 \<Rightarrow> u128 \<Rightarrow> u128" where
  "lanes3 f a b c = of_lanes (map2 (\<lambda>x (y, z). f x y z) (lanes a) (zip (lanes b) (lanes c)))"

section \<open>Intrinsics on one lane\<close>

text \<open>Signed and unsigned saturation.\<close>

definition ssat :: "int \<Rightarrow> 'a::len word" where
  "ssat z = word_of_int (max (- (2 ^ (LENGTH('a) - 1))) (min (2 ^ (LENGTH('a) - 1) - 1) z))"

definition usat :: "int \<Rightarrow> 'a::len word" where
  "usat z = word_of_int (max 0 (min (2 ^ LENGTH('a) - 1) z))"

text \<open>Saturating, halving and comparing intrinsics; a comparison gives a lane of ones or of zeros.\<close>

definition cmask :: "bool \<Rightarrow> 'a::len word" where
  "cmask p = (if p then - 1 else 0)"

definition vqadd_s :: "'a::len word \<Rightarrow> 'a word \<Rightarrow> 'a word" where "vqadd_s x y = ssat (sint x + sint y)"
definition vqadd_u :: "'a::len word \<Rightarrow> 'a word \<Rightarrow> 'a word" where "vqadd_u x y = usat (uint x + uint y)"
definition vqsub_s :: "'a::len word \<Rightarrow> 'a word \<Rightarrow> 'a word" where "vqsub_s x y = ssat (sint x - sint y)"
definition vqsub_u :: "'a::len word \<Rightarrow> 'a word \<Rightarrow> 'a word" where "vqsub_u x y = usat (uint x - uint y)"
definition vrhadd_s :: "'a::len word \<Rightarrow> 'a word \<Rightarrow> 'a word" where "vrhadd_s x y = word_of_int ((sint x + sint y + 1) div 2)"
definition vrhadd_u :: "'a::len word \<Rightarrow> 'a word \<Rightarrow> 'a word" where "vrhadd_u x y = word_of_int ((uint x + uint y + 1) div 2)"
definition vmax_s :: "'a::len word \<Rightarrow> 'a word \<Rightarrow> 'a word" where "vmax_s x y = (if x <s y then y else x)"
definition vmin_s :: "'a::len word \<Rightarrow> 'a word \<Rightarrow> 'a word" where "vmin_s x y = (if x <s y then x else y)"
definition vceq :: "'a::len word \<Rightarrow> 'a word \<Rightarrow> 'a word" where "vceq x y = cmask (x = y)"
definition vcgt_s :: "'a::len word \<Rightarrow> 'a word \<Rightarrow> 'a word" where "vcgt_s x y = cmask (y <s x)"
definition vcgt_u :: "'a::len word \<Rightarrow> 'a word \<Rightarrow> 'a word" where "vcgt_u x y = cmask (y < x)"
definition vcge_u :: "'a::len word \<Rightarrow> 'a word \<Rightarrow> 'a word" where "vcge_u x y = cmask (y \<le> x)"

text \<open>The register shifts take the signed low byte of the other operand; a negative one shifts to
  the right.\<close>

definition shift_amount :: "'a::len word \<Rightarrow> int" where
  "shift_amount c = sint (ucast c :: u8)"

definition vshl_u :: "'a::len word \<Rightarrow> 'a word \<Rightarrow> 'a word" where
  "vshl_u x c = (if 0 \<le> shift_amount c then push_bit (nat (shift_amount c)) x
     else drop_bit (nat (- shift_amount c)) x)"

definition vshl_s :: "'a::len word \<Rightarrow> 'a word \<Rightarrow> 'a word" where
  "vshl_s x c = (if 0 \<le> shift_amount c then push_bit (nat (shift_amount c)) x
     else signed_drop_bit (nat (- shift_amount c)) x)"

text \<open>Doubling multiplications that keep the high half.\<close>

definition vqdmulh :: "u16 \<Rightarrow> u16 \<Rightarrow> u16" where
  "vqdmulh x y = ssat ((2 * sint x * sint y) div 2 ^ 16)"

definition vqrdmulh :: "u16 \<Rightarrow> u16 \<Rightarrow> u16" where
  "vqrdmulh x y = ssat ((2 * sint x * sint y + 2 ^ 15) div 2 ^ 16)"

definition vqrdmlah :: "u16 \<Rightarrow> u16 \<Rightarrow> u16 \<Rightarrow> u16" where
  "vqrdmlah c x y = ssat ((sint c * 2 ^ 16 + 2 * sint x * sint y + 2 ^ 15) div 2 ^ 16)"

section \<open>Intrinsics across lanes\<close>

text \<open>Pairwise addition with widening by \<open>f\<close> (\<open>vpaddlq\<close>; \<open>vpadd\<close> with \<open>f\<close> the identity),
  unzipping, zipping, halves, table lookup, broadcast.\<close>

fun vpaddl :: "('a \<Rightarrow> 'b::plus) \<Rightarrow> 'a list \<Rightarrow> 'b list" where
  "vpaddl f (x # y # xs) = (f x + f y) # vpaddl f xs"
| "vpaddl f xs = []"

fun evens :: "'a list \<Rightarrow> 'a list" where
  "evens (x # y # xs) = x # evens xs"
| "evens xs = xs"

fun odds :: "'a list \<Rightarrow> 'a list" where
  "odds (x # y # xs) = y # odds xs"
| "odds xs = []"

fun interleave :: "'a list \<Rightarrow> 'a list \<Rightarrow> 'a list" where
  "interleave (x # xs) (y # ys) = x # y # interleave xs ys"
| "interleave xs ys = []"

definition vget_low :: "'a list \<Rightarrow> 'a list" where "vget_low xs = take (length xs div 2) xs"
definition vget_high :: "'a list \<Rightarrow> 'a list" where "vget_high xs = drop (length xs div 2) xs"
definition vuzp1 :: "'a list \<Rightarrow> 'a list \<Rightarrow> 'a list" where "vuzp1 xs ys = evens (xs @ ys)"
definition vuzp2 :: "'a list \<Rightarrow> 'a list \<Rightarrow> 'a list" where "vuzp2 xs ys = odds (xs @ ys)"
definition vzip1 :: "'a list \<Rightarrow> 'a list \<Rightarrow> 'a list" where "vzip1 xs ys = interleave (vget_low xs) (vget_low ys)"
definition vzip2 :: "'a list \<Rightarrow> 'a list \<Rightarrow> 'a list" where "vzip2 xs ys = interleave (vget_high xs) (vget_high ys)"

definition vqtbl :: "u8 list \<Rightarrow> u8 list \<Rightarrow> u8 list" where
  "vqtbl tab idx = map (\<lambda>i. if unat i < length tab then tab ! unat i else 0) idx"

section \<open>Elementwise helpers\<close>

text \<open>The helpers that are one intrinsic, at each of their element widths.\<close>

abbreviation gv_and32 :: "u128 \<Rightarrow> u128 \<Rightarrow> u128" where "gv_and32 a b \<equiv> a AND b"
abbreviation gv_andfs :: "u128 \<Rightarrow> u128 \<Rightarrow> u128" where "gv_andfs a b \<equiv> a AND b"
abbreviation gv_andn32 :: "u128 \<Rightarrow> u128 \<Rightarrow> u128" where "gv_andn32 a b \<equiv> b AND NOT a"
abbreviation gv_andnfs :: "u128 \<Rightarrow> u128 \<Rightarrow> u128" where "gv_andnfs a b \<equiv> b AND NOT a"
abbreviation gv_or32 :: "u128 \<Rightarrow> u128 \<Rightarrow> u128" where "gv_or32 a b \<equiv> a OR b"
abbreviation gv_orfs :: "u128 \<Rightarrow> u128 \<Rightarrow> u128" where "gv_orfs a b \<equiv> a OR b"
abbreviation gv_xor32 :: "u128 \<Rightarrow> u128 \<Rightarrow> u128" where "gv_xor32 a b \<equiv> a XOR b"
abbreviation gv_xorfs :: "u128 \<Rightarrow> u128 \<Rightarrow> u128" where "gv_xorfs a b \<equiv> a XOR b"
abbreviation gv_not32 :: "u128 \<Rightarrow> u128" where "gv_not32 a \<equiv> NOT a"
abbreviation gv_notfs :: "u128 \<Rightarrow> u128" where "gv_notfs a \<equiv> NOT a"

abbreviation gv_add8 :: "u128 \<Rightarrow> u128 \<Rightarrow> u128" where "gv_add8 \<equiv> lanes2 ((+) :: u8 \<Rightarrow> u8 \<Rightarrow> u8)"
abbreviation gv_add16 :: "u128 \<Rightarrow> u128 \<Rightarrow> u128" where "gv_add16 \<equiv> lanes2 ((+) :: u16 \<Rightarrow> u16 \<Rightarrow> u16)"
abbreviation gv_add32 :: "u128 \<Rightarrow> u128 \<Rightarrow> u128" where "gv_add32 \<equiv> lanes2 ((+) :: u32 \<Rightarrow> u32 \<Rightarrow> u32)"
abbreviation gv_add64 :: "u128 \<Rightarrow> u128 \<Rightarrow> u128" where "gv_add64 \<equiv> lanes2 ((+) :: u64 \<Rightarrow> u64 \<Rightarrow> u64)"
abbreviation gv_sub8 :: "u128 \<Rightarrow> u128 \<Rightarrow> u128" where "gv_sub8 \<equiv> lanes2 ((-) :: u8 \<Rightarrow> u8 \<Rightarrow> u8)"
abbreviation gv_sub16 :: "u128 \<Rightarrow> u128 \<Rightarrow> u128" where "gv_sub16 \<equiv> lanes2 ((-) :: u16 \<Rightarrow> u16 \<Rightarrow> u16)"
abbreviation gv_sub32 :: "u128 \<Rightarrow> u128 \<Rightarrow> u128" where "gv_sub32 \<equiv> lanes2 ((-) :: u32 \<Rightarrow> u32 \<Rightarrow> u32)"
abbreviation gv_adds_s8 :: "u128 \<Rightarrow> u128 \<Rightarrow> u128" where "gv_adds_s8 \<equiv> lanes2 (vqadd_s :: u8 \<Rightarrow> u8 \<Rightarrow> u8)"
abbreviation gv_adds_s16 :: "u128 \<Rightarrow> u128 \<Rightarrow> u128" where "gv_adds_s16 \<equiv> lanes2 (vqadd_s :: u16 \<Rightarrow> u16 \<Rightarrow> u16)"
abbreviation gv_adds_s32 :: "u128 \<Rightarrow> u128 \<Rightarrow> u128" where "gv_adds_s32 \<equiv> lanes2 (vqadd_s :: u32 \<Rightarrow> u32 \<Rightarrow> u32)"
abbreviation gv_addus_u8 :: "u128 \<Rightarrow> u128 \<Rightarrow> u128" where "gv_addus_u8 \<equiv> lanes2 (vqadd_u :: u8 \<Rightarrow> u8 \<Rightarrow> u8)"
abbreviation gv_addus_u16 :: "u128 \<Rightarrow> u128 \<Rightarrow> u128" where "gv_addus_u16 \<equiv> lanes2 (vqadd_u :: u16 \<Rightarrow> u16 \<Rightarrow> u16)"
abbreviation gv_addus_u32 :: "u128 \<Rightarrow> u128 \<Rightarrow> u128" where "gv_addus_u32 \<equiv> lanes2 (vqadd_u :: u32 \<Rightarrow> u32 \<Rightarrow> u32)"
abbreviation gv_subs_s8 :: "u128 \<Rightarrow> u128 \<Rightarrow> u128" where "gv_subs_s8 \<equiv> lanes2 (vqsub_s :: u8 \<Rightarrow> u8 \<Rightarrow> u8)"
abbreviation gv_subs_s16 :: "u128 \<Rightarrow> u128 \<Rightarrow> u128" where "gv_subs_s16 \<equiv> lanes2 (vqsub_s :: u16 \<Rightarrow> u16 \<Rightarrow> u16)"
abbreviation gv_subs_s32 :: "u128 \<Rightarrow> u128 \<Rightarrow> u128" where "gv_subs_s32 \<equiv> lanes2 (vqsub_s :: u32 \<Rightarrow> u32 \<Rightarrow> u32)"
abbreviation gv_subus_u8 :: "u128 \<Rightarrow> u128 \<Rightarrow> u128" where "gv_subus_u8 \<equiv> lanes2 (vqsub_u :: u8 \<Rightarrow> u8 \<Rightarrow> u8)"
abbreviation gv_subus_u16 :: "u128 \<Rightarrow> u128 \<Rightarrow> u128" where "gv_subus_u16 \<equiv> lanes2 (vqsub_u :: u16 \<Rightarrow> u16 \<Rightarrow> u16)"
abbreviation gv_subus_u32 :: "u128 \<Rightarrow> u128 \<Rightarrow> u128" where "gv_subus_u32 \<equiv> lanes2 (vqsub_u :: u32 \<Rightarrow> u32 \<Rightarrow> u32)"
abbreviation gv_maxu8 :: "u128 \<Rightarrow> u128 \<Rightarrow> u128" where "gv_maxu8 \<equiv> lanes2 (max :: u8 \<Rightarrow> u8 \<Rightarrow> u8)"
abbreviation gv_maxu16 :: "u128 \<Rightarrow> u128 \<Rightarrow> u128" where "gv_maxu16 \<equiv> lanes2 (max :: u16 \<Rightarrow> u16 \<Rightarrow> u16)"
abbreviation gv_maxu32 :: "u128 \<Rightarrow> u128 \<Rightarrow> u128" where "gv_maxu32 \<equiv> lanes2 (max :: u32 \<Rightarrow> u32 \<Rightarrow> u32)"
abbreviation gv_maxs8 :: "u128 \<Rightarrow> u128 \<Rightarrow> u128" where "gv_maxs8 \<equiv> lanes2 (vmax_s :: u8 \<Rightarrow> u8 \<Rightarrow> u8)"
abbreviation gv_maxs16 :: "u128 \<Rightarrow> u128 \<Rightarrow> u128" where "gv_maxs16 \<equiv> lanes2 (vmax_s :: u16 \<Rightarrow> u16 \<Rightarrow> u16)"
abbreviation gv_maxs32 :: "u128 \<Rightarrow> u128 \<Rightarrow> u128" where "gv_maxs32 \<equiv> lanes2 (vmax_s :: u32 \<Rightarrow> u32 \<Rightarrow> u32)"
abbreviation gv_minu8 :: "u128 \<Rightarrow> u128 \<Rightarrow> u128" where "gv_minu8 \<equiv> lanes2 (min :: u8 \<Rightarrow> u8 \<Rightarrow> u8)"
abbreviation gv_minu16 :: "u128 \<Rightarrow> u128 \<Rightarrow> u128" where "gv_minu16 \<equiv> lanes2 (min :: u16 \<Rightarrow> u16 \<Rightarrow> u16)"
abbreviation gv_minu32 :: "u128 \<Rightarrow> u128 \<Rightarrow> u128" where "gv_minu32 \<equiv> lanes2 (min :: u32 \<Rightarrow> u32 \<Rightarrow> u32)"
abbreviation gv_mins8 :: "u128 \<Rightarrow> u128 \<Rightarrow> u128" where "gv_mins8 \<equiv> lanes2 (vmin_s :: u8 \<Rightarrow> u8 \<Rightarrow> u8)"
abbreviation gv_mins16 :: "u128 \<Rightarrow> u128 \<Rightarrow> u128" where "gv_mins16 \<equiv> lanes2 (vmin_s :: u16 \<Rightarrow> u16 \<Rightarrow> u16)"
abbreviation gv_mins32 :: "u128 \<Rightarrow> u128 \<Rightarrow> u128" where "gv_mins32 \<equiv> lanes2 (vmin_s :: u32 \<Rightarrow> u32 \<Rightarrow> u32)"
abbreviation gv_eq8 :: "u128 \<Rightarrow> u128 \<Rightarrow> u128" where "gv_eq8 \<equiv> lanes2 (vceq :: u8 \<Rightarrow> u8 \<Rightarrow> u8)"
abbreviation gv_eq16 :: "u128 \<Rightarrow> u128 \<Rightarrow> u128" where "gv_eq16 \<equiv> lanes2 (vceq :: u16 \<Rightarrow> u16 \<Rightarrow> u16)"
abbreviation gv_eq32 :: "u128 \<Rightarrow> u128 \<Rightarrow> u128" where "gv_eq32 \<equiv> lanes2 (vceq :: u32 \<Rightarrow> u32 \<Rightarrow> u32)"
abbreviation gv_gtu8 :: "u128 \<Rightarrow> u128 \<Rightarrow> u128" where "gv_gtu8 \<equiv> lanes2 (vcgt_u :: u8 \<Rightarrow> u8 \<Rightarrow> u8)"
abbreviation gv_gtu16 :: "u128 \<Rightarrow> u128 \<Rightarrow> u128" where "gv_gtu16 \<equiv> lanes2 (vcgt_u :: u16 \<Rightarrow> u16 \<Rightarrow> u16)"
abbreviation gv_gtu32 :: "u128 \<Rightarrow> u128 \<Rightarrow> u128" where "gv_gtu32 \<equiv> lanes2 (vcgt_u :: u32 \<Rightarrow> u32 \<Rightarrow> u32)"
abbreviation gv_geu32 :: "u128 \<Rightarrow> u128 \<Rightarrow> u128" where "gv_geu32 \<equiv> lanes2 (vcge_u :: u32 \<Rightarrow> u32 \<Rightarrow> u32)"
abbreviation gv_gts8 :: "u128 \<Rightarrow> u128 \<Rightarrow> u128" where "gv_gts8 \<equiv> lanes2 (vcgt_s :: u8 \<Rightarrow> u8 \<Rightarrow> u8)"
abbreviation gv_gts16 :: "u128 \<Rightarrow> u128 \<Rightarrow> u128" where "gv_gts16 \<equiv> lanes2 (vcgt_s :: u16 \<Rightarrow> u16 \<Rightarrow> u16)"
abbreviation gv_gts32 :: "u128 \<Rightarrow> u128 \<Rightarrow> u128" where "gv_gts32 \<equiv> lanes2 (vcgt_s :: u32 \<Rightarrow> u32 \<Rightarrow> u32)"
abbreviation gv_avgu8 :: "u128 \<Rightarrow> u128 \<Rightarrow> u128" where "gv_avgu8 \<equiv> lanes2 (vrhadd_u :: u8 \<Rightarrow> u8 \<Rightarrow> u8)"
abbreviation gv_avgu16 :: "u128 \<Rightarrow> u128 \<Rightarrow> u128" where "gv_avgu16 \<equiv> lanes2 (vrhadd_u :: u16 \<Rightarrow> u16 \<Rightarrow> u16)"
abbreviation gv_avgu32 :: "u128 \<Rightarrow> u128 \<Rightarrow> u128" where "gv_avgu32 \<equiv> lanes2 (vrhadd_u :: u32 \<Rightarrow> u32 \<Rightarrow> u32)"
abbreviation gv_avgs8 :: "u128 \<Rightarrow> u128 \<Rightarrow> u128" where "gv_avgs8 \<equiv> lanes2 (vrhadd_s :: u8 \<Rightarrow> u8 \<Rightarrow> u8)"
abbreviation gv_avgs16 :: "u128 \<Rightarrow> u128 \<Rightarrow> u128" where "gv_avgs16 \<equiv> lanes2 (vrhadd_s :: u16 \<Rightarrow> u16 \<Rightarrow> u16)"
abbreviation gv_avgs32 :: "u128 \<Rightarrow> u128 \<Rightarrow> u128" where "gv_avgs32 \<equiv> lanes2 (vrhadd_s :: u32 \<Rightarrow> u32 \<Rightarrow> u32)"
abbreviation gv_mul16 :: "u128 \<Rightarrow> u128 \<Rightarrow> u128" where "gv_mul16 \<equiv> lanes2 ((*) :: u16 \<Rightarrow> u16 \<Rightarrow> u16)"
abbreviation gv_mul32 :: "u128 \<Rightarrow> u128 \<Rightarrow> u128" where "gv_mul32 \<equiv> lanes2 ((*) :: u32 \<Rightarrow> u32 \<Rightarrow> u32)"

text \<open>Broadcast of one value, at the width of its type.\<close>

definition gv_bcst :: "'a::len word \<Rightarrow> u128" where
  "gv_bcst x = of_lanes (replicate (128 div LENGTH('a)) x)"

text \<open>Shifts by a count: of a lane of type \<open>'a\<close>, given by \<open>TYPE('a)\<close>.\<close>

definition gv_shl_n :: "'a::len itself \<Rightarrow> u128 \<Rightarrow> u32 \<Rightarrow> u128" where
  "gv_shl_n T a count = (if unat count \<ge> LENGTH('a) then 0
     else lanes1 (\<lambda>x :: 'a word. vshl_s x (ucast count)) a)"

definition gv_shr_n :: "'a::len itself \<Rightarrow> u128 \<Rightarrow> u32 \<Rightarrow> u128" where
  "gv_shr_n T a count = (if unat count \<ge> LENGTH('a) then 0
     else lanes1 (\<lambda>x :: 'a word. vshl_u x (ucast (0 - count))) a)"

definition gv_sar_n :: "'a::len itself \<Rightarrow> u128 \<Rightarrow> u32 \<Rightarrow> u128" where
  "gv_sar_n T a count =
     (let count = (if unat count \<ge> LENGTH('a) then of_nat (LENGTH('a) - 1) else count)
      in lanes1 (\<lambda>x :: 'a word. vshl_s x (ucast (0 - count))) a)"

text \<open>Shifts and rotations lane by lane. The mask of the 16-bit and 32-bit shifts is broadcast as
  bytes; the rotations broadcast it at the width of the lane.\<close>

definition gv_shl :: "'a::len itself \<Rightarrow> u8 \<Rightarrow> u128 \<Rightarrow> u128 \<Rightarrow> u128" where
  "gv_shl T m a b = lanes2 (vshl_u :: 'a word \<Rightarrow> 'a word \<Rightarrow> 'a word) a (b AND gv_bcst m)"

definition gv_shr :: "'a::len itself \<Rightarrow> u8 \<Rightarrow> u128 \<Rightarrow> u128 \<Rightarrow> u128" where
  "gv_shr T m a b = lanes2 (vshl_u :: 'a word \<Rightarrow> 'a word \<Rightarrow> 'a word) a
     (lanes1 (uminus :: 'a word \<Rightarrow> 'a word) (b AND gv_bcst m))"

definition gv_sar :: "'a::len itself \<Rightarrow> u8 \<Rightarrow> u128 \<Rightarrow> u128 \<Rightarrow> u128" where
  "gv_sar T m a b = lanes2 (vshl_s :: 'a word \<Rightarrow> 'a word \<Rightarrow> 'a word) a
     (lanes1 (uminus :: 'a word \<Rightarrow> 'a word) (b AND gv_bcst m))"

definition gv_rol :: "'a::len itself \<Rightarrow> u128 \<Rightarrow> u128 \<Rightarrow> u128" where
  "gv_rol T a b =
     (let amt1 = b AND gv_bcst (of_nat (LENGTH('a) - 1) :: 'a word);
          amt2 = lanes2 ((-) :: 'a word \<Rightarrow> 'a word \<Rightarrow> 'a word) amt1 (gv_bcst (of_nat LENGTH('a) :: 'a word))
      in lanes2 (vshl_u :: 'a word \<Rightarrow> 'a word \<Rightarrow> 'a word) a amt1 OR
         lanes2 (vshl_u :: 'a word \<Rightarrow> 'a word \<Rightarrow> 'a word) a amt2)"

abbreviation gv_shl16n :: "u128 \<Rightarrow> u32 \<Rightarrow> u128" where "gv_shl16n \<equiv> gv_shl_n TYPE(16)"
abbreviation gv_shl32n :: "u128 \<Rightarrow> u32 \<Rightarrow> u128" where "gv_shl32n \<equiv> gv_shl_n TYPE(32)"
abbreviation gv_shr16n :: "u128 \<Rightarrow> u32 \<Rightarrow> u128" where "gv_shr16n \<equiv> gv_shr_n TYPE(16)"
abbreviation gv_shr32n :: "u128 \<Rightarrow> u32 \<Rightarrow> u128" where "gv_shr32n \<equiv> gv_shr_n TYPE(32)"
abbreviation gv_shr64n :: "u128 \<Rightarrow> u32 \<Rightarrow> u128" where "gv_shr64n \<equiv> gv_shr_n TYPE(64)"
abbreviation gv_sar16n :: "u128 \<Rightarrow> u32 \<Rightarrow> u128" where "gv_sar16n \<equiv> gv_sar_n TYPE(16)"
abbreviation gv_sar32n :: "u128 \<Rightarrow> u32 \<Rightarrow> u128" where "gv_sar32n \<equiv> gv_sar_n TYPE(32)"
abbreviation gv_shl8 :: "u128 \<Rightarrow> u128 \<Rightarrow> u128" where "gv_shl8 \<equiv> gv_shl TYPE(8) 7"
abbreviation gv_shl16 :: "u128 \<Rightarrow> u128 \<Rightarrow> u128" where "gv_shl16 \<equiv> gv_shl TYPE(16) 15"
abbreviation gv_shl32 :: "u128 \<Rightarrow> u128 \<Rightarrow> u128" where "gv_shl32 \<equiv> gv_shl TYPE(32) 31"
abbreviation gv_shr8 :: "u128 \<Rightarrow> u128 \<Rightarrow> u128" where "gv_shr8 \<equiv> gv_shr TYPE(8) 7"
abbreviation gv_shr16 :: "u128 \<Rightarrow> u128 \<Rightarrow> u128" where "gv_shr16 \<equiv> gv_shr TYPE(16) 15"
abbreviation gv_shr32 :: "u128 \<Rightarrow> u128 \<Rightarrow> u128" where "gv_shr32 \<equiv> gv_shr TYPE(32) 31"
abbreviation gv_sar8 :: "u128 \<Rightarrow> u128 \<Rightarrow> u128" where "gv_sar8 \<equiv> gv_sar TYPE(8) 7"
abbreviation gv_sar16 :: "u128 \<Rightarrow> u128 \<Rightarrow> u128" where "gv_sar16 \<equiv> gv_sar TYPE(16) 15"
abbreviation gv_sar32 :: "u128 \<Rightarrow> u128 \<Rightarrow> u128" where "gv_sar32 \<equiv> gv_sar TYPE(32) 31"
abbreviation gv_rol8 :: "u128 \<Rightarrow> u128 \<Rightarrow> u128" where "gv_rol8 \<equiv> gv_rol TYPE(8)"
abbreviation gv_rol16 :: "u128 \<Rightarrow> u128 \<Rightarrow> u128" where "gv_rol16 \<equiv> gv_rol TYPE(16)"
abbreviation gv_rol32 :: "u128 \<Rightarrow> u128 \<Rightarrow> u128" where "gv_rol32 \<equiv> gv_rol TYPE(32)"

definition gv_fshl8 :: "u128 \<Rightarrow> u128 \<Rightarrow> u128 \<Rightarrow> u128" where
  "gv_fshl8 a b c =
     (let amt1 = c AND gv_bcst (7 :: u8); amt2 = gv_sub8 amt1 (gv_bcst (8 :: u8))
      in lanes2 (vshl_u :: u8 \<Rightarrow> u8 \<Rightarrow> u8) a amt1 OR lanes2 (vshl_u :: u8 \<Rightarrow> u8 \<Rightarrow> u8) b amt2)"

definition gv_fshr8 :: "u128 \<Rightarrow> u128 \<Rightarrow> u128 \<Rightarrow> u128" where
  "gv_fshr8 a b c =
     (let amt1 = c AND gv_bcst (7 :: u8); amt2 = gv_sub8 (gv_bcst (8 :: u8)) amt1
      in lanes2 (vshl_u :: u8 \<Rightarrow> u8 \<Rightarrow> u8) b (lanes1 (uminus :: u8 \<Rightarrow> u8) amt1) OR
         lanes2 (vshl_u :: u8 \<Rightarrow> u8 \<Rightarrow> u8) a amt2)"

section \<open>Multiplications and sums\<close>

definition gv_muls_hds16 :: "u128 \<Rightarrow> u128 \<Rightarrow> u128" where "gv_muls_hds16 a b = lanes2 vqdmulh a b"
definition gv_rmuls_hds16 :: "u128 \<Rightarrow> u128 \<Rightarrow> u128" where "gv_rmuls_hds16 a b = lanes2 vqrdmulh a b"
definition gv_rmuladds_hds16 :: "u128 \<Rightarrow> u128 \<Rightarrow> u128 \<Rightarrow> u128" where
  "gv_rmuladds_hds16 a b c = lanes3 vqrdmlah c a b"
definition gv_muladd16 :: "u128 \<Rightarrow> u128 \<Rightarrow> u128 \<Rightarrow> u128" where
  "gv_muladd16 a b c = lanes3 (\<lambda>(x :: u16) y z. x + y * z) c a b"

definition gv_hadds8x4 :: "u128 \<Rightarrow> u128 \<Rightarrow> u128" where
  "gv_hadds8x4 a c =
     gv_add32 (of_lanes (vpaddl (scast :: u16 \<Rightarrow> u32) (vpaddl (scast :: u8 \<Rightarrow> u16) (lanes a)))) c"

definition gv_haddu8x4 :: "u128 \<Rightarrow> u128" where
  "gv_haddu8x4 a = of_lanes (vpaddl (ucast :: u16 \<Rightarrow> u32) (vpaddl (ucast :: u8 \<Rightarrow> u16) (lanes a)))"

definition gv_hadds16x2 :: "u128 \<Rightarrow> u128 \<Rightarrow> u128" where
  "gv_hadds16x2 a c = gv_add32 (of_lanes (vpaddl (scast :: u16 \<Rightarrow> u32) (lanes a))) c"

text \<open>The byte products of one half, as sums of two (\<open>l\<close> and \<open>h\<close> of the code).\<close>

definition dot_half :: "(u8 \<Rightarrow> u16) \<Rightarrow> (u8 \<Rightarrow> u16) \<Rightarrow> (u16 \<Rightarrow> u32) \<Rightarrow> u8 list \<Rightarrow> u8 list \<Rightarrow> u32 list" where
  "dot_half f g w xs ys = vpaddl w (map2 (*) (map f xs) (map g ys))"

definition gv_dotu8s8x4 :: "u128 \<Rightarrow> u128 \<Rightarrow> u128 \<Rightarrow> u128" where
  "gv_dotu8s8x4 a b c =
     (let l = dot_half ucast scast scast (vget_low (lanes a)) (vget_low (lanes b));
          h = dot_half ucast scast scast (vget_high (lanes a)) (vget_high (lanes b))
      in gv_add32 c (gv_add32 (of_lanes (vuzp1 l h)) (of_lanes (vuzp2 l h))))"

definition gv_dotu8x4 :: "u128 \<Rightarrow> u128 \<Rightarrow> u128 \<Rightarrow> u128" where
  "gv_dotu8x4 a b c =
     (let l = dot_half ucast ucast ucast (vget_low (lanes a)) (vget_low (lanes b));
          h = dot_half ucast ucast ucast (vget_high (lanes a)) (vget_high (lanes b))
      in gv_add32 c (gv_add32 (of_lanes (vuzp1 l h)) (of_lanes (vuzp2 l h))))"

definition gv_dots_u8s8x4 :: "u128 \<Rightarrow> u128 \<Rightarrow> u128 \<Rightarrow> u128" where
  "gv_dots_u8s8x4 a b c =
     (let l = dot_half ucast scast scast (vget_low (lanes a)) (vget_low (lanes b));
          h = dot_half ucast scast scast (vget_high (lanes a)) (vget_high (lanes b))
      in gv_adds_s32 c (gv_add32 (of_lanes (vuzp1 l h)) (of_lanes (vuzp2 l h))))"

definition gv_dots16x2 :: "u128 \<Rightarrow> u128 \<Rightarrow> u128" where
  "gv_dots16x2 a b =
     (let ml = map2 (\<lambda>(x :: u16) (y :: u16). scast x * scast y :: u32) (vget_low (lanes a)) (vget_low (lanes b));
          mh = map2 (\<lambda>(x :: u16) (y :: u16). scast x * scast y :: u32) (vget_high (lanes a)) (vget_high (lanes b))
      in of_lanes (vpaddl (\<lambda>x. x) (vget_low ml @ vget_high ml) @ vpaddl (\<lambda>x. x) (vget_low mh @ vget_high mh)))"

definition gv_dots16x2_add :: "u128 \<Rightarrow> u128 \<Rightarrow> u128 \<Rightarrow> u128" where
  "gv_dots16x2_add a b c = gv_add32 c (gv_dots16x2 a b)"

definition gv_dotu16x2 :: "u128 \<Rightarrow> u128 \<Rightarrow> u128" where
  "gv_dotu16x2 a b =
     (let ml = map2 (\<lambda>(x :: u16) (y :: u16). ucast x * ucast y :: u32) (vget_low (lanes a)) (vget_low (lanes b));
          mh = map2 (\<lambda>(x :: u16) (y :: u16). ucast x * ucast y :: u32) (vget_high (lanes a)) (vget_high (lanes b))
      in of_lanes (vpaddl (\<lambda>x. x) (vget_low ml @ vget_high ml) @ vpaddl (\<lambda>x. x) (vget_low mh @ vget_high mh)))"

definition gv_select32 :: "u128 \<Rightarrow> u128 \<Rightarrow> u128 \<Rightarrow> u128" where
  "gv_select32 cmp t f = (cmp AND t) OR (NOT cmp AND f)"

definition gv_dots_s16x2 :: "u128 \<Rightarrow> u128 \<Rightarrow> u128 \<Rightarrow> u128" where
  "gv_dots_s16x2 a b c =
     (let ab = gv_dots16x2 a b;
          s0 = gv_adds_s32 ab c;
          s1 = gv_eq32 ab (gv_bcst (0x80000000 :: u32));
          s2 = gv_select32 (gv_gts32 (gv_bcst (0 :: u32)) c) (gv_xor32 c (gv_bcst (0x80000000 :: u32)))
                 (gv_bcst (0x7fffffff :: u32))
      in gv_select32 s1 s2 s0)"

definition gv_mul_even_s16 :: "u128 \<Rightarrow> u128 \<Rightarrow> u128" where
  "gv_mul_even_s16 a b = gv_mul32 (gv_sar32n (gv_shl32n a 16) 16) (gv_sar32n (gv_shl32n b 16) 16)"

definition gv_mul_even_u16 :: "u128 \<Rightarrow> u128 \<Rightarrow> u128" where
  "gv_mul_even_u16 a b = (let c = gv_bcst (0x0000ffff :: u32) in gv_mul32 (a AND c) (b AND c))"

definition gv_mul_odds_s16 :: "u128 \<Rightarrow> u128 \<Rightarrow> u128" where
  "gv_mul_odds_s16 a b = gv_mul32 (gv_sar32n a 16) (gv_sar32n b 16)"

definition gv_mul_odds_u16 :: "u128 \<Rightarrow> u128 \<Rightarrow> u128" where
  "gv_mul_odds_u16 a b = gv_mul32 (gv_shr32n a 16) (gv_shr32n b 16)"

section \<open>Tests, packs and shuffles\<close>

text \<open>\<open>vqmovn_s32\<close> narrows the lanes with saturation; the 64 bits of the result are compared.
  \<open>gv_testall0\<close> has the same body as \<open>gv_testz\<close>.\<close>

definition gv_testz :: "u128 \<Rightarrow> bool" where
  "gv_testz a \<longleftrightarrow> map (\<lambda>x :: u32. ssat (sint x) :: u16) (lanes a) = replicate 4 0"

abbreviation gv_testall0 :: "u128 \<Rightarrow> bool" where "gv_testall0 \<equiv> gv_testz"

definition gv_testall1 :: "u128 \<Rightarrow> bool" where
  "gv_testall1 a \<longleftrightarrow> map (\<lambda>x :: u32. ssat (sint x) :: u16) (lanes a) = replicate 4 (- 1)"

text \<open>Packs narrow the lanes of two vectors, the first one into the low half; \<open>TYPE('a)\<close> is the
  source lane, \<open>TYPE('b)\<close> the narrow one.\<close>

definition gv_packss_s :: "'a::len itself \<Rightarrow> 'b::len itself \<Rightarrow> u128 \<Rightarrow> u128 \<Rightarrow> u128" where
  "gv_packss_s S T low high = of_lanes (map (\<lambda>x :: 'a word. ssat (sint x) :: 'b word) (lanes low) @
     map (\<lambda>x :: 'a word. ssat (sint x) :: 'b word) (lanes high))"

definition gv_packus_s :: "'a::len itself \<Rightarrow> 'b::len itself \<Rightarrow> u128 \<Rightarrow> u128 \<Rightarrow> u128" where
  "gv_packus_s S T low high = of_lanes (map (\<lambda>x :: 'a word. usat (sint x) :: 'b word) (lanes low) @
     map (\<lambda>x :: 'a word. usat (sint x) :: 'b word) (lanes high))"

definition gv_packus_u :: "'a::len itself \<Rightarrow> 'b::len itself \<Rightarrow> u128 \<Rightarrow> u128 \<Rightarrow> u128" where
  "gv_packus_u S T low high = of_lanes (map (\<lambda>x :: 'a word. usat (uint x) :: 'b word) (lanes low) @
     map (\<lambda>x :: 'a word. usat (uint x) :: 'b word) (lanes high))"

definition gv_packtu :: "'b::len itself \<Rightarrow> u128 \<Rightarrow> u128 \<Rightarrow> u128" where
  "gv_packtu T low high = of_lanes (vuzp1 (lanes low) (lanes high) :: 'b word list)"

definition gv_unpacklo :: "'a::len itself \<Rightarrow> u128 \<Rightarrow> u128 \<Rightarrow> u128" where
  "gv_unpacklo T lows highs = of_lanes (vzip1 (lanes lows) (lanes highs) :: 'a word list)"

definition gv_unpackhi :: "'a::len itself \<Rightarrow> u128 \<Rightarrow> u128 \<Rightarrow> u128" where
  "gv_unpackhi T lows highs = of_lanes (vzip2 (lanes lows) (lanes highs) :: 'a word list)"

definition gv_extend_lo_s :: "'a::len itself \<Rightarrow> 'b::len itself \<Rightarrow> u128 \<Rightarrow> u128" where
  "gv_extend_lo_s S T v = of_lanes (map (\<lambda>x :: 'a word. scast x :: 'b word) (vget_low (lanes v)))"

definition gv_extend_hi_s :: "'a::len itself \<Rightarrow> 'b::len itself \<Rightarrow> u128 \<Rightarrow> u128" where
  "gv_extend_hi_s S T v = of_lanes (map (\<lambda>x :: 'a word. scast x :: 'b word) (vget_high (lanes v)))"

abbreviation gv_packss_s16 :: "u128 \<Rightarrow> u128 \<Rightarrow> u128" where "gv_packss_s16 \<equiv> gv_packss_s TYPE(16) TYPE(8)"
abbreviation gv_packss_s32 :: "u128 \<Rightarrow> u128 \<Rightarrow> u128" where "gv_packss_s32 \<equiv> gv_packss_s TYPE(32) TYPE(16)"
abbreviation gv_packus_s16 :: "u128 \<Rightarrow> u128 \<Rightarrow> u128" where "gv_packus_s16 \<equiv> gv_packus_s TYPE(16) TYPE(8)"
abbreviation gv_packus_s32 :: "u128 \<Rightarrow> u128 \<Rightarrow> u128" where "gv_packus_s32 \<equiv> gv_packus_s TYPE(32) TYPE(16)"
abbreviation gv_packus_u16 :: "u128 \<Rightarrow> u128 \<Rightarrow> u128" where "gv_packus_u16 \<equiv> gv_packus_u TYPE(16) TYPE(8)"
abbreviation gv_packus_u32 :: "u128 \<Rightarrow> u128 \<Rightarrow> u128" where "gv_packus_u32 \<equiv> gv_packus_u TYPE(32) TYPE(16)"
abbreviation gv_packtu16 :: "u128 \<Rightarrow> u128 \<Rightarrow> u128" where "gv_packtu16 \<equiv> gv_packtu TYPE(8)"
abbreviation gv_packtu32 :: "u128 \<Rightarrow> u128 \<Rightarrow> u128" where "gv_packtu32 \<equiv> gv_packtu TYPE(16)"
abbreviation gv_unpacklo8 :: "u128 \<Rightarrow> u128 \<Rightarrow> u128" where "gv_unpacklo8 \<equiv> gv_unpacklo TYPE(8)"
abbreviation gv_unpacklo16 :: "u128 \<Rightarrow> u128 \<Rightarrow> u128" where "gv_unpacklo16 \<equiv> gv_unpacklo TYPE(16)"
abbreviation gv_unpacklo32 :: "u128 \<Rightarrow> u128 \<Rightarrow> u128" where "gv_unpacklo32 \<equiv> gv_unpacklo TYPE(32)"
abbreviation gv_unpackhi8 :: "u128 \<Rightarrow> u128 \<Rightarrow> u128" where "gv_unpackhi8 \<equiv> gv_unpackhi TYPE(8)"
abbreviation gv_unpackhi16 :: "u128 \<Rightarrow> u128 \<Rightarrow> u128" where "gv_unpackhi16 \<equiv> gv_unpackhi TYPE(16)"
abbreviation gv_unpackhi32 :: "u128 \<Rightarrow> u128 \<Rightarrow> u128" where "gv_unpackhi32 \<equiv> gv_unpackhi TYPE(32)"
abbreviation gv_extend_lo_s8 :: "u128 \<Rightarrow> u128" where "gv_extend_lo_s8 \<equiv> gv_extend_lo_s TYPE(8) TYPE(16)"
abbreviation gv_extend_lo_s16 :: "u128 \<Rightarrow> u128" where "gv_extend_lo_s16 \<equiv> gv_extend_lo_s TYPE(16) TYPE(32)"
abbreviation gv_extend_hi_s8 :: "u128 \<Rightarrow> u128" where "gv_extend_hi_s8 \<equiv> gv_extend_hi_s TYPE(8) TYPE(16)"
abbreviation gv_extend_hi_s16 :: "u128 \<Rightarrow> u128" where "gv_extend_hi_s16 \<equiv> gv_extend_hi_s TYPE(16) TYPE(32)"

text \<open>Byte shifts of the whole vector: the indices are bytes, and an index outside the vector
  selects zero.\<close>

definition gv_shuffle_left :: "nat \<Rightarrow> u128 \<Rightarrow> u128" where
  "gv_shuffle_left count a = (if count > 15 then 0
     else of_lanes (vqtbl (lanes a) (map (\<lambda>i. of_nat i - of_nat count) [0..<16])))"

definition gv_shuffle_right :: "nat \<Rightarrow> u128 \<Rightarrow> u128" where
  "gv_shuffle_right count a = (if count > 15 then 0
     else of_lanes (vqtbl (lanes a) (map (\<lambda>i. of_nat i + of_nat count) [0..<16])))"

section \<open>Lane views\<close>

text \<open>The contract of a view of vectors as \<open>n\<close> lanes.\<close>

locale lane_view =
  fixes view :: "u128 \<Rightarrow> 'a::len word list" and join :: "'a word list \<Rightarrow> u128" and n :: nat
  assumes length_view: "length (view v) = n"
    and join_view: "join (view v) = v"
    and view_join: "length xs = n \<Longrightarrow> view (join xs) = xs"
    and view_zero: "view 0 = replicate n 0"
begin

lemma view_eq_iff: "view a = view b \<longleftrightarrow> a = b"
  by (metis join_view)

lemma differ_iff: "a \<noteq> b \<longleftrightarrow> list_ex (\<lambda>(x, y). x \<noteq> y) (zip (view a) (view b))"
  unfolding view_eq_iff [symmetric] list_ex_iff by (auto simp: list_eq_iff_nth_eq length_view set_zip)

lemma nonzero_iff: "v \<noteq> 0 \<longleftrightarrow> list_ex (\<lambda>x. x \<noteq> 0) (view v)"
  unfolding view_eq_iff [symmetric] view_zero list_ex_iff
  by (metis length_view replicate_eqI in_set_replicate)

lemma view_map2: "view (join (map2 f (view a) (view b))) = map2 f (view a) (view b)"
  by (rule view_join) (simp add: length_view)

end

lemma length_lanes [simp]: "length (lanes v :: 'a::len word list) = 128 div LENGTH('a)"
  by (simp add: lanes_def)

lemma nth_lanes: "i < 128 div LENGTH('a) \<Longrightarrow> (lanes v :: 'a::len word list) ! i = ucast (drop_bit (i * LENGTH('a)) v)"
  by (simp add: lanes_def)

lemma of_lanes_simps: "of_lanes [] = 0" "of_lanes (x # xs) = ucast x OR push_bit LENGTH('a) (of_lanes xs)" for x :: "'a::len word"
  by (simp_all add: of_lanes_def)

lemma bit_of_lanes: "bit (of_lanes xs) n \<longleftrightarrow> n < 128 \<and> n div LENGTH('a) < length xs \<and> bit (xs ! (n div LENGTH('a))) (n mod LENGTH('a))"
  for xs :: "'a::len word list"
proof (induction xs arbitrary: n)
  case (Cons x xs)
  show ?case
  proof (cases "n < LENGTH('a)")
    case True
    then show ?thesis by (auto simp: of_lanes_simps bit_simps)
  next
    case False
    then have "n div LENGTH('a) = Suc ((n - LENGTH('a)) div LENGTH('a))" "n mod LENGTH('a) = (n - LENGTH('a)) mod LENGTH('a)"
      by (simp_all add: le_div_geq le_mod_geq)
    with False show ?thesis by (auto simp: of_lanes_simps bit_simps Cons.IH dest: bit_imp_le_length)
  qed
qed (simp add: of_lanes_simps)

lemma lane_views:
  assumes "LENGTH('a::len) * n = 128"
  shows "lane_view (lanes :: u128 \<Rightarrow> 'a word list) of_lanes n"
proof
  have n: "128 div LENGTH('a) = n" using assms by (metis len_not_eq_0 nonzero_mult_div_cancel_left)
  show "length (lanes v :: 'a word list) = n" for v by (simp add: n)
  show "(lanes 0 :: 'a word list) = replicate n 0" by (simp add: list_eq_iff_nth_eq n nth_lanes)
  show "of_lanes (lanes v :: 'a word list) = v" for v
  proof (rule bit_word_eqI)
    fix j assume j: "j < LENGTH(128)"
    then have "j div LENGTH('a) < n" using assms by (simp add: div_less_iff_less_mult mult.commute)
    then show "bit (of_lanes (lanes v :: 'a word list)) j = bit v j" using j
      by (simp add: bit_of_lanes nth_lanes n bit_simps)
  qed
  show "(lanes (of_lanes xs) :: 'a word list) = xs" if "length xs = n" for xs
  proof (rule nth_equalityI)
    fix i assume "i < length (lanes (of_lanes xs) :: 'a word list)"
    then have i: "i < n" by (simp add: n)
    then have "i * LENGTH('a) + LENGTH('a) \<le> 128" using mult_le_mono1 [of "Suc i" n "LENGTH('a)"] assms by (simp add: mult.commute)
    then show "(lanes (of_lanes xs) :: 'a word list) ! i = xs ! i"
      using i by (intro bit_word_eqI) (simp add: nth_lanes n bit_simps bit_of_lanes that)
  qed (simp add: n that)
qed

interpretation v8: lane_view "lanes :: u128 \<Rightarrow> u8 list" of_lanes 16
  by (rule lane_views) simp

interpretation v16: lane_view "lanes :: u128 \<Rightarrow> u16 list" of_lanes 8
  by (rule lane_views) simp

interpretation v32: lane_view "lanes :: u128 \<Rightarrow> u32 list" of_lanes 4
  by (rule lane_views) simp

interpretation v64: lane_view "lanes :: u128 \<Rightarrow> u64 list" of_lanes 2
  by (rule lane_views) simp

lemma lanes_of_lanes [simp]:
  "LENGTH('a) dvd 128 \<Longrightarrow> length xs = 128 div LENGTH('a) \<Longrightarrow> lanes (of_lanes xs) = xs" for xs :: "'a::len word list"
  by (rule lane_view.view_join [OF lane_views [where n = "128 div LENGTH('a)"]]) simp_all

lemma lanes_lanes1 [simp]:
  "LENGTH('b::len) = LENGTH('a) \<Longrightarrow> LENGTH('a::len) dvd 128 \<Longrightarrow>
     (lanes (lanes1 f a) :: 'b word list) = map f (lanes a :: 'a word list)"
  by (simp add: lanes1_def)

lemma lanes_lanes2 [simp]:
  "LENGTH('b::len) = LENGTH('a) \<Longrightarrow> LENGTH('a::len) dvd 128 \<Longrightarrow>
     (lanes (lanes2 f a b) :: 'b word list) = map2 f (lanes a :: 'a word list) (lanes b)"
  by (simp add: lanes2_def)

lemma lanes_lanes3:
  "LENGTH('b::len) = LENGTH('a) \<Longrightarrow> LENGTH('a::len) dvd 128 \<Longrightarrow>
     (lanes (lanes3 f a b c) :: 'b word list) =
       map2 (\<lambda>x (y, z). f x y z) (lanes a :: 'a word list) (zip (lanes b) (lanes c))"
  by (simp add: lanes3_def)

lemma lanes_bcst [simp]:
  "LENGTH('a::len) dvd 128 \<Longrightarrow> lanes (gv_bcst x) = replicate (128 div LENGTH('a)) (x :: 'a word)"
  by (simp add: gv_bcst_def)

text \<open>Bitwise operations act on every view.\<close>

lemma lane_in_vector: "i < 128 div w \<Longrightarrow> j < w \<Longrightarrow> w * i + j < 128" for i j w :: nat
  by (metis add.commute add_strict_left_mono less_le_trans mult_Suc_right mult_le_mono2 Suc_leI times_div_less_eq_dividend)

lemma lanes_and: "lanes (a AND b) = map2 (AND) (lanes a) (lanes b :: 'a::len word list)"
  and lanes_or: "lanes (a OR b) = map2 (OR) (lanes a) (lanes b :: 'a::len word list)"
  and lanes_xor: "lanes (a XOR b) = map2 (XOR) (lanes a) (lanes b :: 'a::len word list)"
  by (auto intro!: nth_equalityI bit_word_eqI simp: nth_lanes bit_simps)

lemma lanes_not: "lanes (NOT a) = map NOT (lanes a :: 'a::len word list)"
proof (rule nth_equalityI)
  fix i assume "i < length (lanes (NOT a) :: 'a word list)"
  then have i: "i < 128 div LENGTH('a)" by simp
  show "(lanes (NOT a) :: 'a word list) ! i = map NOT (lanes a) ! i"
  proof (rule bit_word_eqI)
    fix j assume "j < LENGTH('a)"
    with lane_in_vector [OF i this] show "bit ((lanes (NOT a) :: 'a word list) ! i) j = bit (map NOT (lanes a :: 'a word list) ! i) j"
      using i by (simp add: nth_lanes bit_simps mult.commute)
  qed
qed simp

end
