(* ===== verification/Ppu_Vector.thy ===== *)
theory Ppu_Vector
  imports Simd
begin

text \<open>
  The integer vector instructions of \<^verbatim>\<open>Emu/Cell/PPUInterpreter.cpp\<close>, one definition per
  instruction, over the helpers of \<open>Simd\<close>. The template flags are arguments: \<open>sf\<close> is \<open>set_sat\<close>
  (the saturation bit is tracked), \<open>nf\<close> is \<open>use_nj || fix_nj\<close>, and \<open>rc\<close> is the flag of the
  recording comparisons. Then what the instructions compute, against the elements of the
  architecture. The instructions on floating-point elements are not modelled.
\<close>

section \<open>Instructions\<close>

text \<open>How the instruction bodies take their operands and return: one, two or three vector
  registers, with or without the saturation bit, and the comparisons with their record form.\<close>

definition vec1 :: "(u128 \<Rightarrow> u128) \<Rightarrow> ppu_opcode \<Rightarrow> ppu \<Rightarrow> ppu" where
  "vec1 f op s = put_vr (op_vd op) (f (vr s (op_vb op))) s"

definition vec2 :: "(u128 \<Rightarrow> u128 \<Rightarrow> u128) \<Rightarrow> ppu_opcode \<Rightarrow> ppu \<Rightarrow> ppu" where
  "vec2 f op s = put_vr (op_vd op) (f (vr s (op_va op)) (vr s (op_vb op))) s"

definition vec3 :: "(u128 \<Rightarrow> u128 \<Rightarrow> u128 \<Rightarrow> u128) \<Rightarrow> ppu_opcode \<Rightarrow> ppu \<Rightarrow> ppu" where
  "vec3 f op s = put_vr (op_vd op) (f (vr s (op_va op)) (vr s (op_vb op)) (vr s (op_vc op))) s"

definition or_sat :: "bool \<Rightarrow> u128 \<Rightarrow> ppu \<Rightarrow> ppu" where
  "or_sat sf x s = (if sf then s\<lparr>sat := gv_or32 x (sat s)\<rparr> else s)"

definition vec2_sat :: "bool \<Rightarrow> (u128 \<Rightarrow> u128 \<Rightarrow> u128) \<Rightarrow> (u128 \<Rightarrow> u128 \<Rightarrow> u128) \<Rightarrow> ppu_opcode \<Rightarrow> ppu \<Rightarrow> ppu" where
  "vec2_sat sf f x op s = vec2 f op (or_sat sf (x (vr s (op_va op)) (vr s (op_vb op))) s)"

definition vec3_sat ::
  "bool \<Rightarrow> (u128 \<Rightarrow> u128 \<Rightarrow> u128 \<Rightarrow> u128) \<Rightarrow> (u128 \<Rightarrow> u128 \<Rightarrow> u128 \<Rightarrow> u128) \<Rightarrow> ppu_opcode \<Rightarrow> ppu \<Rightarrow> ppu" where
  "vec3_sat sf f x op s = vec3 f op (or_sat sf (x (vr s (op_va op)) (vr s (op_vb op)) (vr s (op_vc op))) s)"

definition vcmp :: "(u128 \<Rightarrow> u128 \<Rightarrow> u128) \<Rightarrow> bool \<Rightarrow> ppu_opcode \<Rightarrow> ppu \<Rightarrow> ppu" where
  "vcmp f rc op s =
     (let r = f (vr s (op_va op)) (vr s (op_vb op))
      in put_vr (op_vd op) r (if rc then ppu_cr_set 6 (gv_testall1 r) False (gv_testall0 r) False s else s))"

subsection \<open>Status register\<close>

definition MFVSCR :: "bool \<Rightarrow> ppu_opcode \<Rightarrow> ppu \<Rightarrow> ppu" where
  "MFVSCR sf op s =
     put_vr (op_vd op) ((if sf \<and> \<not> gv_testz (sat s) then 1 else 0) OR push_bit 16 (if nj s then 1 else 0)) s"

definition MTVSCR :: "bool \<Rightarrow> bool \<Rightarrow> ppu_opcode \<Rightarrow> ppu \<Rightarrow> ppu" where
  "MTVSCR sf nf op s =
     (let vscr = (lanes (vr s (op_vb op)) :: u32 list) ! 0;
          s = (if sf then s\<lparr>sat := ucast (vscr AND 1)\<rparr> else s);
          s = (if nf then s\<lparr>jm_mask := (if vscr AND 0x10000 \<noteq> 0 then 0x7f800000 else 0x7fffffff)\<rparr> else s)
      in s\<lparr>nj := vscr AND 0x10000 \<noteq> 0\<rparr>)"

subsection \<open>Addition and subtraction\<close>

definition VADDCUW :: "ppu_opcode \<Rightarrow> ppu \<Rightarrow> ppu" where
  "VADDCUW = vec2 (\<lambda>a b. gv_sub32 (gv_geu32 (gv_not32 a) b) (gv_bcst (- 1 :: u32)))"

definition VADDUBM :: "ppu_opcode \<Rightarrow> ppu \<Rightarrow> ppu" where
  "VADDUBM = vec2 gv_add8"

definition VADDUHM :: "ppu_opcode \<Rightarrow> ppu \<Rightarrow> ppu" where
  "VADDUHM = vec2 gv_add16"

definition VADDUWM :: "ppu_opcode \<Rightarrow> ppu \<Rightarrow> ppu" where
  "VADDUWM = vec2 gv_add32"

definition VADDSBS :: "bool \<Rightarrow> ppu_opcode \<Rightarrow> ppu \<Rightarrow> ppu" where
  "VADDSBS sf = vec2_sat sf gv_adds_s8 (\<lambda>a b. gv_xor32 (gv_add8 a b) (gv_adds_s8 a b))"

definition VADDSHS :: "bool \<Rightarrow> ppu_opcode \<Rightarrow> ppu \<Rightarrow> ppu" where
  "VADDSHS sf = vec2_sat sf gv_adds_s16 (\<lambda>a b. gv_xor32 (gv_add16 a b) (gv_adds_s16 a b))"

definition VADDSWS :: "bool \<Rightarrow> ppu_opcode \<Rightarrow> ppu \<Rightarrow> ppu" where
  "VADDSWS sf = vec2_sat sf gv_adds_s32 (\<lambda>a b. gv_xor32 (gv_add32 a b) (gv_adds_s32 a b))"

definition VADDUBS :: "bool \<Rightarrow> ppu_opcode \<Rightarrow> ppu \<Rightarrow> ppu" where
  "VADDUBS sf = vec2_sat sf gv_addus_u8 (\<lambda>a b. gv_xor32 (gv_add8 a b) (gv_addus_u8 a b))"

definition VADDUHS :: "bool \<Rightarrow> ppu_opcode \<Rightarrow> ppu \<Rightarrow> ppu" where
  "VADDUHS sf = vec2_sat sf gv_addus_u16 (\<lambda>a b. gv_xor32 (gv_add16 a b) (gv_addus_u16 a b))"

definition VADDUWS :: "bool \<Rightarrow> ppu_opcode \<Rightarrow> ppu \<Rightarrow> ppu" where
  "VADDUWS sf = vec2_sat sf gv_addus_u32 (\<lambda>a b. gv_xor32 (gv_add32 a b) (gv_addus_u32 a b))"

definition VSUBCUW :: "ppu_opcode \<Rightarrow> ppu \<Rightarrow> ppu" where
  "VSUBCUW = vec2 (\<lambda>a b. gv_shr32n (gv_geu32 a b) 31)"

definition VSUBUBM :: "ppu_opcode \<Rightarrow> ppu \<Rightarrow> ppu" where
  "VSUBUBM = vec2 gv_sub8"

definition VSUBUHM :: "ppu_opcode \<Rightarrow> ppu \<Rightarrow> ppu" where
  "VSUBUHM = vec2 gv_sub16"

definition VSUBUWM :: "ppu_opcode \<Rightarrow> ppu \<Rightarrow> ppu" where
  "VSUBUWM = vec2 gv_sub32"

definition VSUBSBS :: "bool \<Rightarrow> ppu_opcode \<Rightarrow> ppu \<Rightarrow> ppu" where
  "VSUBSBS sf = vec2_sat sf gv_subs_s8 (\<lambda>a b. gv_xor32 (gv_sub8 a b) (gv_subs_s8 a b))"

definition VSUBSHS :: "bool \<Rightarrow> ppu_opcode \<Rightarrow> ppu \<Rightarrow> ppu" where
  "VSUBSHS sf = vec2_sat sf gv_subs_s16 (\<lambda>a b. gv_xor32 (gv_sub16 a b) (gv_subs_s16 a b))"

definition VSUBSWS :: "bool \<Rightarrow> ppu_opcode \<Rightarrow> ppu \<Rightarrow> ppu" where
  "VSUBSWS sf = vec2_sat sf gv_subs_s32 (\<lambda>a b. gv_xor32 (gv_sub32 a b) (gv_subs_s32 a b))"

definition VSUBUBS :: "bool \<Rightarrow> ppu_opcode \<Rightarrow> ppu \<Rightarrow> ppu" where
  "VSUBUBS sf = vec2_sat sf gv_subus_u8 (\<lambda>a b. gv_xor32 (gv_sub8 a b) (gv_subus_u8 a b))"

definition VSUBUHS :: "bool \<Rightarrow> ppu_opcode \<Rightarrow> ppu \<Rightarrow> ppu" where
  "VSUBUHS sf = vec2_sat sf gv_subus_u16 (\<lambda>a b. gv_xor32 (gv_sub16 a b) (gv_subus_u16 a b))"

definition VSUBUWS :: "bool \<Rightarrow> ppu_opcode \<Rightarrow> ppu \<Rightarrow> ppu" where
  "VSUBUWS sf = vec2_sat sf gv_subus_u32 (\<lambda>a b. gv_xor32 (gv_sub32 a b) (gv_subus_u32 a b))"

subsection \<open>Averages, maxima, minima and comparisons\<close>

definition VAVGSB :: "ppu_opcode \<Rightarrow> ppu \<Rightarrow> ppu" where
  "VAVGSB = vec2 gv_avgs8"

definition VAVGSH :: "ppu_opcode \<Rightarrow> ppu \<Rightarrow> ppu" where
  "VAVGSH = vec2 gv_avgs16"

definition VAVGSW :: "ppu_opcode \<Rightarrow> ppu \<Rightarrow> ppu" where
  "VAVGSW = vec2 gv_avgs32"

definition VAVGUB :: "ppu_opcode \<Rightarrow> ppu \<Rightarrow> ppu" where
  "VAVGUB = vec2 gv_avgu8"

definition VAVGUH :: "ppu_opcode \<Rightarrow> ppu \<Rightarrow> ppu" where
  "VAVGUH = vec2 gv_avgu16"

definition VAVGUW :: "ppu_opcode \<Rightarrow> ppu \<Rightarrow> ppu" where
  "VAVGUW = vec2 gv_avgu32"

definition VMAXSB :: "ppu_opcode \<Rightarrow> ppu \<Rightarrow> ppu" where
  "VMAXSB = vec2 gv_maxs8"

definition VMAXSH :: "ppu_opcode \<Rightarrow> ppu \<Rightarrow> ppu" where
  "VMAXSH = vec2 gv_maxs16"

definition VMAXSW :: "ppu_opcode \<Rightarrow> ppu \<Rightarrow> ppu" where
  "VMAXSW = vec2 gv_maxs32"

definition VMAXUB :: "ppu_opcode \<Rightarrow> ppu \<Rightarrow> ppu" where
  "VMAXUB = vec2 gv_maxu8"

definition VMAXUH :: "ppu_opcode \<Rightarrow> ppu \<Rightarrow> ppu" where
  "VMAXUH = vec2 gv_maxu16"

definition VMAXUW :: "ppu_opcode \<Rightarrow> ppu \<Rightarrow> ppu" where
  "VMAXUW = vec2 gv_maxu32"

definition VMINSB :: "ppu_opcode \<Rightarrow> ppu \<Rightarrow> ppu" where
  "VMINSB = vec2 gv_mins8"

definition VMINSH :: "ppu_opcode \<Rightarrow> ppu \<Rightarrow> ppu" where
  "VMINSH = vec2 gv_mins16"

definition VMINSW :: "ppu_opcode \<Rightarrow> ppu \<Rightarrow> ppu" where
  "VMINSW = vec2 gv_mins32"

definition VMINUB :: "ppu_opcode \<Rightarrow> ppu \<Rightarrow> ppu" where
  "VMINUB = vec2 gv_minu8"

definition VMINUH :: "ppu_opcode \<Rightarrow> ppu \<Rightarrow> ppu" where
  "VMINUH = vec2 gv_minu16"

definition VMINUW :: "ppu_opcode \<Rightarrow> ppu \<Rightarrow> ppu" where
  "VMINUW = vec2 gv_minu32"

definition VCMPEQUB :: "bool \<Rightarrow> ppu_opcode \<Rightarrow> ppu \<Rightarrow> ppu" where
  "VCMPEQUB = vcmp gv_eq8"

definition VCMPEQUH :: "bool \<Rightarrow> ppu_opcode \<Rightarrow> ppu \<Rightarrow> ppu" where
  "VCMPEQUH = vcmp gv_eq16"

definition VCMPEQUW :: "bool \<Rightarrow> ppu_opcode \<Rightarrow> ppu \<Rightarrow> ppu" where
  "VCMPEQUW = vcmp gv_eq32"

definition VCMPGTSB :: "bool \<Rightarrow> ppu_opcode \<Rightarrow> ppu \<Rightarrow> ppu" where
  "VCMPGTSB = vcmp gv_gts8"

definition VCMPGTSH :: "bool \<Rightarrow> ppu_opcode \<Rightarrow> ppu \<Rightarrow> ppu" where
  "VCMPGTSH = vcmp gv_gts16"

definition VCMPGTSW :: "bool \<Rightarrow> ppu_opcode \<Rightarrow> ppu \<Rightarrow> ppu" where
  "VCMPGTSW = vcmp gv_gts32"

definition VCMPGTUB :: "bool \<Rightarrow> ppu_opcode \<Rightarrow> ppu \<Rightarrow> ppu" where
  "VCMPGTUB = vcmp gv_gtu8"

definition VCMPGTUH :: "bool \<Rightarrow> ppu_opcode \<Rightarrow> ppu \<Rightarrow> ppu" where
  "VCMPGTUH = vcmp gv_gtu16"

definition VCMPGTUW :: "bool \<Rightarrow> ppu_opcode \<Rightarrow> ppu \<Rightarrow> ppu" where
  "VCMPGTUW = vcmp gv_gtu32"

subsection \<open>Logic\<close>

definition VAND :: "ppu_opcode \<Rightarrow> ppu \<Rightarrow> ppu" where
  "VAND = vec2 gv_andfs"

definition VANDC :: "ppu_opcode \<Rightarrow> ppu \<Rightarrow> ppu" where
  "VANDC = vec2 (\<lambda>a b. gv_andnfs b a)"

definition VNOR :: "ppu_opcode \<Rightarrow> ppu \<Rightarrow> ppu" where
  "VNOR = vec2 (\<lambda>a b. gv_notfs (gv_orfs a b))"

definition VOR :: "ppu_opcode \<Rightarrow> ppu \<Rightarrow> ppu" where
  "VOR = vec2 gv_orfs"

definition VXOR :: "ppu_opcode \<Rightarrow> ppu \<Rightarrow> ppu" where
  "VXOR = vec2 gv_xorfs"

definition VSEL :: "ppu_opcode \<Rightarrow> ppu \<Rightarrow> ppu" where
  "VSEL = vec3 (\<lambda>a b c. gv_orfs (gv_andfs b c) (gv_andnfs c a))"

subsection \<open>Multiplication\<close>

text \<open>The bits of \<open>x\<close>, \<open>f\<close> and \<open>r\<close> of the two multiply-high instructions, from the rounded or
  truncated product \<open>m\<close>.\<close>

definition mh_result :: "u128 \<Rightarrow> u128 \<Rightarrow> u128 \<Rightarrow> u128 \<Rightarrow> u128" where
  "mh_result m a b c =
     (let f = gv_gts16 (gv_bcst (0 :: u16)) c; x = gv_eq16 (gv_maxs16 a b) (gv_bcst (0x8000 :: u16))
      in gv_sub16 (gv_adds_s16 m c) (gv_and32 x f))"

definition mh_sat :: "u128 \<Rightarrow> u128 \<Rightarrow> u128 \<Rightarrow> u128 \<Rightarrow> u128" where
  "mh_sat m a b c =
     (let f = gv_gts16 (gv_bcst (0 :: u16)) c; x = gv_eq16 (gv_maxs16 a b) (gv_bcst (0x8000 :: u16));
          r = gv_sub16 (gv_adds_s16 m c) (gv_and32 x f); s = gv_add16 m c
      in gv_or32 (gv_andn32 f x) (gv_andn32 x (gv_xor32 s r)))"

definition VMHADDSHS :: "bool \<Rightarrow> ppu_opcode \<Rightarrow> ppu \<Rightarrow> ppu" where
  "VMHADDSHS sf = vec3_sat sf (\<lambda>a b c. mh_result (gv_muls_hds16 a b) a b c) (\<lambda>a b c. mh_sat (gv_muls_hds16 a b) a b c)"

definition VMHRADDSHS :: "bool \<Rightarrow> ppu_opcode \<Rightarrow> ppu \<Rightarrow> ppu" where
  "VMHRADDSHS sf =
     (if \<not> sf then vec3 gv_rmuladds_hds16
      else vec3_sat True (\<lambda>a b c. mh_result (gv_rmuls_hds16 a b) a b c) (\<lambda>a b c. mh_sat (gv_rmuls_hds16 a b) a b c))"

definition VMLADDUHM :: "ppu_opcode \<Rightarrow> ppu \<Rightarrow> ppu" where
  "VMLADDUHM = vec3 gv_muladd16"

definition VMSUMMBM :: "ppu_opcode \<Rightarrow> ppu \<Rightarrow> ppu" where
  "VMSUMMBM = vec3 (\<lambda>a b c. gv_dotu8s8x4 b a c)"

definition VMSUMSHM :: "ppu_opcode \<Rightarrow> ppu \<Rightarrow> ppu" where
  "VMSUMSHM = vec3 gv_dots16x2_add"

definition VMSUMSHS :: "bool \<Rightarrow> ppu_opcode \<Rightarrow> ppu \<Rightarrow> ppu" where
  "VMSUMSHS sf = vec3_sat sf gv_dots_s16x2 (\<lambda>a b c. gv_xor32 (gv_dots16x2_add a b c) (gv_dots_s16x2 a b c))"

definition VMSUMUBM :: "ppu_opcode \<Rightarrow> ppu \<Rightarrow> ppu" where
  "VMSUMUBM = vec3 gv_dotu8x4"

definition VMSUMUHM :: "ppu_opcode \<Rightarrow> ppu \<Rightarrow> ppu" where
  "VMSUMUHM = vec3 (\<lambda>a b c. gv_add32 c (gv_dotu16x2 a b))"

definition VMSUMUHS :: "bool \<Rightarrow> ppu_opcode \<Rightarrow> ppu \<Rightarrow> ppu" where
  "VMSUMUHS sf op s =
     (let a = vr s (op_va op); b = vr s (op_vb op); c = vr s (op_vc op);
          m1 = gv_mul_even_u16 a b; m2 = gv_mul_odds_u16 a b;
          s1 = gv_add32 m1 m2; x1 = gv_gtu32 m1 s1;
          s2 = gv_or32 (gv_add32 s1 c) x1; x2 = gv_gtu32 s1 s2
      in put_vr (op_vd op) (gv_or32 s2 x2) (or_sat sf (gv_or32 x1 x2) s))"

definition VMULESB :: "ppu_opcode \<Rightarrow> ppu \<Rightarrow> ppu" where
  "VMULESB = vec2 (\<lambda>a b. gv_mul16 (gv_sar16n a 8) (gv_sar16n b 8))"

definition VMULESH :: "ppu_opcode \<Rightarrow> ppu \<Rightarrow> ppu" where
  "VMULESH = vec2 gv_mul_odds_s16"

definition VMULEUB :: "ppu_opcode \<Rightarrow> ppu \<Rightarrow> ppu" where
  "VMULEUB = vec2 (\<lambda>a b. gv_mul16 (gv_shr16n a 8) (gv_shr16n b 8))"

definition VMULEUH :: "ppu_opcode \<Rightarrow> ppu \<Rightarrow> ppu" where
  "VMULEUH = vec2 gv_mul_odds_u16"

definition VMULOSB :: "ppu_opcode \<Rightarrow> ppu \<Rightarrow> ppu" where
  "VMULOSB = vec2 (\<lambda>a b. gv_mul16 (gv_sar16n (gv_shl16n a 8) 8) (gv_sar16n (gv_shl16n b 8) 8))"

definition VMULOSH :: "ppu_opcode \<Rightarrow> ppu \<Rightarrow> ppu" where
  "VMULOSH = vec2 gv_mul_even_s16"

definition VMULOUB :: "ppu_opcode \<Rightarrow> ppu \<Rightarrow> ppu" where
  "VMULOUB = vec2 (\<lambda>a b. let mask = gv_bcst (0x00ff :: u16) in gv_mul16 (gv_and32 a mask) (gv_and32 b mask))"

definition VMULOUH :: "ppu_opcode \<Rightarrow> ppu \<Rightarrow> ppu" where
  "VMULOUH = vec2 gv_mul_even_u16"

subsection \<open>Sums across\<close>

definition VSUMSWS :: "bool \<Rightarrow> ppu_opcode \<Rightarrow> ppu \<Rightarrow> ppu" where
  "VSUMSWS sf op s =
     (let a = lanes (vr s (op_va op)) :: u32 list; b = lanes (vr s (op_vb op)) :: u32 list;
          sum = sint (b ! 0) + sint (a ! 0) + sint (a ! 1) + sint (a ! 2) + sint (a ! 3);
          t = (if sf \<and> (sum > 2 ^ 31 - 1 \<or> sum < - (2 ^ 31)) then s\<lparr>sat := (sat s AND NOT 0xff) OR 1\<rparr> else s)
      in put_vr (op_vd op)
           (if sum > 2 ^ 31 - 1 then 0x7fffffff else if sum < - (2 ^ 31) then 0x80000000
            else ucast (word_of_int sum :: u32)) t)"

definition VSUM2SWS :: "bool \<Rightarrow> ppu_opcode \<Rightarrow> ppu \<Rightarrow> ppu" where
  "VSUM2SWS sf op s =
     (let a = lanes (vr s (op_va op)) :: u32 list; b = lanes (vr s (op_vb op)) :: u32 list;
          x = map2 (\<lambda>p q. scast p + scast q :: u64) (vget_low (vuzp1 a a)) (vget_low (vuzp2 a a));
          y = map2 (\<lambda>p q. p + scast q :: u64) x (vget_low (vuzp1 b b));
          r = map (\<lambda>z. ucast (ssat (sint z) :: u32) :: u64) y
      in put_vr (op_vd op) (of_lanes r)
           (or_sat sf (gv_shr64n (gv_add64 (of_lanes y) (gv_bcst (0x80000000 :: u64))) 32) s))"

definition VSUM4SBS :: "bool \<Rightarrow> ppu_opcode \<Rightarrow> ppu \<Rightarrow> ppu" where
  "VSUM4SBS sf = vec2_sat sf (gv_dots_u8s8x4 (gv_bcst (1 :: u8))) (\<lambda>a b. gv_xor32 (gv_hadds8x4 a b) (gv_dots_u8s8x4 (gv_bcst (1 :: u8)) a b))"

definition VSUM4SHS :: "bool \<Rightarrow> ppu_opcode \<Rightarrow> ppu \<Rightarrow> ppu" where
  "VSUM4SHS sf = vec2_sat sf (\<lambda>a b. gv_dots_s16x2 a (gv_bcst (1 :: u16)) b) (\<lambda>a b. gv_xor32 (gv_hadds16x2 a b) (gv_dots_s16x2 a (gv_bcst (1 :: u16)) b))"

definition VSUM4UBS :: "bool \<Rightarrow> ppu_opcode \<Rightarrow> ppu \<Rightarrow> ppu" where
  "VSUM4UBS sf = vec2_sat sf (\<lambda>a b. gv_addus_u32 (gv_haddu8x4 a) b) (\<lambda>a b. gv_xor32 (gv_add32 (gv_haddu8x4 a) b) (gv_addus_u32 (gv_haddu8x4 a) b))"

subsection \<open>Permutation\<close>

definition VPERM :: "ppu_opcode \<Rightarrow> ppu \<Rightarrow> ppu" where
  "VPERM = vec3 (\<lambda>a b c. of_lanes (vqtbl (lanes b @ lanes a) (map (\<lambda>x. 0x1f AND NOT x) (lanes c))))"

text \<open>\<open>VSLDOI\<close> takes the count as a template argument.\<close>

definition VSLDOI :: "nat \<Rightarrow> ppu_opcode \<Rightarrow> ppu \<Rightarrow> ppu" where
  "VSLDOI count = vec2 (\<lambda>a b. gv_or32 (gv_shuffle_left count a) (gv_shuffle_right (16 - count) b))"

definition VMRGHB :: "ppu_opcode \<Rightarrow> ppu \<Rightarrow> ppu" where
  "VMRGHB = vec2 (\<lambda>a b. gv_unpackhi8 b a)"

definition VMRGHH :: "ppu_opcode \<Rightarrow> ppu \<Rightarrow> ppu" where
  "VMRGHH = vec2 (\<lambda>a b. gv_unpackhi16 b a)"

definition VMRGHW :: "ppu_opcode \<Rightarrow> ppu \<Rightarrow> ppu" where
  "VMRGHW = vec2 (\<lambda>a b. gv_unpackhi32 b a)"

definition VMRGLB :: "ppu_opcode \<Rightarrow> ppu \<Rightarrow> ppu" where
  "VMRGLB = vec2 (\<lambda>a b. gv_unpacklo8 b a)"

definition VMRGLH :: "ppu_opcode \<Rightarrow> ppu \<Rightarrow> ppu" where
  "VMRGLH = vec2 (\<lambda>a b. gv_unpacklo16 b a)"

definition VMRGLW :: "ppu_opcode \<Rightarrow> ppu \<Rightarrow> ppu" where
  "VMRGLW = vec2 (\<lambda>a b. gv_unpacklo32 b a)"

definition VSPLTB :: "ppu_opcode \<Rightarrow> ppu \<Rightarrow> ppu" where
  "VSPLTB op = vec1 (\<lambda>b. gv_bcst ((elems b :: u8 list) ! unat (op_vuimm op AND 15))) op"

definition VSPLTH :: "ppu_opcode \<Rightarrow> ppu \<Rightarrow> ppu" where
  "VSPLTH op = vec1 (\<lambda>b. gv_bcst ((elems b :: u16 list) ! unat (op_vuimm op AND 7))) op"

definition VSPLTW :: "ppu_opcode \<Rightarrow> ppu \<Rightarrow> ppu" where
  "VSPLTW op = vec1 (\<lambda>b. gv_bcst ((elems b :: u32 list) ! unat (op_vuimm op AND 3))) op"

definition VSPLTISB :: "ppu_opcode \<Rightarrow> ppu \<Rightarrow> ppu" where
  "VSPLTISB op s = put_vr (op_vd op) (gv_bcst (ucast (op_vsimm op) :: u8)) s"

definition VSPLTISH :: "ppu_opcode \<Rightarrow> ppu \<Rightarrow> ppu" where
  "VSPLTISH op s = put_vr (op_vd op) (gv_bcst (ucast (op_vsimm op) :: u16)) s"

definition VSPLTISW :: "ppu_opcode \<Rightarrow> ppu \<Rightarrow> ppu" where
  "VSPLTISW op s = put_vr (op_vd op) (gv_bcst (ucast (op_vsimm op) :: u32)) s"

subsection \<open>Packing and unpacking\<close>

definition VPKPX :: "ppu_opcode \<Rightarrow> ppu \<Rightarrow> ppu" where
  "VPKPX = vec2 (\<lambda>a b.
     let a1 = gv_sar32n (gv_shl32n a 7) (7 + 9); b1 = gv_sar32n (gv_shl32n b 7) (7 + 9);
         a2 = gv_sar32n (gv_shl32n a 16) (16 + 3); b2 = gv_sar32n (gv_shl32n b 16) (16 + 3);
         p1 = gv_packss_s32 b1 a1; p2 = gv_packss_s32 b2 a2
     in gv_or32 (gv_or32 (gv_and32 p1 (gv_bcst (0xfc00 :: u16))) (gv_shl16n (gv_and32 p1 (gv_bcst (0x7c :: u16))) 3))
          (gv_and32 p2 (gv_bcst (0x1f :: u16))))"

definition VPKSHSS :: "bool \<Rightarrow> ppu_opcode \<Rightarrow> ppu \<Rightarrow> ppu" where
  "VPKSHSS sf = vec2_sat sf (\<lambda>a b. gv_packss_s16 b a) (\<lambda>a b. gv_shr16n (gv_add16 a (gv_bcst (0x80 :: u16)) OR gv_add16 b (gv_bcst (0x80 :: u16))) 8)"

definition VPKSHUS :: "bool \<Rightarrow> ppu_opcode \<Rightarrow> ppu \<Rightarrow> ppu" where
  "VPKSHUS sf = vec2_sat sf (\<lambda>a b. gv_packus_s16 b a) (\<lambda>a b. gv_shr16n (a OR b) 8)"

definition VPKSWSS :: "bool \<Rightarrow> ppu_opcode \<Rightarrow> ppu \<Rightarrow> ppu" where
  "VPKSWSS sf = vec2_sat sf (\<lambda>a b. gv_packss_s32 b a) (\<lambda>a b. gv_shr32n (gv_add32 a (gv_bcst (0x8000 :: u32)) OR gv_add32 b (gv_bcst (0x8000 :: u32))) 16)"

definition VPKSWUS :: "bool \<Rightarrow> ppu_opcode \<Rightarrow> ppu \<Rightarrow> ppu" where
  "VPKSWUS sf = vec2_sat sf (\<lambda>a b. gv_packus_s32 b a) (\<lambda>a b. gv_shr32n (a OR b) 16)"

definition VPKUHUM :: "ppu_opcode \<Rightarrow> ppu \<Rightarrow> ppu" where
  "VPKUHUM = vec2 (\<lambda>a b. gv_packtu16 b a)"

definition VPKUHUS :: "bool \<Rightarrow> ppu_opcode \<Rightarrow> ppu \<Rightarrow> ppu" where
  "VPKUHUS sf = vec2_sat sf (\<lambda>a b. gv_packus_u16 b a) (\<lambda>a b. gv_shr16n (a OR b) 8)"

definition VPKUWUM :: "ppu_opcode \<Rightarrow> ppu \<Rightarrow> ppu" where
  "VPKUWUM = vec2 (\<lambda>a b. gv_packtu32 b a)"

definition VPKUWUS :: "bool \<Rightarrow> ppu_opcode \<Rightarrow> ppu \<Rightarrow> ppu" where
  "VPKUWUS sf = vec2_sat sf (\<lambda>a b. gv_packus_u32 b a) (\<lambda>a b. gv_shr32n (a OR b) 16)"

definition VUPKHPX :: "ppu_opcode \<Rightarrow> ppu \<Rightarrow> ppu" where
  "VUPKHPX = vec1 (\<lambda>b.
     let x = gv_extend_hi_s16 b;
         y = gv_or32 (gv_and32 (gv_shl32n x 6) (gv_bcst (0x1f0000 :: u32))) (gv_and32 (gv_shl32n x 3) (gv_bcst (0x1f00 :: u32)))
     in gv_or32 y (gv_and32 x (gv_bcst (0xff00001f :: u32))))"

definition VUPKHSB :: "ppu_opcode \<Rightarrow> ppu \<Rightarrow> ppu" where
  "VUPKHSB = vec1 gv_extend_hi_s8"

definition VUPKHSH :: "ppu_opcode \<Rightarrow> ppu \<Rightarrow> ppu" where
  "VUPKHSH = vec1 gv_extend_hi_s16"

definition VUPKLPX :: "ppu_opcode \<Rightarrow> ppu \<Rightarrow> ppu" where
  "VUPKLPX = vec1 (\<lambda>b.
     let x = gv_extend_lo_s16 b;
         y = gv_or32 (gv_and32 (gv_shl32n x 6) (gv_bcst (0x1f0000 :: u32))) (gv_and32 (gv_shl32n x 3) (gv_bcst (0x1f00 :: u32)))
     in gv_or32 y (gv_and32 x (gv_bcst (0xff00001f :: u32))))"

definition VUPKLSB :: "ppu_opcode \<Rightarrow> ppu \<Rightarrow> ppu" where
  "VUPKLSB = vec1 gv_extend_lo_s8"

definition VUPKLSH :: "ppu_opcode \<Rightarrow> ppu \<Rightarrow> ppu" where
  "VUPKLSH = vec1 gv_extend_lo_s16"

subsection \<open>Shifts and rotations\<close>

definition VRLB :: "ppu_opcode \<Rightarrow> ppu \<Rightarrow> ppu" where
  "VRLB = vec2 gv_rol8"

definition VRLH :: "ppu_opcode \<Rightarrow> ppu \<Rightarrow> ppu" where
  "VRLH = vec2 gv_rol16"

definition VRLW :: "ppu_opcode \<Rightarrow> ppu \<Rightarrow> ppu" where
  "VRLW = vec2 gv_rol32"

definition VSLB :: "ppu_opcode \<Rightarrow> ppu \<Rightarrow> ppu" where
  "VSLB = vec2 gv_shl8"

definition VSLH :: "ppu_opcode \<Rightarrow> ppu \<Rightarrow> ppu" where
  "VSLH = vec2 gv_shl16"

definition VSLW :: "ppu_opcode \<Rightarrow> ppu \<Rightarrow> ppu" where
  "VSLW = vec2 gv_shl32"

definition VSRB :: "ppu_opcode \<Rightarrow> ppu \<Rightarrow> ppu" where
  "VSRB = vec2 gv_shr8"

definition VSRH :: "ppu_opcode \<Rightarrow> ppu \<Rightarrow> ppu" where
  "VSRH = vec2 gv_shr16"

definition VSRW :: "ppu_opcode \<Rightarrow> ppu \<Rightarrow> ppu" where
  "VSRW = vec2 gv_shr32"

definition VSRAB :: "ppu_opcode \<Rightarrow> ppu \<Rightarrow> ppu" where
  "VSRAB = vec2 gv_sar8"

definition VSRAH :: "ppu_opcode \<Rightarrow> ppu \<Rightarrow> ppu" where
  "VSRAH = vec2 gv_sar16"

definition VSRAW :: "ppu_opcode \<Rightarrow> ppu \<Rightarrow> ppu" where
  "VSRAW = vec2 gv_sar32"

definition VSL :: "ppu_opcode \<Rightarrow> ppu \<Rightarrow> ppu" where
  "VSL = vec2 (\<lambda>a b. gv_fshl8 a (gv_shuffle_left 1 a) b)"

definition VSR :: "ppu_opcode \<Rightarrow> ppu \<Rightarrow> ppu" where
  "VSR = vec2 (\<lambda>a b. gv_fshr8 (gv_shuffle_right 1 a) a b)"

definition VSLO :: "ppu_opcode \<Rightarrow> ppu \<Rightarrow> ppu" where
  "VSLO = vec2 (\<lambda>a b. push_bit (unat ((lanes b :: u8 list) ! 0 AND 0x78)) a)"

definition VSRO :: "ppu_opcode \<Rightarrow> ppu \<Rightarrow> ppu" where
  "VSRO = vec2 (\<lambda>a b. drop_bit (unat ((lanes b :: u8 list) ! 0 AND 0x78)) a)"

section \<open>Saturation\<close>

lemma or_sat_simps [simp]:
  "vr (or_sat sf x s) = vr s" "sat (or_sat sf x s) = (if sf then x OR sat s else sat s)"
  "cr_bits (or_sat sf x s) = cr_bits s" "rdata (or_sat sf x s) = rdata s"
  by (simp_all add: or_sat_def)

lemma or_nonzero: "a OR b \<noteq> 0 \<longleftrightarrow> a \<noteq> 0 \<or> b \<noteq> 0" for a b :: "'a::len word"
  by (auto simp: bit_eq_iff bit_simps)

lemma xor_nonzero: "a XOR b \<noteq> 0 \<longleftrightarrow> a \<noteq> b" for a b :: "'a::len word"
  by (auto simp: bit_eq_iff bit_simps)

lemma half_power: "2 ^ LENGTH('a) = 2 * (2 :: int) ^ (LENGTH('a::len) - 1)"
  by (metis Suc_diff_1 len_gt_0 power_Suc)

lemma sint_ssat: "sint (ssat z :: 'a::len word) = max (- (2 ^ (LENGTH('a) - 1))) (min (2 ^ (LENGTH('a) - 1) - 1) z)"
  unfolding ssat_def sint_sbintrunc' by (rule signed_take_bit_int_eq_self) auto

lemma uint_usat: "uint (usat z :: 'a::len word) = max 0 (min (2 ^ LENGTH('a) - 1) z)"
  unfolding usat_def uint_word_of_int_eq by (rule take_bit_int_eq_self) auto

lemma word_of_int_near:
  assumes "\<bar>a - b\<bar> < 2 ^ LENGTH('a)"
  shows "word_of_int a = (word_of_int b :: 'a::len word) \<longleftrightarrow> a = b"
proof
  assume "word_of_int a = (word_of_int b :: 'a word)"
  then have "a mod 2 ^ LENGTH('a) = b mod 2 ^ LENGTH('a)" by (metis uint_word_of_int)
  then have "2 ^ LENGTH('a) dvd a - b" by (simp only: mod_eq_dvd_iff)
  then show "a = b" using dvd_imp_le_int [of "a - b" "2 ^ LENGTH('a)"] assms by fastforce
qed simp

lemma wrap_ssat:
  assumes "- (2 ^ LENGTH('a)) \<le> z" "z < 2 ^ LENGTH('a)"
  shows "word_of_int z = (ssat z :: 'a::len word) \<longleftrightarrow> - (2 ^ (LENGTH('a) - 1)) \<le> z \<and> z \<le> 2 ^ (LENGTH('a) - 1) - 1"
proof -
  define h :: int where "h = 2 ^ (LENGTH('a) - 1)"
  have h: "0 < h" "2 ^ LENGTH('a) = 2 * h" unfolding h_def half_power by simp_all
  have "\<bar>z - max (- h) (min (h - 1) z)\<bar> < 2 ^ LENGTH('a)" using assms h by auto
  then show ?thesis unfolding ssat_def h_def [symmetric] using h(1) by (auto simp: word_of_int_near max_def min_def split: if_splits)
qed

lemma wrap_usat:
  assumes "- (2 ^ LENGTH('a)) < z" "z < 2 * 2 ^ LENGTH('a) - 1"
  shows "word_of_int z = (usat z :: 'a::len word) \<longleftrightarrow> 0 \<le> z \<and> z \<le> 2 ^ LENGTH('a) - 1"
proof -
  have "\<bar>z - max 0 (min (2 ^ LENGTH('a) - 1) z)\<bar> < 2 ^ LENGTH('a)" using assms by auto
  then show ?thesis unfolding usat_def by (auto simp: word_of_int_near max_def min_def split: if_splits)
qed

lemma vqadd_s_wrap: "x + y = vqadd_s x y \<longleftrightarrow> - (2 ^ (LENGTH('a) - 1)) \<le> sint x + sint y \<and> sint x + sint y \<le> 2 ^ (LENGTH('a) - 1) - 1"
  for x y :: "'a::len word"
proof -
  have "x + y = word_of_int (sint x + sint y)" by simp
  then show ?thesis unfolding vqadd_s_def using sint_range [of x] sint_range [of y] half_power [where 'a = 'a]
    by (simp only:) (rule wrap_ssat, linarith+)
qed

lemma vqsub_s_wrap: "x - y = vqsub_s x y \<longleftrightarrow> - (2 ^ (LENGTH('a) - 1)) \<le> sint x - sint y \<and> sint x - sint y \<le> 2 ^ (LENGTH('a) - 1) - 1"
  for x y :: "'a::len word"
proof -
  have "x - y = word_of_int (sint x - sint y)" by simp
  then show ?thesis unfolding vqsub_s_def using sint_range [of x] sint_range [of y] half_power [where 'a = 'a]
    by (simp only:) (rule wrap_ssat, linarith+)
qed

lemma vqadd_u_wrap: "x + y = vqadd_u x y \<longleftrightarrow> 0 \<le> uint x + uint y \<and> uint x + uint y \<le> 2 ^ LENGTH('a) - 1"
  for x y :: "'a::len word"
proof -
  have "x + y = word_of_int (uint x + uint y)" by simp
  moreover have "0 \<le> uint x" "0 \<le> uint y" "uint x < 2 ^ LENGTH('a)" "uint y < 2 ^ LENGTH('a)" by (simp_all add: unsigned_less)
  ultimately show ?thesis unfolding vqadd_u_def by (simp only:) (rule wrap_usat, linarith+)
qed

lemma vqsub_u_wrap: "x - y = vqsub_u x y \<longleftrightarrow> 0 \<le> uint x - uint y \<and> uint x - uint y \<le> 2 ^ LENGTH('a) - 1"
  for x y :: "'a::len word"
proof -
  have "x - y = word_of_int (uint x - uint y)" by simp
  moreover have "0 \<le> uint x" "0 \<le> uint y" "uint x < 2 ^ LENGTH('a)" "uint y < 2 ^ LENGTH('a)" by (simp_all add: unsigned_less)
  ultimately show ?thesis unfolding vqsub_u_def by (simp only:) (rule wrap_usat, linarith+)
qed

text \<open>An instruction saturates exactly: every element of the result is the exact value clamped to
  the range, and the saturation bit, when tracked, stays set or is set by an element outside the
  range.\<close>

definition saturating2 :: "(bool \<Rightarrow> ppu_opcode \<Rightarrow> ppu \<Rightarrow> ppu) \<Rightarrow> ('a::len word \<Rightarrow> int) \<Rightarrow> (int \<Rightarrow> int \<Rightarrow> int) \<Rightarrow>
    int \<Rightarrow> int \<Rightarrow> ppu_opcode \<Rightarrow> ppu \<Rightarrow> bool" where
  "saturating2 I val f lo hi op s \<longleftrightarrow>
     (\<forall>sf. map val (lanes (vr (I sf op s) (op_vd op))) =
        map2 (\<lambda>x y. max lo (min hi (f (val x) (val y)))) (lanes (vr s (op_va op))) (lanes (vr s (op_vb op)))) \<and>
     sat (I False op s) = sat s \<and>
     (sat (I True op s) \<noteq> 0 \<longleftrightarrow> sat s \<noteq> 0 \<or>
        list_ex (\<lambda>(x, y). \<not> (lo \<le> f (val x) (val y) \<and> f (val x) (val y) \<le> hi))
          (zip (lanes (vr s (op_va op))) (lanes (vr s (op_vb op)))))"

lemma map2_eq_iff: "length xs = length ys \<Longrightarrow> map2 f xs ys = map2 g xs ys \<longleftrightarrow> (\<forall>(x, y) \<in> set (zip xs ys). f x y = g x y)"
  by (induction xs ys rule: list_induct2) auto

lemma saturating2I:
  fixes q w :: "'a::len word \<Rightarrow> 'a word \<Rightarrow> 'a word"
  assumes len: "LENGTH('a) dvd 128"
    and I: "\<And>sf. I sf = vec2_sat sf (lanes2 q) (\<lambda>a b. gv_xor32 (lanes2 w a b) (lanes2 q a b))"
    and q: "\<And>x y. val (q x y) = max lo (min hi (f (val x) (val y)))"
    and w: "\<And>x y. w x y = q x y \<longleftrightarrow> lo \<le> f (val x) (val y) \<and> f (val x) (val y) \<le> hi"
  shows "saturating2 I val f lo hi op s"
proof -
  let ?a = "vr s (op_va op)" and ?b = "vr s (op_vb op)"
  have v: "lane_view (lanes :: u128 \<Rightarrow> 'a word list) of_lanes (128 div LENGTH('a))" using len by (intro lane_views) simp
  have "lanes2 w ?a ?b \<noteq> lanes2 q ?a ?b \<longleftrightarrow> (lanes (lanes2 w ?a ?b) :: 'a word list) \<noteq> lanes (lanes2 q ?a ?b)"
    by (simp only: lane_view.view_eq_iff [OF v])
  also have "\<dots> \<longleftrightarrow> list_ex (\<lambda>(x, y). w x y \<noteq> q x y) (zip (lanes ?a) (lanes ?b))"
    using len by (simp add: map2_eq_iff list_ex_iff case_prod_unfold)
  finally have "lanes2 w ?a ?b \<noteq> lanes2 q ?a ?b \<longleftrightarrow> list_ex (\<lambda>(x, y). w x y \<noteq> q x y) (zip (lanes ?a) (lanes ?b))" .
  then show ?thesis using len
    by (auto simp: saturating2_def I vec2_sat_def vec2_def or_nonzero xor_nonzero q w comp_def case_prod_unfold)
qed

lemma saturating_add_s:
  assumes "LENGTH('a::len) dvd 128"
    and "\<And>sf. I sf = vec2_sat sf (lanes2 (vqadd_s :: 'a word \<Rightarrow> _)) (\<lambda>a b. gv_xor32 (lanes2 ((+) :: 'a word \<Rightarrow> _) a b) (lanes2 (vqadd_s :: 'a word \<Rightarrow> _) a b))"
  shows "saturating2 I (sint :: 'a word \<Rightarrow> int) (+) (- (2 ^ (LENGTH('a) - 1))) (2 ^ (LENGTH('a) - 1) - 1) op s"
  by (rule saturating2I [OF assms]) (simp only: vqadd_s_def sint_ssat, rule vqadd_s_wrap)

lemma saturating_sub_s:
  assumes "LENGTH('a::len) dvd 128"
    and "\<And>sf. I sf = vec2_sat sf (lanes2 (vqsub_s :: 'a word \<Rightarrow> _)) (\<lambda>a b. gv_xor32 (lanes2 ((-) :: 'a word \<Rightarrow> _) a b) (lanes2 (vqsub_s :: 'a word \<Rightarrow> _) a b))"
  shows "saturating2 I (sint :: 'a word \<Rightarrow> int) (-) (- (2 ^ (LENGTH('a) - 1))) (2 ^ (LENGTH('a) - 1) - 1) op s"
  by (rule saturating2I [OF assms]) (simp only: vqsub_s_def sint_ssat, rule vqsub_s_wrap)

lemma saturating_add_u:
  assumes "LENGTH('a::len) dvd 128"
    and "\<And>sf. I sf = vec2_sat sf (lanes2 (vqadd_u :: 'a word \<Rightarrow> _)) (\<lambda>a b. gv_xor32 (lanes2 ((+) :: 'a word \<Rightarrow> _) a b) (lanes2 (vqadd_u :: 'a word \<Rightarrow> _) a b))"
  shows "saturating2 I (uint :: 'a word \<Rightarrow> int) (+) 0 (2 ^ LENGTH('a) - 1) op s"
  by (rule saturating2I [OF assms]) (simp only: vqadd_u_def uint_usat, rule vqadd_u_wrap)

lemma saturating_sub_u:
  assumes "LENGTH('a::len) dvd 128"
    and "\<And>sf. I sf = vec2_sat sf (lanes2 (vqsub_u :: 'a word \<Rightarrow> _)) (\<lambda>a b. gv_xor32 (lanes2 ((-) :: 'a word \<Rightarrow> _) a b) (lanes2 (vqsub_u :: 'a word \<Rightarrow> _) a b))"
  shows "saturating2 I (uint :: 'a word \<Rightarrow> int) (-) 0 (2 ^ LENGTH('a) - 1) op s"
  by (rule saturating2I [OF assms]) (simp only: vqsub_u_def uint_usat, rule vqsub_u_wrap)

lemmas saturating_8 = saturating_add_s [where 'a = 8, simplified]
  saturating_sub_s [where 'a = 8, simplified]
  saturating_add_u [where 'a = 8, simplified]
  saturating_sub_u [where 'a = 8, simplified]
lemmas saturating_16 = saturating_add_s [where 'a = 16, simplified]
  saturating_sub_s [where 'a = 16, simplified]
  saturating_add_u [where 'a = 16, simplified]
  saturating_sub_u [where 'a = 16, simplified]
lemmas saturating_32 = saturating_add_s [where 'a = 32, simplified]
  saturating_sub_s [where 'a = 32, simplified]
  saturating_add_u [where 'a = 32, simplified]
  saturating_sub_u [where 'a = 32, simplified]

text \<open>C27: saturating vector addition and subtraction, at every width, signed and unsigned. Every
  element of the result is the exact sum or difference clamped to the range of the element, whether
  or not the saturation bit is tracked; when it is, it is set afterwards exactly when it was set
  before or some element was out of range (it is sticky).\<close>

theorem vector_saturation_exact:
  "saturating2 VADDSBS (sint :: u8 \<Rightarrow> int) (+) (- 128) 127 op s \<and>
   saturating2 VADDSHS (sint :: u16 \<Rightarrow> int) (+) (- 32768) 32767 op s \<and>
   saturating2 VADDSWS (sint :: u32 \<Rightarrow> int) (+) (- 2147483648) 2147483647 op s \<and>
   saturating2 VADDUBS (uint :: u8 \<Rightarrow> int) (+) 0 255 op s \<and>
   saturating2 VADDUHS (uint :: u16 \<Rightarrow> int) (+) 0 65535 op s \<and>
   saturating2 VADDUWS (uint :: u32 \<Rightarrow> int) (+) 0 4294967295 op s \<and>
   saturating2 VSUBSBS (sint :: u8 \<Rightarrow> int) (-) (- 128) 127 op s \<and>
   saturating2 VSUBSHS (sint :: u16 \<Rightarrow> int) (-) (- 32768) 32767 op s \<and>
   saturating2 VSUBSWS (sint :: u32 \<Rightarrow> int) (-) (- 2147483648) 2147483647 op s \<and>
   saturating2 VSUBUBS (uint :: u8 \<Rightarrow> int) (-) 0 255 op s \<and>
   saturating2 VSUBUHS (uint :: u16 \<Rightarrow> int) (-) 0 65535 op s \<and>
   saturating2 VSUBUWS (uint :: u32 \<Rightarrow> int) (-) 0 4294967295 op s"
  by (intro conjI; rule saturating_8 saturating_16 saturating_32;
      rule VADDSBS_def VADDSHS_def VADDSWS_def VADDUBS_def VADDUHS_def VADDUWS_def
        VSUBSBS_def VSUBSHS_def VSUBSWS_def VSUBUBS_def VSUBUHS_def VSUBUWS_def)

section \<open>Elementwise arithmetic\<close>

definition elementwise2 :: "(ppu_opcode \<Rightarrow> ppu \<Rightarrow> ppu) \<Rightarrow> ('a::len word \<Rightarrow> int) \<Rightarrow> (int \<Rightarrow> int \<Rightarrow> int) \<Rightarrow>
    ppu_opcode \<Rightarrow> ppu \<Rightarrow> bool" where
  "elementwise2 I val f op s \<longleftrightarrow>
     map val (lanes (vr (I op s) (op_vd op))) =
       map2 (\<lambda>x y. f (val x) (val y)) (lanes (vr s (op_va op))) (lanes (vr s (op_vb op)))"

lemma elementwise2I:
  fixes g :: "'a::len word \<Rightarrow> 'a word \<Rightarrow> 'a word"
  assumes "I = vec2 F" "\<And>a b. lanes (F a b) = map2 g (lanes a) (lanes b)" "\<And>x y. val (g x y) = f (val x) (val y)"
  shows "elementwise2 I val f op s"
  by (simp add: elementwise2_def assms vec2_def comp_def case_prod_unfold)

lemma uint_range: "0 \<le> uint x" "uint x < 2 ^ LENGTH('a)" for x :: "'a::len word"
  by (simp_all add: unsigned_less)

lemma uint_vrhadd: "uint (vrhadd_u x y) = (uint x + uint y + 1) div 2" for x y :: "'a::len word"
proof -
  have "0 \<le> (uint x + uint y + 1) div 2" "(uint x + uint y + 1) div 2 < 2 ^ LENGTH('a)"
    using uint_range [of x] uint_range [of y] by linarith+
  then show ?thesis unfolding vrhadd_u_def uint_word_of_int by (rule mod_pos_pos_trivial)
qed

lemma sint_vrhadd: "sint (vrhadd_s x y) = (sint x + sint y + 1) div 2" for x y :: "'a::len word"
proof -
  define h :: int where "h = 2 ^ (LENGTH('a) - 1)"
  have "- h \<le> (sint x + sint y + 1) div 2" "(sint x + sint y + 1) div 2 < h"
    using sint_range [of x] sint_range [of y] unfolding h_def [symmetric] by linarith+
  then show ?thesis unfolding vrhadd_s_def sint_sbintrunc' h_def by (rule signed_take_bit_int_eq_self)
qed

lemma uint_maxmin: "uint (max x y) = max (uint x) (uint y)" "uint (min x y) = min (uint x) (uint y)" for x y :: "'a::len word"
  by (simp_all add: max_def min_def word_le_def)

lemma sint_maxmin: "sint (vmax_s x y) = max (sint x) (sint y)" "sint (vmin_s x y) = min (sint x) (sint y)" for x y :: "'a::len word"
  by (simp_all add: vmax_s_def vmin_s_def max_def min_def word_sless_alt)

lemmas elementwise_lanes = uint_word_ariths(1,2) uint_vrhadd sint_vrhadd uint_maxmin sint_maxmin

lemma uint_not: "uint (NOT x) = 2 ^ LENGTH('a) - 1 - uint x" for x :: "'a::len word"
proof -
  have "uint (NOT x) = (- uint x - 1) mod 2 ^ LENGTH('a)"
    by (simp add: unsigned_not_eq take_bit_eq_mod not_int_def)
  also have "\<dots> = (2 ^ LENGTH('a) - 1 - uint x) mod 2 ^ LENGTH('a)"
    using mod_add_self2 [of "- uint x - 1" "2 ^ LENGTH('a)"] by (simp add: algebra_simps)
  also have "\<dots> = 2 ^ LENGTH('a) - 1 - uint x"
    using uint_range [of x] by (intro mod_pos_pos_trivial) linarith+
  finally show ?thesis .
qed

lemma add_carry_lane: "uint (vcge_u (NOT x) y - (- 1)) = (uint x + uint y) div 2 ^ LENGTH('a)" for x y :: "'a::len word"
proof (cases "uint x + uint y < 2 ^ LENGTH('a)")
  case True
  then have "y \<le> NOT x" by (simp add: word_le_def uint_not)
  with True show ?thesis by (simp add: vcge_u_def cmask_def div_pos_pos_trivial)
next
  case False
  then have "\<not> y \<le> NOT x" by (simp add: word_le_def uint_not)
  moreover have "(uint x + uint y) div 2 ^ LENGTH('a) = 1"
    using False uint_range [of x] uint_range [of y]
    by (intro int_div_pos_eq [where r = "uint x + uint y - 2 ^ LENGTH('a)"]) linarith+
  ultimately show ?thesis by (simp add: vcge_u_def cmask_def)
qed

lemma add_carry_lanes: "(lanes (gv_sub32 (gv_geu32 (gv_not32 a) b) (gv_bcst (- 1 :: u32))) :: u32 list) =
    map2 (\<lambda>x y. vcge_u (NOT x) y - (- 1)) (lanes a) (lanes b)"
  by (rule nth_equalityI) (simp_all add: lanes_not)

lemma sub_carry_lanes: "(lanes (gv_shr32n (gv_geu32 a b) 31) :: u32 list) =
    map2 (\<lambda>(x :: u32) y. if y \<le> x then 1 else 0) (lanes a) (lanes b)"
  by (rule nth_equalityI) (simp_all add: gv_shr_n_def vcge_u_def cmask_def vshl_u_def shift_amount_def)

lemma sub_carry_lane: "uint (if y \<le> x then 1 else 0 :: 'a word) = 1 + (uint x - uint y) div 2 ^ LENGTH('a)" for x y :: "'a::len word"
proof (cases "y \<le> x")
  case True
  then have "(uint x - uint y) div 2 ^ LENGTH('a) = 0"
    using uint_range [of x] uint_range [of y] unfolding word_le_def by (intro div_pos_pos_trivial) linarith+
  with True show ?thesis by simp
next
  case False
  then have "(uint x - uint y) div 2 ^ LENGTH('a) = - 1"
    using uint_range [of x] uint_range [of y] unfolding word_le_def
    by (intro int_div_pos_eq [where r = "uint x - uint y + 2 ^ LENGTH('a)"]) linarith+
  with False show ?thesis by simp
qed

text \<open>C28: elementwise vector arithmetic. Modular addition and subtraction, the carry out of a
  word addition, the carry (no borrow) of a word subtraction, rounded averages, maxima and minima
  give, in every element and at every width, the value on the integers the elements stand for.\<close>

theorem vector_elementwise_exact:
  "elementwise2 VADDUBM (uint :: u8 \<Rightarrow> int) (\<lambda>x y. (x + y) mod 2 ^ 8) op s \<and>
   elementwise2 VADDUHM (uint :: u16 \<Rightarrow> int) (\<lambda>x y. (x + y) mod 2 ^ 16) op s \<and>
   elementwise2 VADDUWM (uint :: u32 \<Rightarrow> int) (\<lambda>x y. (x + y) mod 2 ^ 32) op s \<and>
   elementwise2 VADDCUW (uint :: u32 \<Rightarrow> int) (\<lambda>x y. (x + y) div 2 ^ 32) op s \<and>
   elementwise2 VSUBUBM (uint :: u8 \<Rightarrow> int) (\<lambda>x y. (x - y) mod 2 ^ 8) op s \<and>
   elementwise2 VSUBUHM (uint :: u16 \<Rightarrow> int) (\<lambda>x y. (x - y) mod 2 ^ 16) op s \<and>
   elementwise2 VSUBUWM (uint :: u32 \<Rightarrow> int) (\<lambda>x y. (x - y) mod 2 ^ 32) op s \<and>
   elementwise2 VSUBCUW (uint :: u32 \<Rightarrow> int) (\<lambda>x y. 1 + (x - y) div 2 ^ 32) op s \<and>
   elementwise2 VAVGSB (sint :: u8 \<Rightarrow> int) (\<lambda>x y. (x + y + 1) div 2) op s \<and>
   elementwise2 VAVGSH (sint :: u16 \<Rightarrow> int) (\<lambda>x y. (x + y + 1) div 2) op s \<and>
   elementwise2 VAVGSW (sint :: u32 \<Rightarrow> int) (\<lambda>x y. (x + y + 1) div 2) op s \<and>
   elementwise2 VAVGUB (uint :: u8 \<Rightarrow> int) (\<lambda>x y. (x + y + 1) div 2) op s \<and>
   elementwise2 VAVGUH (uint :: u16 \<Rightarrow> int) (\<lambda>x y. (x + y + 1) div 2) op s \<and>
   elementwise2 VAVGUW (uint :: u32 \<Rightarrow> int) (\<lambda>x y. (x + y + 1) div 2) op s \<and>
   elementwise2 VMAXSB (sint :: u8 \<Rightarrow> int) max op s \<and>
   elementwise2 VMAXSH (sint :: u16 \<Rightarrow> int) max op s \<and>
   elementwise2 VMAXSW (sint :: u32 \<Rightarrow> int) max op s \<and>
   elementwise2 VMAXUB (uint :: u8 \<Rightarrow> int) max op s \<and>
   elementwise2 VMAXUH (uint :: u16 \<Rightarrow> int) max op s \<and>
   elementwise2 VMAXUW (uint :: u32 \<Rightarrow> int) max op s \<and>
   elementwise2 VMINSB (sint :: u8 \<Rightarrow> int) min op s \<and>
   elementwise2 VMINSH (sint :: u16 \<Rightarrow> int) min op s \<and>
   elementwise2 VMINSW (sint :: u32 \<Rightarrow> int) min op s \<and>
   elementwise2 VMINUB (uint :: u8 \<Rightarrow> int) min op s \<and>
   elementwise2 VMINUH (uint :: u16 \<Rightarrow> int) min op s \<and>
   elementwise2 VMINUW (uint :: u32 \<Rightarrow> int) min op s"
  by (intro conjI; rule elementwise2I,
    rule VADDUBM_def VADDUHM_def VADDUWM_def VADDCUW_def VSUBUBM_def VSUBUHM_def VSUBUWM_def VSUBCUW_def
      VAVGSB_def VAVGSH_def VAVGSW_def VAVGUB_def VAVGUH_def VAVGUW_def VMAXSB_def VMAXSH_def VMAXSW_def
      VMAXUB_def VMAXUH_def VMAXUW_def VMINSB_def VMINSH_def VMINSW_def VMINUB_def VMINUH_def VMINUW_def,
    rule add_carry_lanes sub_carry_lanes lanes_lanes2, (simp; fail)?, (simp; fail)?,
    ((simp only: add_carry_lane sub_carry_lane, simp; fail) | (simp only: elementwise_lanes, simp?; fail)))

section \<open>Comparisons\<close>

lemma ssat_eq_iff: "ssat z = (w :: 'a::len word) \<longleftrightarrow> max (- (2 ^ (LENGTH('a) - 1))) (min (2 ^ (LENGTH('a) - 1) - 1) z) = sint w"
  by (simp only: sint_ssat word_eq_iff_signed [where ?'a = int])

lemma testz_iff: "gv_testz v \<longleftrightarrow> v = 0"
proof -
  have "(ssat (sint x) :: u16) = 0 \<longleftrightarrow> x = 0" for x :: u32
    using word_eq_iff_signed [of x 0, where ?'a = int] by (auto simp: ssat_eq_iff max_def min_def split: if_splits)
  then have "gv_testz v \<longleftrightarrow> (lanes v :: u32 list) = replicate 4 0"
    by (auto simp: gv_testz_def list_eq_iff_nth_eq)
  then show ?thesis using v32.view_eq_iff [of v 0] by (simp add: v32.view_zero)
qed

lemma lanes_ones: "(lanes (- 1) :: 'a::len word list) = replicate (128 div LENGTH('a)) (- 1)"
  using lanes_not [of 0, where 'a = 'a] by (auto simp: list_eq_iff_nth_eq nth_lanes)

lemma testall1_iff: "gv_testall1 v \<longleftrightarrow> v = - 1"
proof -
  have "(ssat (sint x) :: u16) = - 1 \<longleftrightarrow> x = - 1" for x :: u32
    using word_eq_iff_signed [of x "- 1", where ?'a = int] by (auto simp: ssat_eq_iff max_def min_def split: if_splits)
  then have "gv_testall1 v \<longleftrightarrow> (lanes v :: u32 list) = replicate 4 (- 1)"
    by (auto simp: gv_testall1_def list_eq_iff_nth_eq)
  then show ?thesis using v32.view_eq_iff [of v "- 1"] by (simp add: lanes_ones)
qed

text \<open>A comparison gives every element ones or zeros, and in its record form sets the first and
  third bit of the sixth condition field to whether all and whether none of the elements compare.\<close>

definition compares :: "(bool \<Rightarrow> ppu_opcode \<Rightarrow> ppu \<Rightarrow> ppu) \<Rightarrow> ('a::len word \<Rightarrow> int) \<Rightarrow> (int \<Rightarrow> int \<Rightarrow> bool) \<Rightarrow>
    ppu_opcode \<Rightarrow> ppu \<Rightarrow> bool" where
  "compares I val P op s \<longleftrightarrow>
     (let ps = map2 (\<lambda>x y. P (val x) (val y)) (lanes (vr s (op_va op))) (lanes (vr s (op_vb op)))
      in (\<forall>rc. lanes (vr (I rc op s) (op_vd op)) = map (\<lambda>p. if p then - 1 else 0 :: 'a word) ps) \<and>
         cr_bits (I False op s) = cr_bits s \<and>
         cr_bits (I True op s) = (cr_bits s)(24 := b2u (list_all id ps), 25 := 0, 26 := b2u (\<not> list_ex id ps), 27 := 0))"

lemma nonzero_masks: "list_ex (\<lambda>x. x \<noteq> 0) (map (cmask :: bool \<Rightarrow> 'a::len word) ps) \<longleftrightarrow> list_ex id ps"
  by (induction ps) (auto simp: cmask_def)

lemma ones_masks: "map (cmask :: bool \<Rightarrow> 'a::len word) ps = replicate (length ps) (- 1) \<longleftrightarrow> list_all id ps"
  by (induction ps) (auto simp: cmask_def)

lemma comparesI:
  fixes g :: "'a::len word \<Rightarrow> 'a word \<Rightarrow> 'a word"
  assumes len: "LENGTH('a) dvd 128" and I: "I = vcmp (lanes2 g)" and g: "\<And>x y. g x y = cmask (P (val x) (val y))"
  shows "compares I val P op s"
proof -
  define ps where "ps = map2 (\<lambda>x y. P (val x) (val y)) (lanes (vr s (op_va op)) :: 'a word list) (lanes (vr s (op_vb op)))"
  define r where "r = lanes2 g (vr s (op_va op)) (vr s (op_vb op))"
  have r: "lanes r = map (cmask :: bool \<Rightarrow> 'a word) ps" using len by (simp add: r_def ps_def g comp_def case_prod_unfold)
  have n: "length ps = 128 div LENGTH('a)" by (simp add: ps_def)
  have v: "lane_view (lanes :: u128 \<Rightarrow> 'a word list) of_lanes (128 div LENGTH('a))" using len by (intro lane_views) simp
  have "r = 0 \<longleftrightarrow> \<not> list_ex id ps"
    using lane_view.nonzero_iff [OF v, of r] unfolding r nonzero_masks by blast
  moreover have "r = - 1 \<longleftrightarrow> list_all id ps"
    using lane_view.view_eq_iff [OF v, of r "- 1"] unfolding r lanes_ones n [symmetric] ones_masks by blast
  ultimately show ?thesis
    unfolding compares_def I vcmp_def Let_def ps_def [symmetric] r_def [symmetric]
    by (simp add: r testz_iff testall1_iff ppu_cr_set_def put_cr_def put_vr_def cmask_def [abs_def] b2u_def)
qed

text \<open>C29: vector comparisons. Each comparison marks exactly the elements that are equal, or greater
  as signed or unsigned numbers, at its width; the record form reports all and none in the sixth
  condition field and clears the other two bits of it, and no other condition bit changes.\<close>

theorem vector_compare_exact:
  "compares VCMPEQUB (uint :: u8 \<Rightarrow> int) (=) op s \<and>
   compares VCMPEQUH (uint :: u16 \<Rightarrow> int) (=) op s \<and>
   compares VCMPEQUW (uint :: u32 \<Rightarrow> int) (=) op s \<and>
   compares VCMPGTSB (sint :: u8 \<Rightarrow> int) (>) op s \<and>
   compares VCMPGTSH (sint :: u16 \<Rightarrow> int) (>) op s \<and>
   compares VCMPGTSW (sint :: u32 \<Rightarrow> int) (>) op s \<and>
   compares VCMPGTUB (uint :: u8 \<Rightarrow> int) (>) op s \<and>
   compares VCMPGTUH (uint :: u16 \<Rightarrow> int) (>) op s \<and>
   compares VCMPGTUW (uint :: u32 \<Rightarrow> int) (>) op s"
  by (intro conjI; rule comparesI;
      (rule VCMPEQUB_def VCMPEQUH_def VCMPEQUW_def VCMPGTSB_def VCMPGTSH_def VCMPGTSW_def VCMPGTUB_def VCMPGTUH_def VCMPGTUW_def;
        fail)?; simp add: vceq_def vcgt_s_def vcgt_u_def word_sless_alt word_less_def word_eq_iff_unsigned [where ?'a = int])

section \<open>Shifts and rotations\<close>

text \<open>The amounts: only the low byte of a lane counts, so the mask broadcast as bytes is enough, and
  negating the masked lane negates the amount.\<close>

lemma low_byte_masked:
  fixes y m :: "'a::len word"
  assumes "ucast m = (of_nat (2 ^ k - 1) :: u8)" "k \<le> 8"
  shows "(ucast (y AND m) :: u8) = of_nat (unat y mod 2 ^ k)"
proof -
  have "(ucast (y AND m) :: u8) = ucast y AND of_nat (2 ^ k - 1)"
    unfolding assms(1) [symmetric] by (rule bit_word_eqI) (simp add: bit_simps)
  also have "\<dots> = take_bit k (ucast y)" by (simp add: take_bit_eq_mask mask_eq_exp_minus_1 of_nat_diff)
  also have "\<dots> = of_nat (unat (take_bit k (ucast y) :: u8))" by simp
  also have "unat (take_bit k (ucast y) :: u8) = take_bit k (take_bit 8 (unat y))"
    by (simp only: unsigned_take_bit_eq unsigned_ucast_eq) simp
  also have "\<dots> = unat y mod 2 ^ k" using assms(2) by (simp add: take_bit_take_bit min_absorb1) (simp add: take_bit_eq_mod)
  finally show ?thesis .
qed

lemma byte_amounts: "n < 128 \<Longrightarrow> sint (of_nat n :: u8) = int n" "n \<le> 128 \<Longrightarrow> sint (- of_nat n :: u8) = - int n"
  "n < m \<Longrightarrow> m \<le> 128 \<Longrightarrow> sint (of_nat n - of_nat m :: u8) = int n - int m"
proof -
  have w: "- 128 \<le> z \<Longrightarrow> z < 128 \<Longrightarrow> sint (word_of_int z :: u8) = z" for z
    by (simp add: sint_sbintrunc' signed_take_bit_int_eq_self)
  show "n < 128 \<Longrightarrow> sint (of_nat n :: u8) = int n" using w [of "int n"] by simp
  show "n \<le> 128 \<Longrightarrow> sint (- of_nat n :: u8) = - int n" using w [of "- int n"] by simp
  show "n < m \<Longrightarrow> m \<le> 128 \<Longrightarrow> sint (of_nat n - of_nat m :: u8) = int n - int m" using w [of "int n - int m"] by simp
qed

lemma low_byte_of_int: "8 \<le> LENGTH('a) \<Longrightarrow> (ucast (word_of_int i :: 'a::len word) :: u8) = word_of_int i"
  by (rule bit_word_eqI) (simp add: bit_simps)

lemma low_byte_arith: "8 \<le> LENGTH('a) \<Longrightarrow> (ucast (- y) :: u8) = - ucast y"
  "8 \<le> LENGTH('a) \<Longrightarrow> (ucast (x - y) :: u8) = ucast x - ucast y" for x y :: "'a::len word"
proof -
  assume l: "8 \<le> LENGTH('a)"
  have "y = word_of_int (uint y)" "x = word_of_int (uint x)" "- y = word_of_int (- uint y)" "x - y = word_of_int (uint x - uint y)" by simp_all
  then show "(ucast (- y) :: u8) = - ucast y" "(ucast (x - y) :: u8) = ucast x - ucast y" by (metis l low_byte_of_int of_int_minus of_int_diff)+
qed

lemma shift_lanes:
  fixes x y m :: "'a::len word"
  assumes m: "ucast m = (of_nat (2 ^ k - 1) :: u8)" and k: "k \<le> 6" and l: "8 \<le> LENGTH('a)"
  shows "vshl_u x (y AND m) = push_bit (unat y mod 2 ^ k) x"
    "vshl_u x (- (y AND m)) = drop_bit (unat y mod 2 ^ k) x"
    "vshl_s x (- (y AND m)) = signed_drop_bit (unat y mod 2 ^ k) x"
proof -
  define n where "n = unat y mod 2 ^ k"
  have "(2 :: nat) ^ k \<le> 2 ^ 6" using k by (rule power_increasing) simp
  then have "(2 :: nat) ^ k \<le> 64" by simp
  moreover have "n < 2 ^ k" by (simp add: n_def)
  ultimately have n: "n < 128" by linarith
  have "k \<le> 8" using k by simp
  note b = low_byte_masked [OF m this, of y, folded n_def]
  have "(ucast (- (y AND m)) :: u8) = - of_nat n" unfolding b [symmetric] using l by (rule low_byte_arith)
  then have a: "shift_amount (y AND m) = int n" "shift_amount (- (y AND m)) = - int n"
    unfolding shift_amount_def b using n by (simp_all add: byte_amounts)
  show "vshl_u x (y AND m) = push_bit (unat y mod 2 ^ k) x"
    "vshl_u x (- (y AND m)) = drop_bit (unat y mod 2 ^ k) x"
    "vshl_s x (- (y AND m)) = signed_drop_bit (unat y mod 2 ^ k) x"
    unfolding vshl_u_def vshl_s_def a n_def [symmetric] by (cases "n = 0"; simp)+
qed

lemma shift_back:
  fixes x y m :: "'a::len word"
  assumes m: "ucast m = (of_nat (LENGTH('a) - 1) :: u8)" and l: "LENGTH('a) = 2 ^ k" "3 \<le> k" "k \<le> 6"
  shows "vshl_u x (y AND m) = push_bit (unat y mod LENGTH('a)) x"
    "vshl_u x ((y AND m) - of_nat LENGTH('a)) = drop_bit (LENGTH('a) - unat y mod LENGTH('a)) x"
proof -
  define n where "n = unat y mod LENGTH('a)"
  have "(2 :: nat) ^ 3 \<le> 2 ^ k" "(2 :: nat) ^ k \<le> 2 ^ 6" using l(2,3) by (intro power_increasing; simp)+
  then have w: "8 \<le> LENGTH('a)" "LENGTH('a) \<le> 64" using l(1) by simp_all
  have n: "n < LENGTH('a)" by (simp add: n_def)
  have "k \<le> 8" using l(3) by simp
  with m have "(ucast (y AND m) :: u8) = of_nat n" unfolding n_def l(1) by (intro low_byte_masked)
  then have "shift_amount (y AND m) = int n" "shift_amount ((y AND m) - of_nat LENGTH('a)) = int n - int LENGTH('a)"
    using n w low_byte_of_int [OF w(1), of "int LENGTH('a)"] by (simp_all add: shift_amount_def low_byte_arith byte_amounts)
  then show "vshl_u x (y AND m) = push_bit (unat y mod LENGTH('a)) x"
    "vshl_u x ((y AND m) - of_nat LENGTH('a)) = drop_bit (LENGTH('a) - unat y mod LENGTH('a)) x"
    using n unfolding n_def [symmetric] by (simp_all add: vshl_u_def nat_diff_distrib)
qed

lemma rotate_lane:
  fixes x y m :: "'a::len word"
  assumes "ucast m = (of_nat (LENGTH('a) - 1) :: u8)" "LENGTH('a) = 2 ^ k" "3 \<le> k" "k \<le> 6"
  shows "vshl_u x (y AND m) OR vshl_u x ((y AND m) - of_nat LENGTH('a)) = word_rotl (unat y) x"
proof -
  define n where "n = unat y mod LENGTH('a)"
  have n: "n < LENGTH('a)" by (simp add: n_def)
  have "push_bit n x OR drop_bit (LENGTH('a) - n) x = word_rotl n x"
    using n by (intro bit_word_eqI) (auto simp: bit_simps not_le mod_if add.commute [of "LENGTH('a)"] dest: bit_imp_le_length)
  moreover have "word_rotl n x = word_rotl (unat y) x" unfolding n_def by (rule bit_word_eqI) (simp add: bit_simps)
  ultimately show ?thesis unfolding shift_back [OF assms] n_def [symmetric] by simp
qed

text \<open>The masks as the lanes see them.\<close>

lemma byte_masks:
  "(lanes (gv_bcst (15 :: u8)) :: u16 list) = replicate 8 0x0f0f" "(lanes (gv_bcst (31 :: u8)) :: u32 list) = replicate 4 0x1f1f1f1f"
  by code_simp+

definition lanewise2 :: "(ppu_opcode \<Rightarrow> ppu \<Rightarrow> ppu) \<Rightarrow> ('a::len word \<Rightarrow> 'a word \<Rightarrow> 'a word) \<Rightarrow> ppu_opcode \<Rightarrow> ppu \<Rightarrow> bool" where
  "lanewise2 I g op s \<longleftrightarrow> lanes (vr (I op s) (op_vd op)) = map2 g (lanes (vr s (op_va op))) (lanes (vr s (op_vb op)))"

lemma lanewise2I:
  "I = vec2 F \<Longrightarrow> (\<And>a b. lanes (F a b) = map2 g (lanes a) (lanes b)) \<Longrightarrow> lanewise2 I g op s"
  by (simp add: lanewise2_def vec2_def)

lemma shift_vectors:
  fixes mask :: "'a::len word"
  assumes m: "(lanes (gv_bcst m) :: 'a word list) = replicate (128 div LENGTH('a)) mask"
    and "ucast mask = (of_nat (2 ^ k - 1) :: u8)" "k \<le> 6" "8 \<le> LENGTH('a)" "LENGTH('a) dvd 128"
  shows "(lanes (gv_shl TYPE('a) m a b) :: 'a word list) = map2 (\<lambda>x (y :: 'a word). push_bit (unat y mod 2 ^ k) x) (lanes a) (lanes b)"
    "(lanes (gv_shr TYPE('a) m a b) :: 'a word list) = map2 (\<lambda>x (y :: 'a word). drop_bit (unat y mod 2 ^ k) x) (lanes a) (lanes b)"
    "(lanes (gv_sar TYPE('a) m a b) :: 'a word list) = map2 (\<lambda>x (y :: 'a word). signed_drop_bit (unat y mod 2 ^ k) x) (lanes a) (lanes b)"
  using assms(5) unfolding gv_shl_def gv_shr_def gv_sar_def
  by (auto intro!: nth_equalityI simp: lanes_and m shift_lanes [OF assms(2-4)])

lemma rotate_vectors:
  assumes "ucast (of_nat (LENGTH('a) - 1) :: 'a::len word) = (of_nat (LENGTH('a) - 1) :: u8)"
    and "LENGTH('a) = 2 ^ k" "3 \<le> k" "k \<le> 6" "LENGTH('a) dvd 128"
  shows "(lanes (gv_rol TYPE('a) a b) :: 'a word list) = map2 (\<lambda>x (y :: 'a word). word_rotl (unat y) x) (lanes a) (lanes b)"
  using assms(5) unfolding gv_rol_def Let_def
  by (auto intro!: nth_equalityI simp: lanes_and lanes_or rotate_lane [OF assms(1-4)] simp del: One_nat_def)

text \<open>C30: vector shifts and rotations. At every width, each element of the first vector is shifted
  left, right or right with its sign by the low bits of the element of the second one (the amount
  modulo the width), or rotated left by it; the bits of the amount above those are ignored although
  the masks of the code are broadcast as bytes.\<close>

theorem vector_shifts_exact:
  "lanewise2 VSLB (\<lambda>(x :: u8) y. push_bit (unat y mod 8) x) op s \<and>
   lanewise2 VSLH (\<lambda>(x :: u16) y. push_bit (unat y mod 16) x) op s \<and>
   lanewise2 VSLW (\<lambda>(x :: u32) y. push_bit (unat y mod 32) x) op s \<and>
   lanewise2 VSRB (\<lambda>(x :: u8) y. drop_bit (unat y mod 8) x) op s \<and>
   lanewise2 VSRH (\<lambda>(x :: u16) y. drop_bit (unat y mod 16) x) op s \<and>
   lanewise2 VSRW (\<lambda>(x :: u32) y. drop_bit (unat y mod 32) x) op s \<and>
   lanewise2 VSRAB (\<lambda>(x :: u8) y. signed_drop_bit (unat y mod 8) x) op s \<and>
   lanewise2 VSRAH (\<lambda>(x :: u16) y. signed_drop_bit (unat y mod 16) x) op s \<and>
   lanewise2 VSRAW (\<lambda>(x :: u32) y. signed_drop_bit (unat y mod 32) x) op s \<and>
   lanewise2 VRLB (\<lambda>(x :: u8) y. word_rotl (unat y) x) op s \<and>
   lanewise2 VRLH (\<lambda>(x :: u16) y. word_rotl (unat y) x) op s \<and>
   lanewise2 VRLW (\<lambda>(x :: u32) y. word_rotl (unat y) x) op s"
proof -
  note shifts = shift_vectors [where 'a = 8 and m = 7 and mask = 7 and k = 3, simplified]
    shift_vectors [where 'a = 16 and m = 15 and mask = "0x0f0f" and k = 4, simplified byte_masks, simplified]
    shift_vectors [where 'a = 32 and m = 31 and mask = "0x1f1f1f1f" and k = 5, simplified byte_masks, simplified]
    rotate_vectors [where 'a = 8 and k = 3, simplified] rotate_vectors [where 'a = 16 and k = 4, simplified]
    rotate_vectors [where 'a = 32 and k = 5, simplified]
  show ?thesis
    by (intro conjI; rule lanewise2I; (rule VSLB_def VSLH_def VSLW_def VSRB_def VSRH_def VSRW_def VSRAB_def VSRAH_def VSRAW_def
      VRLB_def VRLH_def VRLW_def; fail)?; rule shifts)
qed

section \<open>Shifts of the whole vector\<close>

lemma bit_lane: "i < 16 \<Longrightarrow> j < 8 \<Longrightarrow> bit ((lanes v :: u8 list) ! i) j \<longleftrightarrow> bit v (8 * i + j)"
  by (simp add: nth_lanes bit_simps mult.commute)

lemma shuffle_lanes:
  assumes "c < 16" "i < 16"
  shows "(lanes (gv_shuffle_left c a) :: u8 list) ! i = (if c \<le> i then lanes a ! (i - c) else 0)"
    "(lanes (gv_shuffle_right c a) :: u8 list) ! i = (if i + c < 16 then lanes a ! (i + c) else 0)"
proof -
  have "unat (of_nat i - of_nat c :: u8) = (if c \<le> i then i - c else 256 + i - c)"
    using assms by (auto simp: unat_sub_if' unat_of_nat)
  then show "(lanes (gv_shuffle_left c a) :: u8 list) ! i = (if c \<le> i then lanes a ! (i - c) else 0)"
    using assms by (cases "c \<le> i") (auto simp: gv_shuffle_left_def vqtbl_def)
  have "unat (of_nat i + of_nat c :: u8) = i + c" using assms by (simp add: unat_word_ariths unat_of_nat)
  then show "(lanes (gv_shuffle_right c a) :: u8 list) ! i = (if i + c < 16 then lanes a ! (i + c) else 0)"
    using assms by (simp add: gv_shuffle_right_def vqtbl_def)
qed

lemma bit_beyond: "8 \<le> j \<Longrightarrow> \<not> bit (w :: u8) j"
  using bit_imp_le_length [of w j] by auto

lemma lane_push:
  assumes "i < 16" "n < 8"
  shows "(lanes (push_bit n a) :: u8 list) ! i = push_bit n (lanes a ! i) OR drop_bit (8 - n) (if 1 \<le> i then lanes a ! (i - 1) else 0)"
proof (rule bit_word_eqI)
  fix j assume "j < LENGTH(8)"
  then have j: "j < 8" by simp
  have l: "bit ((lanes (push_bit n a) :: u8 list) ! i) j \<longleftrightarrow> n \<le> 8 * i + j \<and> bit a (8 * i + j - n)"
    using assms(1) j by (auto simp: bit_lane bit_simps)
  show "bit ((lanes (push_bit n a) :: u8 list) ! i) j \<longleftrightarrow>
      bit (push_bit n (lanes a ! i) OR drop_bit (8 - n) (if 1 \<le> i then lanes a ! (i - 1) else 0) :: u8) j"
  proof (cases "n \<le> j")
    case True
    then show ?thesis using assms j unfolding l by (simp add: bit_simps bit_lane bit_beyond)
  next
    case False
    then have "i = 0 \<or> 8 * i + j - n = 8 * (i - 1) + (8 - n + j)" using assms by auto
    with False show ?thesis using assms j unfolding l by (auto simp: bit_simps bit_lane)
  qed
qed

lemma lane_drop:
  assumes "i < 16" "n < 8"
  shows "(lanes (drop_bit n a) :: u8 list) ! i = drop_bit n (lanes a ! i) OR push_bit (8 - n) (if i + 1 < 16 then lanes a ! (i + 1) else 0)"
proof (rule bit_word_eqI)
  fix j assume "j < LENGTH(8)"
  then have j: "j < 8" by simp
  have l: "bit ((lanes (drop_bit n a) :: u8 list) ! i) j \<longleftrightarrow> bit a (n + (8 * i + j))"
    using assms(1) j by (simp add: bit_lane bit_simps)
  show "bit ((lanes (drop_bit n a) :: u8 list) ! i) j \<longleftrightarrow>
      bit (drop_bit n (lanes a ! i) OR push_bit (8 - n) (if i + 1 < 16 then lanes a ! (i + 1) else 0) :: u8) j"
  proof (cases "n + j < 8")
    case True
    then show ?thesis using assms j unfolding l by (auto simp: bit_simps bit_lane add.left_commute)
  next
    case False
    then have "n + (8 * i + j) = 8 * (i + 1) + (j - (8 - n))" "j - (8 - n) < 8" using assms j by auto
    moreover have "\<not> bit a (n + (8 * i + j))" if "\<not> i + 1 < 16" using that assms False bit_imp_le_length [of a "n + (8 * i + j)"] by auto
    ultimately show ?thesis using assms j False unfolding l by (auto simp: bit_simps bit_lane bit_beyond ac_simps)
  qed
qed

lemma fshl_splat: "gv_fshl8 a (gv_shuffle_left 1 a) (gv_bcst x) = push_bit (unat x mod 8) a" for x :: u8
proof -
  have n: "unat x mod 8 < 8" by simp
  have "(lanes (gv_fshl8 a (gv_shuffle_left 1 a) (gv_bcst x)) :: u8 list) = lanes (push_bit (unat x mod 8) a)"
    using shift_back [where 'a = 8 and k = 3 and m = 7 and y = x, simplified]
    by (intro nth_equalityI) (simp_all add: gv_fshl8_def Let_def lanes_or lanes_and shuffle_lanes lane_push [OF _ n])
  then show ?thesis unfolding v8.view_eq_iff .
qed

lemma shift_forth: "vshl_u x (8 - (y AND 7)) = push_bit (8 - unat y mod 8) x" for x y :: u8
proof -
  have "(y AND 7) = of_nat (unat y mod 8)" using low_byte_masked [of "7 :: u8" 3 y] by simp
  then have "8 - (y AND 7) = (of_nat (8 - unat y mod 8) :: u8)" by (simp add: of_nat_diff)
  moreover have "sint (of_nat (8 - unat y mod 8) :: u8) = int (8 - unat y mod 8)" by (rule byte_amounts) simp
  ultimately have "shift_amount (8 - (y AND 7)) = int (8 - unat y mod 8)" by (simp only: shift_amount_def ucast_id)
  then show ?thesis by (simp only: vshl_u_def of_nat_0_le_iff if_True nat_int)
qed

lemma fshr_splat: "gv_fshr8 (gv_shuffle_right 1 a) a (gv_bcst x) = drop_bit (unat x mod 8) a" for x :: u8
proof -
  have n: "unat x mod 8 < 8" by simp
  have "(lanes (gv_fshr8 (gv_shuffle_right 1 a) a (gv_bcst x)) :: u8 list) = lanes (drop_bit (unat x mod 8) a)"
    using shift_lanes(2) [where m = "7 :: u8" and k = 3 and y = x, simplified]
    by (intro nth_equalityI) (simp_all add: gv_fshr8_def Let_def lanes_or lanes_and shuffle_lanes shift_forth lane_drop [OF _ n])
  then show ?thesis unfolding v8.view_eq_iff .
qed

lemma octet_amount: "unat (x AND 0x78) + unat x mod 8 = unat x mod 128" for x :: u8
proof -
  have "x AND push_bit 3 (mask 4) = push_bit 3 (take_bit 4 (drop_bit 3 x))" by (rule bit_word_eqI) (auto simp: bit_simps)
  moreover have "push_bit 3 (mask 4) = (0x78 :: u8)" by (simp add: mask_eq_exp_minus_1)
  ultimately have "x AND 0x78 = push_bit 3 (take_bit 4 (drop_bit 3 x))" by simp
  moreover have "unat x div 8 mod 16 * 8 < 256" using mod_less_divisor [of 16 "unat x div 8"] by linarith
  moreover have "unat x < 256" using unat_lt [of x] by simp
  ultimately have "unat (x AND 0x78) = unat x div 8 mod 16 * 8"
    by (simp only: unsigned_push_bit_eq unsigned_take_bit_eq unsigned_drop_bit_eq)
      (simp add: take_bit_eq_mod drop_bit_eq_div push_bit_eq_mult)
  then show ?thesis using mod_mult2_eq [of "unat x" 8 16] by simp
qed

text \<open>C31: shifts of a whole vector. Shifting by octets and then by bits (\<open>VSLO\<close> then \<open>VSL\<close>,
  \<open>VSRO\<close> then \<open>VSR\<close>), with the amount in every byte of the second operand, shifts the 128-bit value
  by the low seven bits of the amount.\<close>

theorem vector_long_shift:
  assumes "vr s (op_vb opo) = gv_bcst (x :: u8)" "op_vb opb = op_vb opo" "op_va opb = op_vd opo" "op_vd opo \<noteq> op_vb opo"
  shows "vr (VSL opb (VSLO opo s)) (op_vd opb) = push_bit (unat x mod 128) (vr s (op_va opo)) \<and>
    vr (VSR opb (VSRO opo s)) (op_vd opb) = drop_bit (unat x mod 128) (vr s (op_va opo))"
proof -
  let ?n = "unat (x AND 0x78)"
  have b: "(lanes (vr s (op_vb opo)) :: u8 list) ! 0 = x" unfolding assms(1) by simp
  have n: "unat x mod 8 + ?n = unat x mod 128" using octet_amount [of x] by (simp add: add.commute)
  have "vr (VSLO opo s) = (vr s)(op_vd opo := push_bit ?n (vr s (op_va opo)))"
    "vr (VSRO opo s) = (vr s)(op_vd opo := drop_bit ?n (vr s (op_va opo)))"
    using b by (simp_all add: VSLO_def VSRO_def vec2_def)
  then show ?thesis using assms(4)
    by (simp add: VSL_def VSR_def vec2_def assms(1-3) fshl_splat [unfolded One_nat_def] fshr_splat [unfolded One_nat_def] n)
qed

theorem vector_long_shift_witness:
  "vr (VSL 0x10C519C4 (VSLO 0x10A11C0C ((ppu_init (\<lambda>_. 0))\<lparr>vr := (\<lambda>r. if r = 3 then gv_bcst (77 :: u8) else 0x12345)\<rparr>))) 6 = push_bit 77 0x12345"
proof -
  let ?s = "(ppu_init (\<lambda>_. 0))\<lparr>vr := (\<lambda>r. if r = 3 then gv_bcst (77 :: u8) else 0x12345)\<rparr>"
  have f: "op_vd 0x10A11C0C = 5" "op_va 0x10A11C0C = 1" "op_vb 0x10A11C0C = 3" "op_vd 0x10C519C4 = 6" "op_va 0x10C519C4 = 5" "op_vb 0x10C519C4 = 3"
    by code_simp+
  show ?thesis using vector_long_shift [where s = ?s and x = 77 and opo = "0x10A11C0C" and opb = "0x10C519C4"] unfolding f by simp
qed

section \<open>Permutations\<close>

lemma length_elems [simp]: "length (elems v :: 'a::len word list) = 128 div LENGTH('a)"
  by (simp add: elems_def)

lemma nth_elems: "i < 128 div LENGTH('a) \<Longrightarrow> (elems v :: 'a::len word list) ! i = lanes v ! (128 div LENGTH('a) - Suc i)"
  by (simp add: elems_def rev_nth)

lemma interleave_append: "length xs = length ys \<Longrightarrow> interleave (xs @ us) (ys @ vs) = interleave xs ys @ interleave us vs"
  by (induction xs ys rule: list_induct2) auto

lemma rev_interleave: "length xs = length ys \<Longrightarrow> rev (interleave xs ys) = interleave (rev ys) (rev xs)"
  by (induction xs ys rule: list_induct2) (auto simp: interleave_append)

lemma length_interleave [simp]: "length xs = length ys \<Longrightarrow> length (interleave xs ys) = 2 * length xs"
  by (induction xs ys rule: list_induct2) auto

lemma merge_elems:
  assumes "even (128 div LENGTH('a::len))" "LENGTH('a) dvd 128"
  shows "(elems (gv_unpackhi TYPE('a) b a) :: 'a word list) =
      interleave (take (64 div LENGTH('a)) (elems a)) (take (64 div LENGTH('a)) (elems b))"
    "(elems (gv_unpacklo TYPE('a) b a) :: 'a word list) =
      interleave (drop (64 div LENGTH('a)) (elems a)) (drop (64 div LENGTH('a)) (elems b))"
proof -
  obtain n where n: "128 div LENGTH('a) = 2 * n" using assms(1) by (rule evenE)
  have "128 = LENGTH('a) * (2 * n)" using assms(2) n by (metis dvd_mult_div_cancel)
  then have "64 = LENGTH('a) * n" by (simp add: mult.commute)
  then have h: "64 div LENGTH('a) = n" by (metis len_not_eq_0 nonzero_mult_div_cancel_left)
  show "(elems (gv_unpackhi TYPE('a) b a) :: 'a word list) =
      interleave (take (64 div LENGTH('a)) (elems a)) (take (64 div LENGTH('a)) (elems b))"
    "(elems (gv_unpacklo TYPE('a) b a) :: 'a word list) =
      interleave (drop (64 div LENGTH('a)) (elems a)) (drop (64 div LENGTH('a)) (elems b))"
    using assms(2) unfolding h
    by (simp_all add: elems_def gv_unpackhi_def gv_unpacklo_def vzip1_def vzip2_def vget_low_def vget_high_def n
      rev_interleave rev_take rev_drop)
qed

lemma perm_index: "unat (0x1f AND NOT x) = 31 - unat x mod 32" for x :: u8
proof -
  have x: "unat x < 256" using unat_lt [of x] by simp
  have "0x1f AND NOT x = take_bit 5 (NOT x)" by (simp add: take_bit_eq_mask mask_eq_exp_minus_1 and.commute)
  then have "unat (0x1f AND NOT x) = unat (NOT x) mod 32" by (simp only: unsigned_take_bit_eq) (simp add: take_bit_eq_mod)
  also have "unat (NOT x) = 255 - unat x"
  proof -
    have "int (unat (NOT x)) = 255 - int (unat x)" using uint_not [of x] by simp
    then show ?thesis by linarith
  qed
  also have "255 - unat x = 31 - unat x mod 32 + 32 * (7 - unat x div 32)"
  proof -
    have "unat x = 32 * (unat x div 32) + unat x mod 32" by simp
    moreover have "unat x div 32 < 8" "unat x mod 32 < 32" using x by auto
    ultimately show ?thesis by linarith
  qed
  also have "\<dots> mod 32 = 31 - unat x mod 32" unfolding mod_mult_self2 by (rule mod_less) simp
  finally show ?thesis .
qed

lemma perm_elems: "(elems (of_lanes (vqtbl (lanes b @ lanes a) (map (\<lambda>x. 0x1f AND NOT x) (lanes c)))) :: u8 list) =
    map (\<lambda>x. (elems a @ elems b) ! (unat x mod 32)) (elems c :: u8 list)"
proof -
  have "(lanes b @ lanes a :: u8 list) ! (31 - k) = (elems a @ elems b) ! k" if "k < 32" for k
    using that rev_nth [of k "lanes b @ lanes a :: u8 list"] by (simp add: elems_def)
  then have "(if unat (0x1f AND NOT x) < 32 then (lanes b @ lanes a :: u8 list) ! unat (0x1f AND NOT x) else 0) =
      (elems a @ elems b) ! (unat x mod 32)" for x :: u8
    unfolding perm_index by auto
  then show ?thesis by (simp add: elems_def [of "of_lanes _"] elems_def [of c] vqtbl_def rev_map comp_def)
qed

lemma op_vsh_bound: "unat (op_vsh op) < 16"
  using unat_ppu_bf [of 22 4 op] by (simp add: op_vsh_def)

lemma sldoi_elems:
  assumes "n < 16"
  shows "(elems (gv_shuffle_left n a OR gv_shuffle_right (16 - n) b) :: u8 list) = take 16 (drop n (elems a @ elems b))"
proof (rule nth_equalityI)
  fix i assume "i < length (elems (gv_shuffle_left n a OR gv_shuffle_right (16 - n) b) :: u8 list)"
  then have i: "i < 16" by simp
  show "(elems (gv_shuffle_left n a OR gv_shuffle_right (16 - n) b) :: u8 list) ! i = take 16 (drop n (elems a @ elems b)) ! i"
  proof (cases "n = 0")
    case True
    then show ?thesis using i by (simp add: gv_shuffle_right_def nth_elems lanes_or shuffle_lanes nth_append)
  next
    case False
    then have "16 - n < 16" by simp
    then show ?thesis using i assms
      by (auto simp: nth_elems lanes_or shuffle_lanes nth_append) (auto simp: Suc_diff_le nth_elems intro!: arg_cong [where f = "(!) _"])
  qed
qed (use assms in simp)

lemma splat_elems:
  "(elems (gv_bcst x) :: 'a word list) = replicate (128 div LENGTH('a)) x" if "LENGTH('a) dvd 128" for x :: "'a::len word"
  using that by (simp add: elems_def)

lemma unat_and_low_mask: "unat (w AND of_nat (2 ^ k - 1)) = unat w mod 2 ^ k" if "k \<le> LENGTH('a)" for w :: "'a::len word"
proof -
  have "w AND of_nat (2 ^ k - 1) = take_bit k w" by (simp add: take_bit_eq_mask mask_eq_exp_minus_1 of_nat_diff)
  then show ?thesis by (simp only: unsigned_take_bit_eq) (simp add: take_bit_eq_mod)
qed

text \<open>C32: vector permutations, on elements numbered as the architecture numbers them (0 is the most
  significant). \<open>VPERM\<close> selects from the 32 bytes of its first two operands by the low five bits
  of each byte of the third; \<open>VSLDOI\<close> takes 16 of those 32 bytes from its shift amount on; the
  merges interleave the high or low halves; the splats repeat one element.\<close>

theorem vector_permutations_exact:
  "let a = vr s (op_va op); b = vr s (op_vb op); c = vr s (op_vc op) in
   (elems (vr (VPERM op s) (op_vd op)) :: u8 list) = map (\<lambda>x. (elems a @ elems b) ! (unat x mod 32)) (elems c :: u8 list) \<and>
   (elems (vr (VSLDOI (unat (op_vsh op)) op s) (op_vd op)) :: u8 list) = take 16 (drop (unat (op_vsh op)) (elems a @ elems b)) \<and>
   (elems (vr (VMRGHB op s) (op_vd op)) :: u8 list) = interleave (take 8 (elems a)) (take 8 (elems b)) \<and>
   (elems (vr (VMRGHH op s) (op_vd op)) :: u16 list) = interleave (take 4 (elems a)) (take 4 (elems b)) \<and>
   (elems (vr (VMRGHW op s) (op_vd op)) :: u32 list) = interleave (take 2 (elems a)) (take 2 (elems b)) \<and>
   (elems (vr (VMRGLB op s) (op_vd op)) :: u8 list) = interleave (drop 8 (elems a)) (drop 8 (elems b)) \<and>
   (elems (vr (VMRGLH op s) (op_vd op)) :: u16 list) = interleave (drop 4 (elems a)) (drop 4 (elems b)) \<and>
   (elems (vr (VMRGLW op s) (op_vd op)) :: u32 list) = interleave (drop 2 (elems a)) (drop 2 (elems b)) \<and>
   (elems (vr (VSPLTB op s) (op_vd op)) :: u8 list) = replicate 16 (elems b ! (unat (op_vuimm op) mod 16)) \<and>
   (elems (vr (VSPLTH op s) (op_vd op)) :: u16 list) = replicate 8 (elems b ! (unat (op_vuimm op) mod 8)) \<and>
   (elems (vr (VSPLTW op s) (op_vd op)) :: u32 list) = replicate 4 (elems b ! (unat (op_vuimm op) mod 4))"
proof -
  have m: "unat (op_vuimm op AND 15) = unat (op_vuimm op) mod 16" "unat (op_vuimm op AND 7) = unat (op_vuimm op) mod 8"
    "unat (op_vuimm op AND 3) = unat (op_vuimm op) mod 4"
    using unat_and_low_mask [of 4 "op_vuimm op"] unat_and_low_mask [of 3 "op_vuimm op"] unat_and_low_mask [of 2 "op_vuimm op"] by simp_all
  show ?thesis unfolding Let_def
    by (intro conjI) (simp_all add: VPERM_def VSLDOI_def VMRGHB_def VMRGHH_def VMRGHW_def VMRGLB_def VMRGLH_def VMRGLW_def
      VSPLTB_def VSPLTH_def VSPLTW_def vec1_def vec2_def vec3_def perm_elems sldoi_elems [OF op_vsh_bound] merge_elems splat_elems m)
qed

section \<open>Packing and unpacking\<close>

lemma count_amounts:
  assumes "8 \<le> LENGTH('a::len)" "k \<le> 128"
  shows "k < 128 \<Longrightarrow> shift_amount (ucast (of_nat k :: u32) :: 'a word) = int k"
    "shift_amount (ucast (0 - of_nat k :: u32) :: 'a word) = - int k"
proof -
  have "(ucast (ucast x :: 'a word) :: u8) = ucast x" for x :: u32
    using assms(1) by (intro bit_word_eqI) (auto simp: bit_simps dest: bit_imp_le_length)
  then have "(ucast (ucast (of_nat k :: u32) :: 'a word) :: u8) = of_nat k"
    "(ucast (ucast (0 - of_nat k :: u32) :: 'a word) :: u8) = - of_nat k"
    using low_byte_of_int [of "int k", where 'a = 32] low_byte_of_int [of "- int k", where 'a = 32] by simp_all
  then show "k < 128 \<Longrightarrow> shift_amount (ucast (of_nat k :: u32) :: 'a word) = int k"
    "shift_amount (ucast (0 - of_nat k :: u32) :: 'a word) = - int k"
    using assms(2) by (simp_all add: shift_amount_def byte_amounts)
qed

lemma count_lanes:
  assumes "8 \<le> LENGTH('a::len)" "LENGTH('a) \<le> 64" "LENGTH('a) dvd 128" "k < LENGTH('a)"
  shows "(lanes (gv_shl_n TYPE('a) a (of_nat k)) :: 'a word list) = map (push_bit k) (lanes a)"
    "(lanes (gv_shr_n TYPE('a) a (of_nat k)) :: 'a word list) = map (drop_bit k) (lanes a)"
    "(lanes (gv_sar_n TYPE('a) a (of_nat k)) :: 'a word list) = map (signed_drop_bit k) (lanes a)"
proof -
  have k: "k < 128" "unat (of_nat k :: u32) = k" using assms by (simp_all add: unat_of_nat)
  have "k \<le> 128" using k by simp
  note a = count_amounts [OF assms(1) this]
  have "vshl_s x (ucast (of_nat k :: u32)) = push_bit k x" "vshl_u x (ucast (0 - of_nat k :: u32)) = drop_bit k x"
    "vshl_s x (ucast (0 - of_nat k :: u32)) = signed_drop_bit k x" for x :: "'a word"
    unfolding vshl_u_def vshl_s_def a(1) [OF k(1)] a(2) by (cases "k = 0"; simp)+
  then show "(lanes (gv_shl_n TYPE('a) a (of_nat k)) :: 'a word list) = map (push_bit k) (lanes a)"
    "(lanes (gv_shr_n TYPE('a) a (of_nat k)) :: 'a word list) = map (drop_bit k) (lanes a)"
    "(lanes (gv_sar_n TYPE('a) a (of_nat k)) :: 'a word list) = map (signed_drop_bit k) (lanes a)"
    using assms(3,4) k(2) by (simp_all add: gv_shl_n_def gv_shr_n_def gv_sar_n_def)
qed

lemma list_ex_map2_or: "length xs = length ys \<Longrightarrow>
   list_ex (\<lambda>x. drop_bit k x \<noteq> 0) (map2 (OR) xs ys) \<longleftrightarrow>
     list_ex (\<lambda>x. drop_bit k x \<noteq> 0) xs \<or> list_ex (\<lambda>x. drop_bit k x \<noteq> 0) (ys :: 'a::len word list)"
  by (induction xs ys rule: list_induct2) (auto simp: or_nonzero)

lemma shr_or_nonzero:
  assumes "8 \<le> LENGTH('a::len)" "LENGTH('a) \<le> 64" "LENGTH('a) dvd 128" "k < LENGTH('a)"
  shows "gv_shr_n TYPE('a) (u OR v) (of_nat k) \<noteq> 0 \<longleftrightarrow>
    list_ex (\<lambda>x. drop_bit k x \<noteq> 0) (lanes u :: 'a word list) \<or> list_ex (\<lambda>x. drop_bit k x \<noteq> 0) (lanes v :: 'a word list)"
proof -
  have v: "lane_view (lanes :: u128 \<Rightarrow> 'a word list) of_lanes (128 div LENGTH('a))" using assms(3) by (intro lane_views) simp
  show ?thesis unfolding lane_view.nonzero_iff [OF v] count_lanes(2) [OF assms] lanes_or
    by (subst list_ex_map2_or [symmetric]) (simp_all add: list_ex_iff)
qed

definition packs :: "(bool \<Rightarrow> ppu_opcode \<Rightarrow> ppu \<Rightarrow> ppu) \<Rightarrow> ('a::len word \<Rightarrow> int) \<Rightarrow> ('b::len word \<Rightarrow> int) \<Rightarrow> int \<Rightarrow> int \<Rightarrow>
    ppu_opcode \<Rightarrow> ppu \<Rightarrow> bool" where
  "packs I val val' lo hi op s \<longleftrightarrow>
     (let xs = elems (vr s (op_va op)) @ elems (vr s (op_vb op))
      in (\<forall>sf. map val' (elems (vr (I sf op s) (op_vd op))) = map (\<lambda>x. max lo (min hi (val x))) xs) \<and>
         sat (I False op s) = sat s \<and>
         (sat (I True op s) \<noteq> 0 \<longleftrightarrow> sat s \<noteq> 0 \<or> list_ex (\<lambda>x. \<not> (lo \<le> val x \<and> val x \<le> hi)) xs))"

lemma packsI:
  fixes q :: "'a::len word \<Rightarrow> 'b::len word"
  assumes I: "\<And>sf. I sf = vec2_sat sf (\<lambda>a b. P b a) X"
    and P: "\<And>a b. lanes (P b a) = map q (lanes b) @ map q (lanes a)"
    and q: "\<And>x. val' (q x) = max lo (min hi (val x))"
    and X: "\<And>a b. X a b \<noteq> 0 \<longleftrightarrow> list_ex R (lanes a) \<or> list_ex R (lanes b)"
    and R: "\<And>x. R x \<longleftrightarrow> \<not> (lo \<le> val x \<and> val x \<le> hi)"
  shows "packs I val val' lo hi op s"
proof -
  have "R = (\<lambda>x. \<not> (lo \<le> val x \<and> val x \<le> hi))" using R by blast
  then show ?thesis using X [of "vr s (op_va op)" "vr s (op_vb op)"]
    by (auto simp: packs_def I vec2_sat_def vec2_def or_nonzero elems_def P q rev_map [symmetric] list_ex_iff)
qed

lemma drop_zero_iff: "drop_bit k x = 0 \<longleftrightarrow> uint x < 2 ^ k" for x :: "'a::len word"
proof -
  have "drop_bit k x = 0 \<longleftrightarrow> uint x div 2 ^ k = 0"
    unfolding word_eq_iff_unsigned [where ?'a = int] unsigned_drop_bit_eq by (simp add: take_bit_eq_mod drop_bit_eq_div)
  then show ?thesis using uint_range [of x] zero_less_power [of "2 :: int" k] by (auto simp: zdiv_eq_0_iff)
qed

lemma sint_uint_cases: "sint x = (if uint x < 2 ^ (LENGTH('a) - 1) then uint x else uint x - 2 ^ LENGTH('a))" for x :: "'a::len word"
  using sint_unat [of x] by (simp flip: of_nat_less_iff [where ?'a = int])

lemma drop_zero_sint: "k < LENGTH('a) \<Longrightarrow> drop_bit k x = 0 \<longleftrightarrow> 0 \<le> sint x \<and> sint x < 2 ^ k" for x :: "'a::len word"
proof -
  assume "k < LENGTH('a)"
  then have "(2 :: int) ^ k \<le> 2 ^ (LENGTH('a) - 1)" by (intro power_increasing) simp_all
  moreover define h p m where "h = (2 :: int) ^ (LENGTH('a) - 1)" and "p = (2 :: int) ^ k" and "m = (2 :: int) ^ LENGTH('a)"
  ultimately show ?thesis unfolding drop_zero_iff sint_uint_cases using uint_range [of x]
    unfolding h_def [symmetric] p_def [symmetric] m_def [symmetric] by auto
qed

lemma drop_zero_biased:
  fixes x :: "'a::len word"
  assumes "1 < k" "k < LENGTH('a)"
  shows "drop_bit k (x + 2 ^ (k - 1)) = 0 \<longleftrightarrow> - (2 ^ (k - 1)) \<le> sint x \<and> sint x < 2 ^ (k - 1)"
proof -
  define c h :: int where "c = 2 ^ (k - 1)" and "h = 2 ^ (LENGTH('a) - 1)"
  have c: "2 ^ k = 2 * c" "0 < c" using assms(1) by (simp_all add: c_def flip: power_Suc)
  have "(2 :: int) ^ k \<le> 2 ^ (LENGTH('a) - 1)" using assms(2) by (intro power_increasing) simp_all
  then have h: "2 ^ LENGTH('a) = 2 * h" "2 * c \<le> h" by (simp_all add: half_power h_def c)
  have "x + 2 ^ (k - 1) = word_of_int (sint x + c)" by (simp add: c_def)
  then have "uint (x + 2 ^ (k - 1)) = (sint x + c) mod (2 * h)" by (simp only: uint_word_of_int h)
  moreover have "(sint x + c) mod (2 * h) = (if 0 \<le> sint x + c then sint x + c else sint x + c + 2 * h)"
  proof (cases "0 \<le> sint x + c")
    case True
    then show ?thesis using sint_range [of x] c h by (simp add: h_def mod_pos_pos_trivial)
  next
    case False
    have "(sint x + c) mod (2 * h) = (sint x + c + 2 * h) mod (2 * h)" by simp
    also have "\<dots> = sint x + c + 2 * h" using False sint_range [of x] c h unfolding h_def [symmetric] by (intro mod_pos_pos_trivial) linarith+
    finally show ?thesis using False by simp
  qed
  ultimately show ?thesis unfolding drop_zero_iff c_def [symmetric] c(1) using sint_range [of x] c h unfolding h_def [symmetric] by auto
qed

lemma pack_lanes:
  assumes "LENGTH('b::len) dvd 128" "128 div LENGTH('b) = 2 * (128 div LENGTH('a::len))"
  shows "(lanes (gv_packss_s TYPE('a) TYPE('b) a b) :: 'b word list) = map (\<lambda>x. ssat (sint x)) (lanes a :: 'a word list) @ map (\<lambda>x. ssat (sint x)) (lanes b :: 'a word list)"
    "(lanes (gv_packus_s TYPE('a) TYPE('b) a b) :: 'b word list) = map (\<lambda>x. usat (sint x)) (lanes a :: 'a word list) @ map (\<lambda>x. usat (sint x)) (lanes b :: 'a word list)"
    "(lanes (gv_packus_u TYPE('a) TYPE('b) a b) :: 'b word list) = map (\<lambda>x. usat (uint x)) (lanes a :: 'a word list) @ map (\<lambda>x. usat (uint x)) (lanes b :: 'a word list)"
  using assms by (simp_all add: gv_packss_s_def gv_packus_s_def gv_packus_u_def)

lemma biased_nonzero:
  assumes "8 \<le> LENGTH('a::len)" "LENGTH('a) \<le> 64" "LENGTH('a) dvd 128" "k < LENGTH('a)"
  shows "gv_shr_n TYPE('a) (lanes2 ((+) :: 'a word \<Rightarrow> _) a (gv_bcst c) OR lanes2 ((+) :: 'a word \<Rightarrow> _) b (gv_bcst (c :: 'a word))) (of_nat k) \<noteq> 0 \<longleftrightarrow>
    list_ex (\<lambda>x. drop_bit k (x + c) \<noteq> 0) (lanes a) \<or> list_ex (\<lambda>x. drop_bit k (x + c) \<noteq> 0) (lanes b)"
proof -
  have "(lanes (lanes2 ((+) :: 'a word \<Rightarrow> _) v (gv_bcst c)) :: 'a word list) = map (\<lambda>x. x + c) (lanes v)" for v
    using assms(3) by (auto intro!: nth_equalityI)
  then show ?thesis unfolding shr_or_nonzero [OF assms] by (simp add: list_ex_iff)
qed

lemma packs_signed:
  assumes "8 \<le> LENGTH('a::len)" "LENGTH('a) \<le> 64" "LENGTH('a) dvd 128" "LENGTH('a) = 2 * LENGTH('b::len)" "1 < LENGTH('b)"
    "LENGTH('b) dvd 128" "128 div LENGTH('b) = 2 * (128 div LENGTH('a))"
    and "\<And>sf. I sf = vec2_sat sf (\<lambda>a b. gv_packss_s TYPE('a) TYPE('b) b a)
      (\<lambda>a b. gv_shr_n TYPE('a) (lanes2 ((+) :: 'a word \<Rightarrow> _) a (gv_bcst (2 ^ (LENGTH('b) - 1) :: 'a word)) OR
        lanes2 ((+) :: 'a word \<Rightarrow> _) b (gv_bcst (2 ^ (LENGTH('b) - 1) :: 'a word))) (of_nat LENGTH('b)))"
  shows "packs I (sint :: 'a word \<Rightarrow> int) (sint :: 'b word \<Rightarrow> int) (- (2 ^ (LENGTH('b) - 1))) (2 ^ (LENGTH('b) - 1) - 1) op s"
proof (rule packsI [OF assms(8) pack_lanes(1) [OF assms(6,7)]])
  show "sint (ssat (sint x) :: 'b word) = max (- (2 ^ (LENGTH('b) - 1))) (min (2 ^ (LENGTH('b) - 1) - 1) (sint x))" for x :: "'a word"
    by (rule sint_ssat)
  have k: "LENGTH('b) < LENGTH('a)" using assms(4) by simp
  show "gv_shr_n TYPE('a) (lanes2 ((+) :: 'a word \<Rightarrow> _) a (gv_bcst (2 ^ (LENGTH('b) - 1) :: 'a word)) OR
        lanes2 ((+) :: 'a word \<Rightarrow> _) b (gv_bcst (2 ^ (LENGTH('b) - 1) :: 'a word))) (of_nat LENGTH('b)) \<noteq> 0 \<longleftrightarrow>
      list_ex (\<lambda>x. drop_bit LENGTH('b) (x + 2 ^ (LENGTH('b) - 1)) \<noteq> 0) (lanes a :: 'a word list) \<or>
      list_ex (\<lambda>x. drop_bit LENGTH('b) (x + 2 ^ (LENGTH('b) - 1)) \<noteq> 0) (lanes b :: 'a word list)" for a b
    by (rule biased_nonzero [OF assms(1-3) k])
  show "drop_bit LENGTH('b) (x + 2 ^ (LENGTH('b) - 1)) \<noteq> 0 \<longleftrightarrow> \<not> (- (2 ^ (LENGTH('b) - 1)) \<le> sint x \<and> sint x \<le> 2 ^ (LENGTH('b) - 1) - 1)" for x :: "'a word"
    unfolding drop_zero_biased [OF assms(5) k] by auto
qed

lemma packs_unsigned:
  assumes "8 \<le> LENGTH('a::len)" "LENGTH('a) \<le> 64" "LENGTH('a) dvd 128" "LENGTH('a) = 2 * LENGTH('b::len)"
    "LENGTH('b) dvd 128" "128 div LENGTH('b) = 2 * (128 div LENGTH('a))"
  shows "(\<And>sf. I sf = vec2_sat sf (\<lambda>a b. gv_packus_s TYPE('a) TYPE('b) b a) (\<lambda>a b. gv_shr_n TYPE('a) (a OR b) (of_nat LENGTH('b)))) \<Longrightarrow>
      packs I (sint :: 'a word \<Rightarrow> int) (uint :: 'b word \<Rightarrow> int) 0 (2 ^ LENGTH('b) - 1) op s"
    "(\<And>sf. J sf = vec2_sat sf (\<lambda>a b. gv_packus_u TYPE('a) TYPE('b) b a) (\<lambda>a b. gv_shr_n TYPE('a) (a OR b) (of_nat LENGTH('b)))) \<Longrightarrow>
      packs J (uint :: 'a word \<Rightarrow> int) (uint :: 'b word \<Rightarrow> int) 0 (2 ^ LENGTH('b) - 1) op s"
proof -
  have k: "LENGTH('b) < LENGTH('a)" using assms(4) by simp
  have "drop_bit LENGTH('b) x \<noteq> 0 \<longleftrightarrow> \<not> (0 \<le> sint x \<and> sint x \<le> 2 ^ LENGTH('b) - 1)"
    "drop_bit LENGTH('b) x \<noteq> 0 \<longleftrightarrow> \<not> (0 \<le> uint x \<and> uint x \<le> 2 ^ LENGTH('b) - 1)" for x :: "'a word"
    using drop_zero_sint [OF k, of x] drop_zero_iff [of "LENGTH('b)" x] uint_range [of x] by auto
  note r = this shr_or_nonzero [OF assms(1-3) k]
  show "packs I (sint :: 'a word \<Rightarrow> int) (uint :: 'b word \<Rightarrow> int) 0 (2 ^ LENGTH('b) - 1) op s"
    if "\<And>sf. I sf = vec2_sat sf (\<lambda>a b. gv_packus_s TYPE('a) TYPE('b) b a) (\<lambda>a b. gv_shr_n TYPE('a) (a OR b) (of_nat LENGTH('b)))"
    by (rule packsI [OF that pack_lanes(2) [OF assms(5,6)] uint_usat r(3,1)])
  show "packs J (uint :: 'a word \<Rightarrow> int) (uint :: 'b word \<Rightarrow> int) 0 (2 ^ LENGTH('b) - 1) op s"
    if "\<And>sf. J sf = vec2_sat sf (\<lambda>a b. gv_packus_u TYPE('a) TYPE('b) b a) (\<lambda>a b. gv_shr_n TYPE('a) (a OR b) (of_nat LENGTH('b)))"
    by (rule packsI [OF that pack_lanes(3) [OF assms(5,6)] uint_usat r(3,2)])
qed

lemma length_evens [simp]: "length (evens xs) = (length xs + 1) div 2"
  by (induction xs rule: evens.induct) auto

lemma length_odds [simp]: "length (odds xs) = length xs div 2"
  by (induction xs rule: odds.induct) auto

lemma nth_evens: "2 * i < length xs \<Longrightarrow> evens xs ! i = xs ! (2 * i)"
  by (induction xs arbitrary: i rule: evens.induct) (auto simp: nth_Cons split: nat.splits)

lemma nth_odds: "2 * i + 1 < length xs \<Longrightarrow> odds xs ! i = xs ! (2 * i + 1)"
  by (induction xs arbitrary: i rule: odds.induct) (auto simp: nth_Cons split: nat.splits)

lemma evens_append: "even (length xs) \<Longrightarrow> evens (xs @ ys) = evens xs @ evens ys"
  by (induction xs rule: evens.induct) auto

text \<open>The lanes of half the width: the low halves at the even positions, the high halves at the odd
  ones.\<close>

lemma half_lanes:
  assumes "LENGTH('a::len) = 2 * LENGTH('b::len)" "128 div LENGTH('b) = 2 * (128 div LENGTH('a))"
  shows "evens (lanes v :: 'b word list) = map ucast (lanes v :: 'a word list)"
    "odds (lanes v :: 'b word list) = map (\<lambda>x. ucast (drop_bit LENGTH('b) x)) (lanes v :: 'a word list)"
proof -
  define n where "n = 128 div LENGTH('a)"
  have len: "length (lanes v :: 'a word list) = n" "length (lanes v :: 'b word list) = 2 * n" using assms(2) by (simp_all add: n_def)
  have "(lanes v :: 'b word list) ! (2 * i) = ucast ((lanes v :: 'a word list) ! i)"
    "(lanes v :: 'b word list) ! (2 * i + 1) = ucast (drop_bit LENGTH('b) ((lanes v :: 'a word list) ! i))" if "i < n" for i
    using that assms by (auto simp: n_def nth_lanes bit_simps algebra_simps intro!: bit_word_eqI)
  then show "evens (lanes v :: 'b word list) = map ucast (lanes v :: 'a word list)"
    "odds (lanes v :: 'b word list) = map (\<lambda>x. ucast (drop_bit LENGTH('b) x)) (lanes v :: 'a word list)"
    using len by (auto intro!: nth_equalityI simp: nth_evens nth_odds simp del: length_lanes)
qed

lemma packt_elems:
  assumes "LENGTH('a::len) = 2 * LENGTH('b::len)" "LENGTH('b) dvd 128" "128 div LENGTH('b) = 2 * (128 div LENGTH('a))"
  shows "(elems (gv_packtu TYPE('b) b a) :: 'b word list) = map ucast (elems a @ elems b :: 'a word list)"
proof -
  have "even (length (lanes b :: 'b word list))" using assms(3) by simp
  then have "vuzp1 (lanes b) (lanes a :: 'b word list) = map ucast (lanes b :: 'a word list) @ map ucast (lanes a :: 'a word list)"
    by (simp only: vuzp1_def evens_append half_lanes [OF assms(1,3)])
  then show ?thesis using assms(2,3) by (simp add: elems_def gv_packtu_def rev_map)
qed

lemma extend_elems:
  assumes "LENGTH('a::len) dvd 128" "LENGTH('b::len) dvd 128" "128 div LENGTH('a) = 2 * (128 div LENGTH('b))"
  shows "(elems (gv_extend_hi_s TYPE('a) TYPE('b) v) :: 'b word list) = map scast (take (128 div LENGTH('b)) (elems v) :: 'a word list)"
    "(elems (gv_extend_lo_s TYPE('a) TYPE('b) v) :: 'b word list) = map scast (drop (128 div LENGTH('b)) (elems v) :: 'a word list)"
  using assms unfolding elems_def gv_extend_hi_s_def gv_extend_lo_s_def vget_low_def vget_high_def
  by (simp_all add: rev_map rev_drop rev_take)

text \<open>The pixel formats: 1/5/5/5 bits of a 32-bit pixel with eight bits per channel, and back with
  the first bit spread over the first channel.\<close>

definition pack_pixel :: "u32 \<Rightarrow> u16" where
  "pack_pixel w = push_bit 15 (take_bit 1 (ucast (drop_bit 24 w))) OR push_bit 10 (take_bit 5 (ucast (drop_bit 19 w))) OR
     push_bit 5 (take_bit 5 (ucast (drop_bit 11 w))) OR take_bit 5 (ucast (drop_bit 3 w))"

definition unpack_pixel :: "u16 \<Rightarrow> u32" where
  "unpack_pixel h = (if bit h 15 then 0xff000000 else 0) OR push_bit 16 (take_bit 5 (ucast (drop_bit 10 h))) OR
     push_bit 8 (take_bit 5 (ucast (drop_bit 5 h))) OR take_bit 5 (ucast h)"

lemma ssat_small: "- (2 ^ 15) \<le> sint x \<Longrightarrow> sint x < 2 ^ 15 \<Longrightarrow> (ssat (sint x) :: u16) = ucast x" for x :: u32
proof -
  assume "- (2 ^ 15) \<le> sint x" "sint x < 2 ^ 15"
  then have "(ssat (sint x) :: u16) = word_of_int (sint x)" by (simp add: ssat_def max_absorb2 min_absorb2)
  also have "\<dots> = ucast x" by (intro bit_word_eqI) (auto simp: bit_simps dest: bit_imp_le_length)
  finally show ?thesis .
qed

lemma positions: "set [0..<16] = {0,1,2,3,4,5,6,7,8,9,10,11,12,13,14,15}"
  "set [16..<32] = {16,17,18,19,20,21,22,23,24,25,26,27,28,29,30,31}"
  by code_simp+

lemma pack_pixel_lane:
  "(ssat (sint (signed_drop_bit 16 (push_bit 7 w))) AND 0xfc00) OR push_bit 3 (ssat (sint (signed_drop_bit 16 (push_bit 7 w))) AND 0x7c) OR
     (ssat (sint (signed_drop_bit 19 (push_bit 16 w))) AND 0x1f) = pack_pixel w"
proof -
  have "(ssat (sint (signed_drop_bit 16 x)) :: u16) = ucast (signed_drop_bit 16 x)"
    "(ssat (sint (signed_drop_bit 19 x)) :: u16) = ucast (signed_drop_bit 19 x)" for x :: u32
    using sint_range [of x] by (intro ssat_small; simp add: sint_shift; linarith)+
  moreover have "(ucast (signed_drop_bit 16 (push_bit 7 w)) AND 0xfc00) OR push_bit 3 (ucast (signed_drop_bit 16 (push_bit 7 w)) AND 0x7c) OR
     (ucast (signed_drop_bit 19 (push_bit 16 w)) AND 0x1f) = pack_pixel w"
  proof (rule bit_word_eqI)
    fix n assume "n < LENGTH(16)"
    then have "n \<in> {0,1,2,3,4,5,6,7,8,9,10,11,12,13,14,15}" unfolding positions [symmetric] by simp
    then show "bit ((ucast (signed_drop_bit 16 (push_bit 7 w)) AND 0xfc00) OR push_bit 3 (ucast (signed_drop_bit 16 (push_bit 7 w)) AND 0x7c) OR
        (ucast (signed_drop_bit 19 (push_bit 16 w)) AND (0x1f :: u16))) n \<longleftrightarrow> bit (pack_pixel w) n"
      unfolding pack_pixel_def by (elim insertE emptyE) (simp_all add: bit_simps flip: bit_0)
  qed
  ultimately show ?thesis by simp
qed

lemma unpack_pixel_lane:
  "(push_bit 6 x AND 0x1f0000) OR (push_bit 3 x AND 0x1f00) OR (x AND 0xff00001f) = unpack_pixel h" if "x = scast h" for h :: u16 and x :: u32
proof (rule bit_word_eqI)
  fix n assume "n < LENGTH(32)"
  then have "n \<in> set [0..<16] \<union> set [16..<32]" by (auto simp del: upt_conv_Cons upt_rec_numeral)
  then have "n \<in> {0,1,2,3,4,5,6,7,8,9,10,11,12,13,14,15} \<union> {16,17,18,19,20,21,22,23,24,25,26,27,28,29,30,31}" unfolding positions .
  then show "bit ((push_bit 6 x AND 0x1f0000) OR (push_bit 3 x AND 0x1f00) OR (x AND 0xff00001f)) n \<longleftrightarrow> bit (unpack_pixel h) n"
    unfolding that unpack_pixel_def by (elim UnE insertE emptyE) (simp_all add: bit_simps)
qed

lemma map2_replicate: "length xs = n \<Longrightarrow> map2 f xs (replicate n c) = map (\<lambda>x. f x c) xs"
  by (auto intro!: nth_equalityI)

lemma map2_maps: "map2 f (map g xs) (map h xs) = map (\<lambda>x. f (g x) (h x)) xs"
  by (induction xs) auto

lemmas pixel_shifts =
  count_lanes(1) [where ?'a = 32 and k = 7, simplified] count_lanes(1) [where ?'a = 32 and k = 16, simplified]
  count_lanes(3) [where ?'a = 32 and k = 16, simplified] count_lanes(3) [where ?'a = 32 and k = 19, simplified]
  count_lanes(1) [where ?'a = 16 and k = 3, simplified] count_lanes(1) [where ?'a = 32 and k = 3, simplified]
  count_lanes(1) [where ?'a = 32 and k = 6, simplified]

lemma pack_pixel_elems: "(elems (vr (VPKPX op s) (op_vd op)) :: u16 list) = map pack_pixel (elems (vr s (op_va op)) @ elems (vr s (op_vb op)))"
proof -
  have "(lanes (vr (VPKPX op s) (op_vd op)) :: u16 list) = map pack_pixel (lanes (vr s (op_vb op)) @ lanes (vr s (op_va op)))"
    unfolding pack_pixel_lane [symmetric]
    by (simp add: VPKPX_def vec2_def Let_def lanes_and lanes_or pixel_shifts pack_lanes map2_replicate map2_maps or.assoc flip: map_append)
  then show ?thesis by (simp add: elems_def rev_map)
qed

lemma unpack_pixel_elems:
  "(elems (vr (VUPKHPX op s) (op_vd op)) :: u32 list) = map unpack_pixel (take 4 (elems (vr s (op_vb op))))"
  "(elems (vr (VUPKLPX op s) (op_vd op)) :: u32 list) = map unpack_pixel (drop 4 (elems (vr s (op_vb op))))"
proof -
  have "(elems (let y = gv_or32 (gv_and32 (gv_shl32n x 6) (gv_bcst (0x1f0000 :: u32))) (gv_and32 (gv_shl32n x 3) (gv_bcst (0x1f00 :: u32)))
     in gv_or32 y (gv_and32 x (gv_bcst (0xff00001f :: u32)))) :: u32 list) =
     map (\<lambda>x. (push_bit 6 x AND 0x1f0000) OR (push_bit 3 x AND 0x1f00) OR (x AND 0xff00001f)) (elems x)" for x
    by (simp add: Let_def elems_def lanes_and lanes_or pixel_shifts map2_replicate map2_maps rev_map or.assoc)
  note e = this [unfolded Let_def]
  show "(elems (vr (VUPKHPX op s) (op_vd op)) :: u32 list) = map unpack_pixel (take 4 (elems (vr s (op_vb op))))"
    "(elems (vr (VUPKLPX op s) (op_vd op)) :: u32 list) = map unpack_pixel (drop 4 (elems (vr s (op_vb op))))"
    by (simp_all add: VUPKHPX_def VUPKLPX_def vec1_def Let_def e extend_elems unpack_pixel_lane [OF refl])
qed

lemma saturating_packs:
  "packs VPKSHSS (sint :: u16 \<Rightarrow> int) (sint :: u8 \<Rightarrow> int) (- (2 ^ 7)) (2 ^ 7 - 1) op s"
  "packs VPKSWSS (sint :: u32 \<Rightarrow> int) (sint :: u16 \<Rightarrow> int) (- (2 ^ 15)) (2 ^ 15 - 1) op s"
  "packs VPKSHUS (sint :: u16 \<Rightarrow> int) (uint :: u8 \<Rightarrow> int) 0 (2 ^ 8 - 1) op s"
  "packs VPKSWUS (sint :: u32 \<Rightarrow> int) (uint :: u16 \<Rightarrow> int) 0 (2 ^ 16 - 1) op s"
  "packs VPKUHUS (uint :: u16 \<Rightarrow> int) (uint :: u8 \<Rightarrow> int) 0 (2 ^ 8 - 1) op s"
  "packs VPKUWUS (uint :: u32 \<Rightarrow> int) (uint :: u16 \<Rightarrow> int) 0 (2 ^ 16 - 1) op s"
  using packs_signed [where ?'a = 16 and ?'b = 8 and I = VPKSHSS and op = op and s = s]
    packs_signed [where ?'a = 32 and ?'b = 16 and I = VPKSWSS and op = op and s = s]
    packs_unsigned(1) [where ?'a = 16 and ?'b = 8 and I = VPKSHUS and op = op and s = s]
    packs_unsigned(1) [where ?'a = 32 and ?'b = 16 and I = VPKSWUS and op = op and s = s]
    packs_unsigned(2) [where ?'a = 16 and ?'b = 8 and J = VPKUHUS and op = op and s = s]
    packs_unsigned(2) [where ?'a = 32 and ?'b = 16 and J = VPKUWUS and op = op and s = s]
  by (simp_all add: VPKSHSS_def VPKSWSS_def VPKSHUS_def VPKSWUS_def VPKUHUS_def VPKUWUS_def)

text \<open>C33: packing and unpacking. The saturating packs clamp every element of the two operands, in
  order, to the range of the narrower element, and record in the saturation bit exactly whether one was
  out of range; the modular packs keep the low half; the unpacks sign-extend the high or the low half of
  the operand; the pixel forms convert between 1/5/5/5 and 8/8/8/8 bit pixels.\<close>

theorem vector_packs_exact:
  "packs VPKSHSS (sint :: u16 \<Rightarrow> int) (sint :: u8 \<Rightarrow> int) (- (2 ^ 7)) (2 ^ 7 - 1) op s \<and>
   packs VPKSWSS (sint :: u32 \<Rightarrow> int) (sint :: u16 \<Rightarrow> int) (- (2 ^ 15)) (2 ^ 15 - 1) op s \<and>
   packs VPKSHUS (sint :: u16 \<Rightarrow> int) (uint :: u8 \<Rightarrow> int) 0 (2 ^ 8 - 1) op s \<and>
   packs VPKSWUS (sint :: u32 \<Rightarrow> int) (uint :: u16 \<Rightarrow> int) 0 (2 ^ 16 - 1) op s \<and>
   packs VPKUHUS (uint :: u16 \<Rightarrow> int) (uint :: u8 \<Rightarrow> int) 0 (2 ^ 8 - 1) op s \<and>
   packs VPKUWUS (uint :: u32 \<Rightarrow> int) (uint :: u16 \<Rightarrow> int) 0 (2 ^ 16 - 1) op s \<and>
   (let a = vr s (op_va op); b = vr s (op_vb op); out = \<lambda>t. vr t (op_vd op)
    in (elems (out (VPKUHUM op s)) :: u8 list) = map ucast (elems a @ elems b :: u16 list) \<and>
       (elems (out (VPKUWUM op s)) :: u16 list) = map ucast (elems a @ elems b :: u32 list) \<and>
       (elems (out (VUPKHSB op s)) :: u16 list) = map scast (take 8 (elems b) :: u8 list) \<and>
       (elems (out (VUPKLSB op s)) :: u16 list) = map scast (drop 8 (elems b) :: u8 list) \<and>
       (elems (out (VUPKHSH op s)) :: u32 list) = map scast (take 4 (elems b) :: u16 list) \<and>
       (elems (out (VUPKLSH op s)) :: u32 list) = map scast (drop 4 (elems b) :: u16 list) \<and>
       elems (out (VPKPX op s)) = map pack_pixel (elems a @ elems b) \<and>
       elems (out (VUPKHPX op s)) = map unpack_pixel (take 4 (elems b)) \<and>
       elems (out (VUPKLPX op s)) = map unpack_pixel (drop 4 (elems b)))"
  unfolding Let_def pack_pixel_elems unpack_pixel_elems
  by (intro conjI saturating_packs refl)
    (simp_all add: VPKUHUM_def VPKUWUM_def VUPKHSB_def VUPKLSB_def VUPKHSH_def VUPKLSH_def vec1_def vec2_def
      packt_elems [where ?'a = 16] packt_elems [where ?'a = 32] extend_elems)

end
