(* ===== verification/Spec2Isabelle.thy ===== *)
theory Spec2Isabelle
  imports CellSync_Mutex CellSync_Barrier CellSync_Rwm CellSync_Queue Ppu_Decoder Ppu_LoadStore Ppu_Vector
begin

text \<open>
  A verification library for the emulation core of EmuCoreC, a PlayStation 3 emulator for Android
  built on RPCS3. All paths below are relative to \<^verbatim>\<open>src/core/rpcs3\<close> unless they start with
  \<^verbatim>\<open>src\<close> or \<^verbatim>\<open>Utilities\<close>, which is \<^verbatim>\<open>src/core/Utilities\<close>.

  \<^bold>\<open>The program.\<close> A game runs as PowerPC code of the PPU in a 32-bit guest address space. The
  interpreter fetches an instruction word, looks it up in the decoder table and calls the function
  it finds, which updates the thread and guest memory. Calls into the system libraries of the
  console are not interpreted: they are C++ functions (HLE calls) that work on the same guest
  memory. The library covers two slices of this from end to end: the \<^verbatim>\<open>cellSync\<close> objects
  (mutex, barrier, reader/writer memory, queue), shared by concurrently running guest threads, and
  the PPU interpreter for integer code (instruction words, assembler, decoder, thread state,
  fixed-point, control, load/store and integer vector instructions).

  \<^bold>\<open>Foundations.\<close>
  \<^item> \<open>Prelude\<close>: the machine integers of \<^verbatim>\<open>util/types.hpp\<close> as words; the outcome of an HLE call
    (\<open>call_state\<close>: returned, waiting, stopped, thrown); threads interleaved over a shared state
    (\<open>sys_step\<close>, \<open>reachable\<close>, the executable \<open>run_schedule\<close>) and the locale \<open>thread_invariant\<close>,
    whose reachability induction the three concurrent components use.
  \<^item> \<open>Guest_Memory\<close>: memory as a function from 32-bit addresses to bytes (\<^verbatim>\<open>vm::base\<close>),
    \<^verbatim>\<open>be_t\<close> scalars and packed structs as codecs, \<^verbatim>\<open>vm::ptr\<close> accesses as \<open>load\<close> and \<open>store\<close>,
    the read-modify-write of \<^verbatim>\<open>atomic_t\<close>. The locale \<open>codec_laws\<close> is the interface; it is
    interpreted for every scalar and every control word.
  \<^item> \<open>Bit_Field\<close>: \<^verbatim>\<open>bf_t\<close> and \<^verbatim>\<open>cf_t\<close> of \<^verbatim>\<open>Utilities/BitField.h\<close> at any word width. The locale
    \<open>field_laws\<close> is interpreted on the four fields of the queue's control word. C7 shows that
    fields are independent lenses.

  \<^bold>\<open>cellSync\<close> (\<^verbatim>\<open>Emu/Cell/Modules/cellSync.h\<close> and \<^verbatim>\<open>.cpp\<close>). \<open>CellSync_Errors\<close> holds the return
  codes. In the other theories each C++ function is the definition of the same name on guest memory,
  with its null and alignment checks and every early return. A call that loops is a first step
  and one step for each further iteration, and an entry copy (\<^verbatim>\<open>std::memcpy\<close>) is one step per byte,
  so a schedule may switch threads between two atomic accesses; \<^verbatim>\<open>ppu.test_stopped()\<close> is an
  input of the step. One pair of accesses is a single step: the queue calls check the depth, which
  never changes after initialisation, together with the access to the control word that follows. There is no fuel: wait loops appear as program points and the theorems are about
  every reachable state.
  \<^item> \<open>CellSync_Mutex\<close>: the ticket lock. C1 mutual exclusion, C2 bounded waiting in ticket order, both
    for fewer than 2^16 threads, because the tickets are 16-bit and wrap.
  \<^item> \<open>CellSync_Barrier\<close>: C3 refinement to a two-phase counter, C4 separation of the rounds.
  \<^item> \<open>CellSync_Rwm\<close>: C5 exclusion of readers and writers, C6 whole copies in spite of the byte-wise
    interleaving.
  \<^item> \<open>CellSync_Queue\<close>: C8 refinement, step by step, to an abstract bounded queue; C9 first in, first
    out; C10 the meaning of the size call. The depth is below 2^24 in all three: the counters of the
    control word have 24 bits, and \<^verbatim>\<open>cellSyncQueueInitialize\<close> does not check this.

  \<^bold>\<open>PPU instruction words.\<close>
  \<^item> \<open>Ppu_Opcode\<close>: the fields of \<^verbatim>\<open>ppu_opcode_t\<close>, \<^verbatim>\<open>ppu_rotate_mask\<close>, \<^verbatim>\<open>ppu_decode\<close> and the assembler
    \<^verbatim>\<open>namespace ppu_instructions\<close> of \<^verbatim>\<open>Emu/Cell/PPUOpcodes.h\<close>.
  \<^item> \<open>Ppu_Decoder\<close>: \<^verbatim>\<open>ppu_decoder\<close> with its 2^17 slots, its nine groups of entries and the fill loops,
    generic in the functions stored, as the class template is. C11 the table is exact, C12 assembled
    words decode to the instruction and operands they were made from.

  \<^bold>\<open>PPU interpreter\<close> (\<^verbatim>\<open>Emu/Cell/PPUInterpreter.cpp\<close>). \<open>Ppu_State\<close> is the thread (\<^verbatim>\<open>ppu_thread\<close> of
  \<^verbatim>\<open>Emu/Cell/PPUThread.h\<close>) as the record \<open>ppu\<close>, guest memory included, with the helpers the
  instructions share. An instruction is the definition named like its function template; the template
  flags are Boolean arguments (\<open>oe\<close>, \<open>rc\<close>, \<open>fd\<close>, \<open>sf\<close>, \<open>nf\<close>). An instruction that can only continue
  returns the new thread, a memory access returns an option (\<open>None\<close> is the exception of
  \<^verbatim>\<open>vm::cast\<close>), a control instruction a \<open>ppu_result\<close>.
  \<^item> \<open>Ppu_Fixed\<close>: C13 multi-precision addition and subtraction, C14 overflow, C15 shifts, C16 rotate
    and mask, C17 multiplication and division.
  \<^item> \<open>Ppu_Branch\<close>: C18 saving and restoring the condition register, C19 special-purpose registers,
    C20 branches against the architecture's encoding table, C21 termination of counted loops. The
    loop of C21 is a partial function into \<open>option\<close>; the theorem shows that it returns.
  \<^item> \<open>Ppu_LoadStore\<close>: C22 store and load, C23 multiple registers, C24 string copies, C25 unaligned
    vectors, C26 the reservation check of a load. The loops of the multiple and string instructions
    are total functions with termination proofs.
  \<^item> \<open>Simd\<close>: the helpers of \<^verbatim>\<open>util/simd.hpp\<close> on 128-bit words seen as lanes (locale \<open>lane_view\<close>,
    interpreted at 8, 16, 32 and 64 bits). The application is built for \<^verbatim>\<open>arm64-v8a\<close> only
    (\<^verbatim>\<open>src/app/build.gradle.kts\<close>), so the helpers follow the \<^verbatim>\<open>ARCH_ARM64\<close> branches, without the
    variants for optional processor features.
  \<^item> \<open>Ppu_Vector\<close>: every vector instruction on integer elements. C27 saturating arithmetic and the
    sticky saturation bit, C28 elementwise arithmetic, C29 comparisons, C30 element shifts and
    rotations, C31 shifts of the whole vector, C32 permutations, merges and splats, C33 packing and
    unpacking.

  \<^bold>\<open>Bounds.\<close> Words are kept at the width of the code throughout and wrap as it does; register
  numbers are the 5-bit field values. Hypotheses on sizes are those under which the code is meant to
  run (objects and buffers that do not overlap, effective addresses in the 32-bit space, fewer than
  2^16 threads, queues of fewer than 2^24 entries) and appear in the statements, each with a concrete instance that satisfies them.

  \<^bold>\<open>Not modelled.\<close> Floating-point instructions, scalar and vector, and single-precision transfers
  compute on host floating-point values. The reserved loads and stores are implemented in
  \<^verbatim>\<open>Emu/Cell/PPUThread.cpp\<close> with host atomics and page protection. The call history is a debugging aid.
  The lock-free queue of cellSync depends on the lv2 event queues. The recompilers generate host code;
  SPU, RSX, audio, network, input, file system, loader, crypto, lv2 kernel, the other HLE modules and the
  Android application are separate parts of the program. Memory accesses are sequentially consistent
  in the model, as the \<^verbatim>\<open>atomic_t\<close> operations of the modelled calls are; an access to unmapped guest
  memory, a host fault, is outside it.
\<close>

end
